(* ===== verification/Prelude.thy ===== *)
theory Prelude
  imports Main "HOL-Library.Word"
begin

text \<open>
  Shared vocabulary of the development.

  \<^item> The outcome of running kernel code (\<open>outcome\<close>) and the sequencing of kernel
    operations (\<open>ret\<close>, \<open>panic\<close>, \<open>andthen\<close>, \<open>for_each\<close>).  A kernel operation is a
    function from the state to an outcome, so every panic, every context switch and every
    access outside an array is a branch of the model.
  \<^item> The little-endian layout of C integers in byte arrays (\<open>rd32\<close>, \<open>wr32\<close>, \<open>rd16\<close>,
    \<open>wr16\<close>) and block copies (\<open>blit\<close>), with their round trips.
  \<^item> The constants of \<^verbatim>\<open>param.h\<close> and \<^verbatim>\<open>fs.h\<close>.
\<close>

section \<open>Machine types and constants\<close>

type_synonym uchar = "8 word"
type_synonym ushort = "16 word"
type_synonym uint = "32 word"

text \<open>A disk block or a C byte array.\<close>

type_synonym bytes = "uchar list"

definition NPROC :: nat where "NPROC = 64"
definition KSTACKSIZE :: nat where "KSTACKSIZE = 4096"
definition NOFILE :: nat where "NOFILE = 16"
definition NFILE :: nat where "NFILE = 100"
definition NINODE :: nat where "NINODE = 50"
definition NDEV :: nat where "NDEV = 10"
definition ROOTDEV :: nat where "ROOTDEV = 1"
definition MAXARG :: nat where "MAXARG = 32"
definition MAXOPBLOCKS :: nat where "MAXOPBLOCKS = 10"
definition LOGSIZE :: nat where "LOGSIZE = MAXOPBLOCKS * 3"
definition NBUF :: nat where "NBUF = MAXOPBLOCKS * 3"
definition FSSIZE :: nat where "FSSIZE = 1000"
definition BSIZE :: nat where "BSIZE = 512"

section \<open>Outcomes of kernel code\<close>

text \<open>
  \<open>Done a s\<close>: the code returns \<open>a\<close> in state \<open>s\<close>.
  \<open>Panic m\<close>: the code calls \<open>panic(m)\<close>, which never returns.
  \<open>Switch s\<close>: the running process gives up the CPU (it calls \<open>swtch\<close> into the
  scheduler) in state \<open>s\<close>.
  \<open>Spin\<close>: the code loops for ever (a spin lock that nobody releases, a traversal of a
  broken list).
  \<open>Fault\<close>: the C program has no defined behaviour (an access outside an array, a null
  pointer).
\<close>

datatype ('a, 's) outcome = Done 'a 's | Panic string | Switch 's | Spin | Fault

type_synonym ('a, 's) kop = "'s \<Rightarrow> ('a, 's) outcome"

definition ret :: "'a \<Rightarrow> ('a, 's) kop" where
  "ret a = (\<lambda>s. Done a s)"

definition panic :: "string \<Rightarrow> ('a, 's) kop" where
  "panic m = (\<lambda>s. Panic m)"

definition fault :: "('a, 's) kop" where
  "fault = (\<lambda>s. Fault)"

definition gets :: "('s \<Rightarrow> 'a) \<Rightarrow> ('a, 's) kop" where
  "gets f = (\<lambda>s. Done (f s) s)"

definition modify :: "('s \<Rightarrow> 's) \<Rightarrow> (unit, 's) kop" where
  "modify f = (\<lambda>s. Done () (f s))"

definition andthen :: "('a, 's) kop \<Rightarrow> ('a \<Rightarrow> ('b, 's) kop) \<Rightarrow> ('b, 's) kop" where
  "andthen m f = (\<lambda>s. case m s of
       Done a s' \<Rightarrow> f a s'
     | Panic e \<Rightarrow> Panic e
     | Switch s' \<Rightarrow> Switch s'
     | Spin \<Rightarrow> Spin
     | Fault \<Rightarrow> Fault)"

text \<open>\<open>for_each xs body\<close> is a C \<open>for\<close> loop whose index runs through \<open>xs\<close>.\<close>

fun for_each :: "'x list \<Rightarrow> ('x \<Rightarrow> (unit, 's) kop) \<Rightarrow> (unit, 's) kop" where
  "for_each [] body = ret ()"
| "for_each (x # xs) body = andthen (body x) (\<lambda>_. for_each xs body)"

text \<open>\<open>is_done r P\<close>: the code returns, and \<open>P\<close> holds of its result and final state.\<close>

fun is_done :: "('a, 's) outcome \<Rightarrow> ('a \<Rightarrow> 's \<Rightarrow> bool) \<Rightarrow> bool" where
  "is_done (Done a s) P = P a s"
| "is_done _ P = False"

named_theorems kop_simps \<open>unfolding of the sequencing operators\<close>

lemma ret_app [simp]: "ret a s = Done a s"
  by (simp add: ret_def)

lemma panic_app [simp]: "panic m s = Panic m"
  by (simp add: panic_def)

lemma fault_app [simp]: "fault s = Fault"
  by (simp add: fault_def)

lemma gets_app [simp]: "gets f s = Done (f s) s"
  by (simp add: gets_def)

lemma modify_app [simp]: "modify f s = Done () (f s)"
  by (simp add: modify_def)

lemma andthen_Done [simp]: "m s = Done a s' \<Longrightarrow> andthen m f s = f a s'"
  by (simp add: andthen_def)

lemma andthen_Panic [simp]: "m s = Panic e \<Longrightarrow> andthen m f s = Panic e"
  by (simp add: andthen_def)

lemma andthen_Switch [simp]: "m s = Switch s' \<Longrightarrow> andthen m f s = Switch s'"
  by (simp add: andthen_def)

lemma andthen_Spin [simp]: "m s = Spin \<Longrightarrow> andthen m f s = Spin"
  by (simp add: andthen_def)

lemma andthen_Fault [simp]: "m s = Fault \<Longrightarrow> andthen m f s = Fault"
  by (simp add: andthen_def)

lemma if_app [simp]: "(if c then f else g) x = (if c then f x else g x)"
  by simp

lemma andthen_assoc: "andthen (andthen m f) g = andthen m (\<lambda>a. andthen (f a) g)"
  by (auto simp: andthen_def split: outcome.splits)

lemma andthen_eq_Done:
  "andthen m f s = Done b s'' \<longleftrightarrow> (\<exists>a s'. m s = Done a s' \<and> f a s' = Done b s'')"
  by (auto simp: andthen_def split: outcome.splits)

lemma andthen_DoneE:
  assumes "andthen m f s = Done b s''"
  obtains a s' where "m s = Done a s'" and "f a s' = Done b s''"
  using assms by (auto simp: andthen_eq_Done)

lemma is_done_iff: "is_done r P \<longleftrightarrow> (\<exists>a s. r = Done a s \<and> P a s)"
  by (cases r) auto

lemma is_done_andthen:
  assumes "is_done (m s) P" and "\<And>a s'. P a s' \<Longrightarrow> is_done (f a s') Q"
  shows "is_done (andthen m f s) Q"
  using assms by (auto simp: is_done_iff andthen_eq_Done)

lemma for_each_append:
  "for_each (xs @ ys) body = andthen (for_each xs body) (\<lambda>_. for_each ys body)"
proof (induction xs)
  case Nil
  then show ?case by (simp add: fun_eq_iff)
next
  case (Cons x xs)
  then show ?case by (simp add: andthen_assoc)
qed

text \<open>
  The loop rule: an invariant \<open>I\<close>, indexed by the number of finished iterations, that
  each iteration keeps.
\<close>

lemma for_each_upt_rule:
  assumes start: "I a s"
    and step: "\<And>k s. I k s \<Longrightarrow> a \<le> k \<Longrightarrow> k < b \<Longrightarrow> is_done (body k s) (\<lambda>_. I (Suc k))"
    and le: "a \<le> b"
  shows "is_done (for_each [a..<b] body s) (\<lambda>_. I b)"
  using start step le
proof (induction "b - a" arbitrary: a s)
  case 0
  then show ?case by simp
next
  case (Suc n)
  then have lt: "a < b" by simp
  have "is_done (body a s) (\<lambda>_. I (Suc a))"
    using Suc.prems lt by auto
  moreover have "is_done (for_each [Suc a..<b] body s') (\<lambda>_. I b)" if "I (Suc a) s'" for s'
    using Suc.hyps(1)[of "Suc a" s'] Suc.hyps(2) Suc.prems(2) that lt by auto
  ultimately show ?case
    using lt by (simp add: upt_conv_Cons is_done_andthen)
qed

section \<open>Little-endian integers in byte arrays\<close>

text \<open>
  \<open>rd32 bs o\<close> is the \<open>uint\<close> at byte offset \<open>o\<close> of the array \<open>bs\<close> (x86 is
  little-endian), \<open>wr32 bs o v\<close> stores the low 32 bits of \<open>v\<close> there;  \<open>rd16\<close> and
  \<open>wr16\<close> do the same for \<open>ushort\<close>.
\<close>

definition rd16 :: "bytes \<Rightarrow> nat \<Rightarrow> nat" where
  "rd16 bs p = unat (bs ! p) + 2 ^ 8 * unat (bs ! (p + 1))"

definition wr16 :: "bytes \<Rightarrow> nat \<Rightarrow> nat \<Rightarrow> bytes" where
  "wr16 bs p v = bs[p := of_nat v, p + 1 := of_nat (v div 2 ^ 8)]"

definition rd32 :: "bytes \<Rightarrow> nat \<Rightarrow> nat" where
  "rd32 bs p = rd16 bs p + 2 ^ 16 * rd16 bs (p + 2)"

definition wr32 :: "bytes \<Rightarrow> nat \<Rightarrow> nat \<Rightarrow> bytes" where
  "wr32 bs p v = wr16 (wr16 bs p v) (p + 2) (v div 2 ^ 16)"

lemma length_wr16 [simp]: "length (wr16 bs p v) = length bs"
  by (simp add: wr16_def)

lemma length_wr32 [simp]: "length (wr32 bs p v) = length bs"
  by (simp add: wr32_def)

lemma rd16_less: "rd16 bs p < 2 ^ 16"
proof -
  have "unat (bs ! p) < 256" and "unat (bs ! (p + 1)) < 256"
    using unsigned_less[of "bs ! p"] unsigned_less[of "bs ! (p + 1)"] by simp_all
  then show ?thesis by (simp add: rd16_def)
qed

lemma rd32_less: "rd32 bs p < 2 ^ 32"
  using rd16_less[of bs p] rd16_less[of bs "p + 2"] by (simp add: rd32_def)

lemma mod_split16: "(v::nat) mod 2 ^ 8 + 2 ^ 8 * (v div 2 ^ 8 mod 2 ^ 8) = v mod 2 ^ 16"
  using mod_mult2_eq[of v "2 ^ 8" "2 ^ 8"] by simp

lemma mod_split32: "(v::nat) mod 2 ^ 16 + 2 ^ 16 * (v div 2 ^ 16 mod 2 ^ 16) = v mod 2 ^ 32"
  using mod_mult2_eq[of v "2 ^ 16" "2 ^ 16"] by simp

lemma rd16_wr16: "p + 2 \<le> length bs \<Longrightarrow> rd16 (wr16 bs p v) p = v mod 2 ^ 16"
  using mod_split16[of v] by (simp add: rd16_def wr16_def unat_of_nat)

lemma rd16_wr16_other:
  "q + 2 \<le> p \<or> p + 2 \<le> q \<Longrightarrow> rd16 (wr16 bs p v) q = rd16 bs q"
  by (auto simp: rd16_def wr16_def nth_list_update)

lemma rd32_wr32: "p + 4 \<le> length bs \<Longrightarrow> rd32 (wr32 bs p v) p = v mod 2 ^ 32"
  using mod_split32[of v] by (simp add: rd32_def wr32_def rd16_wr16 rd16_wr16_other)

lemma rd32_wr32_other:
  "q + 4 \<le> p \<or> p + 4 \<le> q \<Longrightarrow> rd32 (wr32 bs p v) q = rd32 bs q"
  by (auto simp: rd32_def wr32_def rd16_wr16_other)

lemma rd16_wr32_other:
  "q + 2 \<le> p \<or> p + 4 \<le> q \<Longrightarrow> rd16 (wr32 bs p v) q = rd16 bs q"
  by (auto simp: wr32_def rd16_wr16_other)

lemma rd32_wr16_other:
  "q + 4 \<le> p \<or> p + 2 \<le> q \<Longrightarrow> rd32 (wr16 bs p v) q = rd32 bs q"
  by (auto simp: rd32_def rd16_wr16_other)

lemmas rd_wr = rd16_wr16 rd32_wr32 rd16_wr16_other rd32_wr32_other
  rd16_wr32_other rd32_wr16_other

text \<open>\<open>blit dst p src\<close>: the array \<open>dst\<close> after \<open>memmove(dst + p, src, n)\<close>, \<open>n\<close> the length of
  \<open>src\<close>.\<close>

definition blit :: "'b list \<Rightarrow> nat \<Rightarrow> 'b list \<Rightarrow> 'b list" where
  "blit dst p src = take p dst @ src @ drop (p + length src) dst"

lemma length_blit [simp]: "p + length src \<le> length dst \<Longrightarrow> length (blit dst p src) = length dst"
  by (simp add: blit_def)

lemma nth_blit:
  "p + length src \<le> length dst \<Longrightarrow> i < length dst \<Longrightarrow>
   blit dst p src ! i = (if p \<le> i \<and> i < p + length src then src ! (i - p) else dst ! i)"
  by (auto simp: blit_def nth_append)

lemma take_drop_blit:
  "p + length src \<le> length dst \<Longrightarrow> take (length src) (drop p (blit dst p src)) = src"
  by (simp add: blit_def)

lemma unat_uint_less: "unat (n :: uint) < 2 ^ 32"
  by (rule order_less_le_trans[OF unsigned_less]) simp

section \<open>First match in a list\<close>

text \<open>A C loop over an array that stops at the first element with a property stops at index
  \<open>first_idx P xs\<close>.\<close>

definition first_idx :: "('b \<Rightarrow> bool) \<Rightarrow> 'b list \<Rightarrow> nat" where
  "first_idx P xs = length (takeWhile (\<lambda>x. \<not> P x) xs)"

lemma first_idx_simps [simp]:
  "first_idx P [] = 0" "first_idx P (x # xs) = (if P x then 0 else Suc (first_idx P xs))"
  by (simp_all add: first_idx_def)

lemma first_idx_less: "\<exists>x\<in>set xs. P x \<Longrightarrow> first_idx P xs < length xs"
  by (induction xs) auto

lemma first_idx_holds: "\<exists>x\<in>set xs. P x \<Longrightarrow> P (xs ! first_idx P xs)"
  by (induction xs) auto

lemma first_idx_before: "j < first_idx P xs \<Longrightarrow> \<not> P (xs ! j)"
proof (induction xs arbitrary: j)
  case Nil
  then show ?case by simp
next
  case (Cons x xs)
  then show ?case by (cases j) (auto split: if_splits)
qed

lemma first_idx_none: "\<forall>x\<in>set xs. \<not> P x \<Longrightarrow> first_idx P xs = length xs"
  by (induction xs) auto

lemma first_idx_eqI:
  "i < length xs \<Longrightarrow> P (xs ! i) \<Longrightarrow> (\<And>j. j < i \<Longrightarrow> \<not> P (xs ! j)) \<Longrightarrow> first_idx P xs = i"
  by (metis first_idx_before first_idx_holds linorder_neqE_nat nth_mem)

lemma find_SomeD: "find P xs = Some x \<Longrightarrow> x \<in> set xs \<and> P x"
  by (auto simp: find_Some_iff)

end
