(* ===== verification/Spinlock.thy ===== *)
theory Spinlock
  imports Prelude
begin

text \<open>
  \<^verbatim>\<open>spinlock.c\<close>: spin locks and the nesting of interrupt disabling.

  The state of the running CPU (\<open>cpu\<close>, from \<^verbatim>\<open>struct cpu\<close> of \<^verbatim>\<open>proc.h\<close>) and of every
  spin lock of the kernel (\<open>locks\<close>, from \<^verbatim>\<open>struct spinlock\<close>) form the bottom layer \<open>mach\<close>
  of the kernel state; each later theory extends this record, so the operations defined here
  apply unchanged to the richer states.

  The second half gives the same code for several CPUs, one machine instruction that matters
  at a time, as the step relation \<open>lk_step\<close>: the kernel's critical sections rest on its mutual
  exclusion.

  The debugging fields \<^verbatim>\<open>name\<close> and \<^verbatim>\<open>pcs\<close> of a lock are not modelled.
\<close>

section \<open>Data\<close>

text \<open>The spin locks of the kernel, by the variable they live in.\<close>

datatype lockid = BcacheLk | LogLk | IcacheLk | FtableLk | PtableLk | KmemLk | ConsLk
  | TicksLk | IdeLk | PipeLk nat

record spinlock =
  locked :: uint          \<comment> \<open>is the lock held?\<close>
  lk_cpu :: "nat option"  \<comment> \<open>the CPU that holds it\<close>

text \<open>
  \<open>ncli\<close> is the depth of \<open>pushcli\<close> nesting, \<open>intena\<close> whether interrupts were enabled before
  the outermost \<open>pushcli\<close>, \<open>eflags_if\<close> the interrupt flag \<^verbatim>\<open>FL_IF\<close> of the processor, and
  \<open>curproc\<close> the index in the process table of the process that is running (\<^verbatim>\<open>proc\<close>).
\<close>

record cpu =
  cpu_id :: nat
  eflags_if :: bool
  ncli :: int
  intena :: bool
  curproc :: "nat option"

record mach =
  cpu :: cpu
  locks :: "lockid \<Rightarrow> spinlock"

section \<open>Operations\<close>

definition free_lock :: spinlock where
  "free_lock = \<lparr>locked = 0, lk_cpu = None\<rparr>"

definition initlock :: "lockid \<Rightarrow> (unit, 'a mach_scheme) kop" where
  "initlock l = modify (\<lambda>s. s\<lparr>locks := (locks s)(l := free_lock)\<rparr>)"

text \<open>\<open>holding\<close>: whether this CPU holds the lock.\<close>

definition holding :: "lockid \<Rightarrow> 'a mach_scheme \<Rightarrow> bool" where
  "holding l s \<longleftrightarrow> locked (locks s l) \<noteq> 0 \<and> lk_cpu (locks s l) = Some (cpu_id (cpu s))"

text \<open>\<open>pushcli\<close> and \<open>popcli\<close> work on the CPU only; \<open>popcli_cpu\<close> gives the panic message
  or the new CPU state.\<close>

definition pushcli_cpu :: "cpu \<Rightarrow> cpu" where
  "pushcli_cpu c =
     (let eflags = eflags_if c; c = c\<lparr>eflags_if := False\<rparr>
      in c\<lparr>ncli := ncli c + 1, intena := (if ncli c = 0 then eflags else intena c)\<rparr>)"

definition popcli_cpu :: "cpu \<Rightarrow> string + cpu" where
  "popcli_cpu c =
     (if eflags_if c then Inl ''popcli - interruptible''
      else let c = c\<lparr>ncli := ncli c - 1\<rparr>
        in if ncli c < 0 then Inl ''popcli''
        else Inr (if ncli c = 0 \<and> intena c then c\<lparr>eflags_if := True\<rparr> else c))"

definition pushcli :: "(unit, 'a mach_scheme) kop" where
  "pushcli = modify (\<lambda>s. s\<lparr>cpu := pushcli_cpu (cpu s)\<rparr>)"

definition popcli :: "(unit, 'a mach_scheme) kop" where
  "popcli = (\<lambda>s. case popcli_cpu (cpu s) of
       Inl m \<Rightarrow> Panic m
     | Inr c \<Rightarrow> Done () (s\<lparr>cpu := c\<rparr>))"

text \<open>
  \<open>acquire\<close>: the \<open>xchg\<close> loop ends at once when the lock is free; when another CPU holds it,
  this CPU spins, and nothing this CPU does ends the loop.
\<close>

definition acquire :: "lockid \<Rightarrow> (unit, 'a mach_scheme) kop" where
  "acquire l =
     andthen pushcli (\<lambda>_ s.
       if holding l s then Panic ''acquire''
       else if locked (locks s l) \<noteq> 0 then Spin
       else Done () (s\<lparr>locks := (locks s)(l :=
              \<lparr>locked = 1, lk_cpu = Some (cpu_id (cpu s))\<rparr>)\<rparr>))"

definition release :: "lockid \<Rightarrow> (unit, 'a mach_scheme) kop" where
  "release l = (\<lambda>s.
     if \<not> holding l s then Panic ''release''
     else popcli (s\<lparr>locks := (locks s)(l := \<lparr>locked = 0, lk_cpu = None\<rparr>)\<rparr>))"

section \<open>Balanced locking\<close>

text \<open>
  \<open>quiet s\<close>: this CPU holds no lock, no lock is held elsewhere, and the saved interrupt
  state is the real one.  \<open>hold ls s\<close> is the state \<open>s\<close> in which this CPU has acquired the
  locks \<open>ls\<close> (last one first).
\<close>

definition quiet :: "'a mach_scheme \<Rightarrow> bool" where
  "quiet s \<longleftrightarrow> (\<forall>l. locks s l = free_lock) \<and> ncli (cpu s) = 0 \<and> intena (cpu s) = eflags_if (cpu s)"

definition hold :: "lockid list \<Rightarrow> 'a mach_scheme \<Rightarrow> 'a mach_scheme" where
  "hold ls s = s\<lparr>
     cpu := (cpu s)\<lparr>ncli := int (length ls), eflags_if := ls = [] \<and> eflags_if (cpu s)\<rparr>,
     locks := (\<lambda>l. if l \<in> set ls then \<lparr>locked = 1, lk_cpu = Some (cpu_id (cpu s))\<rparr>
                   else locks s l)\<rparr>"

named_theorems lock_simps \<open>locks held by the running CPU\<close>

lemma hold_Nil [lock_simps]: "quiet s \<Longrightarrow> hold [] s = s"
  by (cases s; cases "cpu s") (auto simp: hold_def quiet_def)

lemma acquire_hold [lock_simps]:
  "quiet s \<Longrightarrow> l \<notin> set ls \<Longrightarrow> acquire l (hold ls s) = Done () (hold (l # ls) s)"
  by (auto simp: acquire_def pushcli_def pushcli_cpu_def hold_def quiet_def holding_def free_lock_def andthen_def
      Let_def fun_eq_iff)

lemma acquire_quiet [lock_simps]: "quiet s \<Longrightarrow> acquire l s = Done () (hold [l] s)"
  using acquire_hold[of s l "[]"] by (simp add: hold_Nil)

lemma release_hold [lock_simps]:
  "quiet s \<Longrightarrow> l \<notin> set ls \<Longrightarrow> release l (hold (l # ls) s) = Done () (hold ls s)"
  by (auto simp: release_def popcli_def popcli_cpu_def hold_def quiet_def holding_def free_lock_def Let_def
      fun_eq_iff)

lemma release_last [lock_simps]: "quiet s \<Longrightarrow> release l (hold [l] s) = Done () s"
  using release_hold[of s l "[]"] by (simp add: hold_Nil)

lemma holding_hold [lock_simps]: "quiet s \<Longrightarrow> holding l (hold ls s) \<longleftrightarrow> l \<in> set ls"
  by (auto simp: holding_def hold_def quiet_def free_lock_def)

lemma cpu_hold [simp]: "curproc (cpu (hold ls s)) = curproc (cpu s)"
  "cpu_id (cpu (hold ls s)) = cpu_id (cpu s)"
  "ncli (cpu (hold ls s)) = int (length ls)"
  by (simp_all add: hold_def)

lemma eflags_hold [simp]: "ls \<noteq> [] \<Longrightarrow> \<not> eflags_if (cpu (hold ls s))"
  by (simp add: hold_def)

section \<open>Nesting of pushcli and popcli\<close>

text \<open>
  A sequence of \<open>pushcli\<close> (\<open>True\<close>) and \<open>popcli\<close> (\<open>False\<close>) calls, and the condition that no
  prefix of it pops more often than it pushes.
\<close>

fun cli_run :: "bool list \<Rightarrow> (unit, 'a mach_scheme) kop" where
  "cli_run [] = ret ()"
| "cli_run (True # ops) = andthen pushcli (\<lambda>_. cli_run ops)"
| "cli_run (False # ops) = andthen popcli (\<lambda>_. cli_run ops)"

fun cli_depth :: "int \<Rightarrow> bool list \<Rightarrow> int" where
  "cli_depth d [] = d"
| "cli_depth d (b # ops) = cli_depth (if b then d + 1 else d - 1) ops"

fun cli_matched :: "int \<Rightarrow> bool list \<Rightarrow> bool" where
  "cli_matched d [] = True"
| "cli_matched d (True # ops) = cli_matched (d + 1) ops"
| "cli_matched d (False # ops) = (0 < d \<and> cli_matched (d - 1) ops)"

lemma cli_run_general:
  assumes "cli_matched (ncli (cpu s)) ops" and "0 \<le> ncli (cpu s)"
    and "eflags_if (cpu s) \<longleftrightarrow> ncli (cpu s) = 0 \<and> e"
    and "0 < ncli (cpu s) \<longrightarrow> intena (cpu s) = e"
  shows "is_done (cli_run ops s) (\<lambda>_ s'. ncli (cpu s') = cli_depth (ncli (cpu s)) ops \<and>
           (eflags_if (cpu s') \<longleftrightarrow> ncli (cpu s') = 0 \<and> e))"
  using assms
proof (induction ops arbitrary: s)
  case Nil
  then show ?case by simp
next
  case (Cons b ops)
  show ?case
  proof (cases b)
    case True
    let ?t = "s\<lparr>cpu := pushcli_cpu (cpu s)\<rparr>"
    have "is_done (cli_run ops ?t) (\<lambda>_ s'. ncli (cpu s') = cli_depth (ncli (cpu ?t)) ops \<and>
           (eflags_if (cpu s') \<longleftrightarrow> ncli (cpu s') = 0 \<and> e))"
      by (rule Cons.IH) (use Cons.prems True in \<open>auto simp: pushcli_cpu_def Let_def\<close>)
    with True show ?thesis
      by (simp add: pushcli_def pushcli_cpu_def Let_def)
  next
    case False
    with Cons.prems obtain c where c: "popcli_cpu (cpu s) = Inr c"
      and d: "ncli c = ncli (cpu s) - 1" "eflags_if c \<longleftrightarrow> ncli c = 0 \<and> e"
        "0 < ncli c \<longrightarrow> intena c = e"
      by (auto simp: popcli_cpu_def Let_def)
    have "is_done (cli_run ops (s\<lparr>cpu := c\<rparr>)) (\<lambda>_ s'.
           ncli (cpu s') = cli_depth (ncli (cpu (s\<lparr>cpu := c\<rparr>))) ops \<and>
           (eflags_if (cpu s') \<longleftrightarrow> ncli (cpu s') = 0 \<and> e))"
      by (rule Cons.IH) (use Cons.prems False d in auto)
    with False c d show ?thesis by (simp add: popcli_def)
  qed
qed

section \<open>Several CPUs\<close>

text \<open>
  One lock and any number of CPUs, each somewhere in \<open>acquire\<close> or \<open>release\<close>:
  \<open>Out\<close> (not using the lock), \<open>Pushed\<close> (after \<open>pushcli\<close>), \<open>Spinning\<close> (in the \<open>xchg\<close>
  loop), \<open>Got\<close> (the exchange returned 0, \<open>lk->cpu\<close> not yet written), \<open>Crit\<close> (acquired),
  \<open>Cleared\<close> (in \<open>release\<close>, \<open>lk->cpu\<close> already 0) and \<open>Freed\<close> (after the last \<open>xchg\<close>).
\<close>

datatype lkpc = Out | Pushed | Spinning | Got | Crit | Cleared | Freed

record mp =
  mp_lock :: spinlock
  mp_cpu :: "nat \<Rightarrow> cpu"
  mp_pc :: "nat \<Rightarrow> lkpc"

definition mp_holding :: "nat \<Rightarrow> mp \<Rightarrow> bool" where
  "mp_holding i m \<longleftrightarrow> locked (mp_lock m) \<noteq> 0 \<and> lk_cpu (mp_lock m) = Some i"

inductive lk_step :: "nat \<Rightarrow> mp \<Rightarrow> mp \<Rightarrow> bool" where
  push: "mp_pc m i = Out \<Longrightarrow>
    lk_step i m (m\<lparr>mp_cpu := (mp_cpu m)(i := pushcli_cpu (mp_cpu m i)),
                   mp_pc := (mp_pc m)(i := Pushed)\<rparr>)"
| check: "mp_pc m i = Pushed \<Longrightarrow> \<not> mp_holding i m \<Longrightarrow>
    lk_step i m (m\<lparr>mp_pc := (mp_pc m)(i := Spinning)\<rparr>)"
| spin: "mp_pc m i = Spinning \<Longrightarrow> locked (mp_lock m) \<noteq> 0 \<Longrightarrow>
    lk_step i m (m\<lparr>mp_lock := (mp_lock m)\<lparr>locked := 1\<rparr>\<rparr>)"
| take: "mp_pc m i = Spinning \<Longrightarrow> locked (mp_lock m) = 0 \<Longrightarrow>
    lk_step i m (m\<lparr>mp_lock := (mp_lock m)\<lparr>locked := 1\<rparr>, mp_pc := (mp_pc m)(i := Got)\<rparr>)"
| own: "mp_pc m i = Got \<Longrightarrow>
    lk_step i m (m\<lparr>mp_lock := (mp_lock m)\<lparr>lk_cpu := Some i\<rparr>, mp_pc := (mp_pc m)(i := Crit)\<rparr>)"
| clear: "mp_pc m i = Crit \<Longrightarrow> mp_holding i m \<Longrightarrow>
    lk_step i m (m\<lparr>mp_lock := (mp_lock m)\<lparr>lk_cpu := None\<rparr>, mp_pc := (mp_pc m)(i := Cleared)\<rparr>)"
| unlock: "mp_pc m i = Cleared \<Longrightarrow>
    lk_step i m (m\<lparr>mp_lock := (mp_lock m)\<lparr>locked := 0\<rparr>, mp_pc := (mp_pc m)(i := Freed)\<rparr>)"
| pop: "mp_pc m i = Freed \<Longrightarrow> popcli_cpu (mp_cpu m i) = Inr c \<Longrightarrow>
    lk_step i m (m\<lparr>mp_cpu := (mp_cpu m)(i := c), mp_pc := (mp_pc m)(i := Out)\<rparr>)"

inductive lk_reachable :: "mp \<Rightarrow> bool" where
  start: "mp_lock m = free_lock \<Longrightarrow> \<forall>i. mp_pc m i = Out \<Longrightarrow>
    \<forall>i. ncli (mp_cpu m i) = 0 \<Longrightarrow> lk_reachable m"
| step: "lk_reachable m \<Longrightarrow> lk_step i m m' \<Longrightarrow> lk_reachable m'"

text \<open>\<open>owner\<close>: between the successful \<open>xchg\<close> of \<open>acquire\<close> and the \<open>xchg\<close> of \<open>release\<close>.\<close>

definition owner :: "nat \<Rightarrow> mp \<Rightarrow> bool" where
  "owner i m \<longleftrightarrow> mp_pc m i \<in> {Got, Crit, Cleared}"

definition lk_inv :: "mp \<Rightarrow> bool" where
  "lk_inv m \<longleftrightarrow>
     (if locked (mp_lock m) = 0 then (\<forall>j. \<not> owner j m)
      else (\<exists>i. \<forall>j. owner j m \<longleftrightarrow> j = i)) \<and>
     (\<forall>i. lk_cpu (mp_lock m) = Some i \<longleftrightarrow> mp_pc m i = Crit) \<and>
     (\<forall>i. mp_pc m i \<noteq> Out \<longrightarrow> \<not> eflags_if (mp_cpu m i) \<and> ncli (mp_cpu m i) = 1) \<and>
     (\<forall>i. mp_pc m i = Out \<longrightarrow> ncli (mp_cpu m i) = 0)"

lemma owner_upd [simp]:
  "owner j (m\<lparr>mp_lock := l, mp_pc := (mp_pc m)(i := x)\<rparr>) \<longleftrightarrow>
     (if j = i then x \<in> {Got, Crit, Cleared} else owner j m)"
  "owner j (m\<lparr>mp_lock := l\<rparr>) = owner j m"
  by (simp_all add: owner_def)

lemma pc_owner: "mp_pc m i = Got \<Longrightarrow> owner i m" "mp_pc m i = Crit \<Longrightarrow> owner i m"
  "mp_pc m i = Cleared \<Longrightarrow> owner i m" "mp_pc m i = Out \<Longrightarrow> \<not> owner i m"
  "mp_pc m i = Pushed \<Longrightarrow> \<not> owner i m" "mp_pc m i = Spinning \<Longrightarrow> \<not> owner i m"
  "mp_pc m i = Freed \<Longrightarrow> \<not> owner i m"
  by (simp_all add: owner_def)

lemma owner_unique: "lk_inv m \<Longrightarrow> owner i m \<Longrightarrow>
    locked (mp_lock m) \<noteq> 0 \<and> (\<forall>j. owner j m \<longleftrightarrow> j = i)"
  by (auto simp: lk_inv_def split: if_splits)

text \<open>A step that changes neither the owners nor the lock.\<close>

lemma lk_inv_same_owners:
  assumes "lk_inv m" and "\<And>j. owner j m' = owner j m"
    and "mp_lock m' = mp_lock m" and "\<And>j. mp_pc m' j = Crit \<longleftrightarrow> mp_pc m j = Crit"
    and "\<And>j. mp_pc m' j \<noteq> Out \<Longrightarrow> \<not> eflags_if (mp_cpu m' j) \<and> ncli (mp_cpu m' j) = 1"
    and "\<And>j. mp_pc m' j = Out \<Longrightarrow> ncli (mp_cpu m' j) = 0"
  shows "lk_inv m'"
  using assms unfolding lk_inv_def by simp

lemma lk_step_inv: "lk_step i m m' \<Longrightarrow> lk_inv m \<Longrightarrow> lk_inv m'"
proof (induction rule: lk_step.induct)
  case (push m i)
  show ?case
    by (rule lk_inv_same_owners[OF push.prems])
      (use push in \<open>auto simp: owner_def pushcli_cpu_def Let_def lk_inv_def\<close>)
next
  case (check m i)
  show ?case
    by (rule lk_inv_same_owners[OF check.prems]) (use check in \<open>auto simp: owner_def lk_inv_def split: if_splits\<close>)
next
  case (spin m i)
  then show ?case by (auto simp: lk_inv_def)
next
  case (take m i)
  then have "\<not> owner j m" for j by (simp add: lk_inv_def)
  with take show ?case by (auto simp: lk_inv_def)
next
  case (own m i)
  then have own_i: "locked (mp_lock m) \<noteq> 0" "owner j m \<longleftrightarrow> j = i" for j
    using owner_unique[of m i] by (simp_all add: pc_owner)
  have "mp_pc m j \<noteq> Crit" for j
    using own_i(2)[of j] own.hyps by (auto simp: pc_owner)
  with own own_i show ?case by (auto simp: lk_inv_def)
next
  case (clear m i)
  then have own_i: "locked (mp_lock m) \<noteq> 0" "owner j m \<longleftrightarrow> j = i" for j
    using owner_unique[of m i] by (simp_all add: pc_owner)
  have "mp_pc m j = Crit \<longleftrightarrow> j = i" for j
    using own_i(2)[of j] clear.hyps by (auto simp: pc_owner)
  moreover have "\<not> eflags_if (mp_cpu m i)" "ncli (mp_cpu m i) = 1"
    using clear by (simp_all add: lk_inv_def)
  ultimately show ?case using clear own_i by (auto simp: lk_inv_def)
next
  case (unlock m i)
  then have own_i: "owner j m \<longleftrightarrow> j = i" for j
    using owner_unique[of m i] by (simp add: pc_owner)
  with unlock show ?case by (simp add: lk_inv_def)
next
  case (pop m i c)
  show ?case
    by (rule lk_inv_same_owners[OF pop.prems])
      (use pop in \<open>auto simp: owner_def popcli_cpu_def Let_def lk_inv_def split: if_splits\<close>)
qed

lemma lk_reachable_inv: "lk_reachable m \<Longrightarrow> lk_inv m"
proof (induction rule: lk_reachable.induct)
  case (start m)
  then show ?case by (simp add: lk_inv_def owner_def free_lock_def)
next
  case (step m i m')
  then show ?case by (blast intro: lk_step_inv)
qed

lemma holding_iff_crit:
  assumes "lk_inv m"
  shows "mp_holding i m \<longleftrightarrow> mp_pc m i = Crit"
proof -
  have "lk_cpu (mp_lock m) = Some i \<longleftrightarrow> mp_pc m i = Crit"
    using assms by (simp add: lk_inv_def)
  moreover have "mp_pc m i = Crit \<Longrightarrow> locked (mp_lock m) \<noteq> 0"
    using owner_unique[OF assms] pc_owner(2) by blast
  ultimately show ?thesis by (auto simp: mp_holding_def)
qed

text \<open>No CPU is ever stuck: no \<open>panic\<close> of \<open>acquire\<close>, \<open>release\<close> or \<open>popcli\<close> is reached.\<close>

lemma lk_progress:
  assumes "lk_inv m"
  shows "\<exists>m'. lk_step i m m'"
proof (cases "mp_pc m i")
  case Pushed
  with assms have "\<not> mp_holding i m" by (simp add: holding_iff_crit)
  with Pushed show ?thesis by (intro exI, rule lk_step.check)
next
  case Crit
  with assms have "mp_holding i m" by (simp add: holding_iff_crit)
  with Crit show ?thesis by (intro exI, rule lk_step.clear)
next
  case Freed
  with assms obtain c where "popcli_cpu (mp_cpu m i) = Inr c"
    by (auto simp: lk_inv_def popcli_cpu_def Let_def)
  with Freed show ?thesis by (intro exI, rule lk_step.pop)
next
  case Out
  then show ?thesis by (intro exI, rule lk_step.push)
next
  case Spinning
  show ?thesis
  proof (cases "locked (mp_lock m) = 0")
    case True
    with Spinning show ?thesis by (intro exI, rule lk_step.take)
  next
    case False
    with Spinning show ?thesis by (intro exI, rule lk_step.spin)
  qed
next
  case Got
  then show ?thesis by (intro exI, rule lk_step.own)
next
  case Cleared
  then show ?thesis by (intro exI, rule lk_step.unlock)
qed

section \<open>Properties\<close>

text \<open>
  C3: for any number of CPUs running \<open>acquire\<close> and \<open>release\<close> on one lock, in any
  interleaving: at most one CPU is past the \<open>xchg\<close> of \<open>acquire\<close>; \<open>holding\<close> answers true
  exactly on the CPU that has finished \<open>acquire\<close> and not begun \<open>release\<close>; a CPU that uses the
  lock has interrupts off; and no CPU reaches one of the panics of \<open>acquire\<close>, \<open>release\<close>
  and \<open>popcli\<close>.
\<close>

theorem spinlock_mutual_exclusion:
  assumes "lk_reachable m"
  shows "(\<forall>i j. owner i m \<and> owner j m \<longrightarrow> i = j) \<and>
         (\<forall>i. mp_holding i m \<longleftrightarrow> mp_pc m i = Crit) \<and>
         (\<forall>i. mp_pc m i \<noteq> Out \<longrightarrow> \<not> eflags_if (mp_cpu m i)) \<and>
         (\<forall>i. \<exists>m'. lk_step i m m')"
proof -
  have inv: "lk_inv m" using assms by (rule lk_reachable_inv)
  have "owner i m \<and> owner j m \<longrightarrow> i = j" for i j
    using owner_unique[OF inv, of i] by auto
  moreover have "mp_pc m i \<noteq> Out \<longrightarrow> \<not> eflags_if (mp_cpu m i)" for i
    using inv by (simp add: lk_inv_def)
  ultimately show ?thesis
    using holding_iff_crit[OF inv] lk_progress[OF inv] by blast
qed

definition mp_start :: mp where
  "mp_start = \<lparr>mp_lock = free_lock,
     mp_cpu = (\<lambda>i. \<lparr>cpu_id = i, eflags_if = True, ncli = 0, intena = False, curproc = None\<rparr>),
     mp_pc = (\<lambda>_. Out)\<rparr>"

definition mp_taken :: mp where
  "mp_taken = \<lparr>mp_lock = \<lparr>locked = 1, lk_cpu = None\<rparr>,
     mp_cpu = (mp_cpu mp_start)(0 := pushcli_cpu (mp_cpu mp_start 0)),
     mp_pc = (\<lambda>_. Out)(0 := Got)\<rparr>"

lemma mp_taken_reachable: "lk_reachable mp_taken"
proof -
  let ?m1 = "mp_start\<lparr>mp_cpu := (mp_cpu mp_start)(0 := pushcli_cpu (mp_cpu mp_start 0)),
                      mp_pc := (mp_pc mp_start)(0 := Pushed)\<rparr>"
  let ?m2 = "?m1\<lparr>mp_pc := (mp_pc ?m1)(0 := Spinning)\<rparr>"
  let ?m3 = "?m2\<lparr>mp_lock := (mp_lock ?m2)\<lparr>locked := 1\<rparr>, mp_pc := (mp_pc ?m2)(0 := Got)\<rparr>"
  have "lk_reachable mp_start"
    by (rule lk_reachable.start) (simp_all add: mp_start_def)
  moreover have "lk_step 0 mp_start ?m1" by (rule lk_step.push) (simp add: mp_start_def)
  ultimately have "lk_reachable ?m1" by (rule lk_reachable.step)
  moreover have "lk_step 0 ?m1 ?m2"
    by (rule lk_step.check) (simp_all add: mp_start_def mp_holding_def free_lock_def)
  ultimately have "lk_reachable ?m2" by (rule lk_reachable.step)
  moreover have "lk_step 0 ?m2 ?m3" by (rule lk_step.take) (simp_all add: mp_start_def free_lock_def)
  ultimately have "lk_reachable ?m3" by (rule lk_reachable.step)
  moreover have "?m3 = mp_taken"
    by (simp add: mp_start_def mp_taken_def free_lock_def fun_eq_iff)
  ultimately show ?thesis by simp
qed

theorem spinlock_mutual_exclusion_witness:
  "owner 0 mp_taken \<and> {j. owner j mp_taken} = {0} \<and> \<not> eflags_if (mp_cpu mp_taken 0)"
proof -
  have own: "owner 0 mp_taken" and pc: "mp_pc mp_taken 0 \<noteq> Out"
    by (simp_all add: owner_def mp_taken_def)
  have "j = 0" if "owner j mp_taken" for j
    using spinlock_mutual_exclusion[OF mp_taken_reachable] own that by blast
  moreover have "\<not> eflags_if (mp_cpu mp_taken 0)"
    using spinlock_mutual_exclusion[OF mp_taken_reachable] pc by blast
  ultimately show ?thesis using own by blast
qed

text \<open>
  C11: \<open>pushcli\<close> and \<open>popcli\<close> are matched.  Any sequence of them that starts at depth 0 and
  in which no prefix pops more than it pushes runs without a panic, ends at the right depth,
  and ends with interrupts on exactly if they were on at the start and every \<open>pushcli\<close> has
  been undone.
\<close>

theorem cli_nesting:
  assumes "ncli (cpu s) = 0" and "cli_matched 0 ops"
  shows "\<exists>s'. cli_run ops s = Done () s' \<and> ncli (cpu s') = cli_depth 0 ops \<and>
     (eflags_if (cpu s') \<longleftrightarrow> cli_depth 0 ops = 0 \<and> eflags_if (cpu s))"
  using cli_run_general[of s ops "eflags_if (cpu s)"] assms by (auto simp: is_done_iff)

theorem cli_nesting_witness:
  "\<exists>s'. cli_run [True, True, False, False]
      \<lparr>cpu = \<lparr>cpu_id = 0, eflags_if = True, ncli = 0, intena = False, curproc = None\<rparr>,
       locks = (\<lambda>_. free_lock)\<rparr> = Done () s' \<and> eflags_if (cpu s')"
  using cli_nesting[of "\<lparr>cpu = \<lparr>cpu_id = 0, eflags_if = True, ncli = 0, intena = False,
      curproc = None\<rparr>, locks = (\<lambda>_. free_lock)\<rparr>" "[True, True, False, False]"] by auto

end
