(* ===== verification/Console.thy ===== *)
theory Console
  imports Spinlock
begin

text \<open>
  The output half of \<^verbatim>\<open>console.c\<close>: \<open>printint\<close>, \<open>cprintf\<close>, the CGA text screen, \<open>consputc\<close>
  and \<open>panic\<close>, with \<open>uartputc\<close> of \<^verbatim>\<open>uart.c\<close>.

  The device state is a layer \<open>cons\<close> of the kernel state: the bytes sent to the serial port, the
  CGA text memory (25 rows of 80 cells) and the cursor position the CRT controller keeps in its
  registers 14 and 15.  The busy-wait of \<open>uartputc\<close> on the line status has no effect on the
  state and is not modelled.
\<close>

section \<open>Data\<close>

record cons = mach +
  panicked :: bool
  cons_locking :: bool
  uart :: bool              \<comment> \<open>is there a serial port?\<close>
  uart_out :: bytes         \<comment> \<open>bytes written to the serial port, oldest first\<close>
  crt :: "ushort list"      \<comment> \<open>CGA text memory\<close>
  crt_pos :: int            \<comment> \<open>cursor position: col + 80 * row\<close>

lemma hold_cons [simp]:
  "panicked (hold ls s) = panicked s" "cons_locking (hold ls s) = cons_locking s"
  "uart (hold ls s) = uart s" "uart_out (hold ls s) = uart_out s"
  "crt (hold ls s) = crt s" "crt_pos (hold ls s) = crt_pos s"
  by (simp_all add: hold_def)

lemma hold_cons_upd [simp]:
  "(hold ls s)\<lparr>uart_out := x\<rparr> = hold ls (s\<lparr>uart_out := x\<rparr>)"
  "(hold ls s)\<lparr>crt := y\<rparr> = hold ls (s\<lparr>crt := y\<rparr>)"
  "(hold ls s)\<lparr>crt_pos := z\<rparr> = hold ls (s\<lparr>crt_pos := z\<rparr>)"
  by (rule cons.equality; simp add: hold_def cong: if_cong)+

lemma quiet_cons_upd [simp]:
  "quiet (s\<lparr>uart_out := x\<rparr>) = quiet s" "quiet (s\<lparr>crt := y\<rparr>) = quiet s"
  "quiet (s\<lparr>crt_pos := z\<rparr>) = quiet s"
  by (simp_all add: quiet_def)

section \<open>printint\<close>

text \<open>
  The \<open>do ... while\<close> loop that fills \<^verbatim>\<open>buf\<close>, least significant digit first.  The code calls it
  with base 10 and 16 only; for a base below 2 the C loop has no meaning and the guard stops the
  recursion.
\<close>

function print_digits :: "string \<Rightarrow> nat \<Rightarrow> nat \<Rightarrow> string" where
  "print_digits tbl base x =
     tbl ! (x mod base) #
     (if x div base = 0 \<or> base < 2 then [] else print_digits tbl base (x div base))"
  by pat_completeness auto
termination
proof (relation "measure (\<lambda>(tbl, base, x). x)")
  fix tbl :: string and base x :: nat
  assume "\<not> (x div base = 0 \<or> base < 2)"
  then have "1 < base" and "0 < x" by (cases x; simp)+
  then show "((tbl, base, x div base), tbl, base, x) \<in> measure (\<lambda>(tbl, base, x). x)"
    by (simp add: div_less_dividend)
qed simp

declare print_digits.simps [simp del]

text \<open>
  \<open>print_buf\<close> is the contents of \<^verbatim>\<open>buf\<close> when the printing loop starts.  \<open>-xx\<close> is computed in
  \<open>int\<close> and stored in a \<open>uint\<close>, which is the negation of the 32-bit word.
\<close>

definition print_buf :: "string \<Rightarrow> uint \<Rightarrow> nat \<Rightarrow> bool \<Rightarrow> string" where
  "print_buf tbl xx base sign =
     (let neg = sign \<and> sint xx < 0; x = (if neg then - xx else xx);
          buf = print_digits tbl base (unat x)
      in if neg then buf @ ''-'' else buf)"

definition lower_digits :: string where
  "lower_digits = ''0123456789abcdef''"

text \<open>\<open>printint\<close>: the characters it hands to \<open>consputc\<close>, in order.\<close>

definition printint :: "uint \<Rightarrow> nat \<Rightarrow> bool \<Rightarrow> string" where
  "printint xx base sign = rev (print_buf lower_digits xx base sign)"

section \<open>The screen and the serial port\<close>

definition BACKSPACE :: int where "BACKSPACE = 0x100"

definition uartputc :: "int \<Rightarrow> (unit, 'a cons_scheme) kop" where
  "uartputc c = modify (\<lambda>s.
     if \<not> uart s then s else s\<lparr>uart_out := uart_out s @ [of_int c]\<rparr>)"

text \<open>\<open>crt[i] = v\<close>; a store outside the 25 by 80 screen is a fault.\<close>

definition crt_store :: "int \<Rightarrow> ushort \<Rightarrow> (unit, 'a cons_scheme) kop" where
  "crt_store i v = (\<lambda>s.
     if 0 \<le> i \<and> i < int (length (crt s)) then Done () (s\<lparr>crt := (crt s)[nat i := v]\<rparr>) else Fault)"

text \<open>Scrolling: rows 1 to 23 move up one row, the cells from \<open>pos\<close> to the end of row 23 are
  cleared.\<close>

definition crt_scroll :: "ushort list \<Rightarrow> int \<Rightarrow> ushort list" where
  "crt_scroll cells pos =
     (let up = blit cells 0 (take (23 * 80) (drop 80 cells))
      in blit up (nat pos) (replicate (24 * 80 - nat pos) 0))"

text \<open>\<open>cgaputc\<close> in its two halves: moving the cursor (and storing the character), then scrolling
  and writing the cursor back.\<close>

definition cga_move :: "int \<Rightarrow> int \<Rightarrow> (int, 'a cons_scheme) kop" where
  "cga_move c pos =
     (if c = 10 then ret (pos + (80 - pos mod 80))
      else if c = BACKSPACE then ret (if pos > 0 then pos - 1 else pos)
      else andthen (crt_store pos (or (and (of_int c) 0xff) 0x0700)) (\<lambda>_. ret (pos + 1)))"

definition cga_finish :: "int \<Rightarrow> (unit, 'a cons_scheme) kop" where
  "cga_finish pos =
     (if pos < 0 \<or> pos > 25 * 80 then panic ''pos under/overflow''
      else
        andthen (if pos div 80 \<ge> 24
                 then andthen (modify (\<lambda>s. s\<lparr>crt := crt_scroll (crt s) (pos - 80)\<rparr>)) (\<lambda>_. ret (pos - 80))
                 else ret pos) (\<lambda>pos.
        andthen (modify (\<lambda>s. s\<lparr>crt_pos := pos\<rparr>)) (\<lambda>_.
        crt_store pos (or 0x20 0x0700))))"

definition cgaputc :: "int \<Rightarrow> (unit, 'a cons_scheme) kop" where
  "cgaputc c = andthen (gets crt_pos) (\<lambda>pos. andthen (cga_move c pos) cga_finish)"

definition consputc :: "int \<Rightarrow> (unit, 'a cons_scheme) kop" where
  "consputc c =
     andthen (gets panicked) (\<lambda>p.
     if p then (\<lambda>s. Spin)
     else
       andthen (if c = BACKSPACE
                then andthen (uartputc 8) (\<lambda>_. andthen (uartputc 32) (\<lambda>_. uartputc 8))
                else uartputc c) (\<lambda>_.
       cgaputc c))"

definition consputs :: "string \<Rightarrow> (unit, 'a cons_scheme) kop" where
  "consputs str = for_each str (\<lambda>c. consputc (of_char c))"

section \<open>cprintf\<close>

text \<open>
  The arguments after the format.  \<open>StrArg None\<close> is a null \<open>char*\<close>.  A directive for which there
  is no argument of its type reads memory the caller did not pass.
\<close>

datatype parg = IntArg uint | StrArg "string option"

fun cprintf_chars :: "string \<Rightarrow> parg list \<Rightarrow> string option" where
  "cprintf_chars [] args = Some []"
| "cprintf_chars (c # fmt) args =
     (if c \<noteq> CHR ''%'' then map_option ((#) c) (cprintf_chars fmt args)
      else case fmt of
        [] \<Rightarrow> Some []
      | d # fmt' \<Rightarrow>
          if d = CHR ''d'' then
            (case args of IntArg x # args' \<Rightarrow>
               map_option ((@) (printint x 10 True)) (cprintf_chars fmt' args') | _ \<Rightarrow> None)
          else if d = CHR ''x'' \<or> d = CHR ''p'' then
            (case args of IntArg x # args' \<Rightarrow>
               map_option ((@) (printint x 16 False)) (cprintf_chars fmt' args') | _ \<Rightarrow> None)
          else if d = CHR ''s'' then
            (case args of StrArg p # args' \<Rightarrow>
               map_option ((@) (case p of None \<Rightarrow> ''(null)'' | Some str \<Rightarrow> str)) (cprintf_chars fmt' args')
             | _ \<Rightarrow> None)
          else if d = CHR ''%'' then map_option ((#) CHR ''%'') (cprintf_chars fmt' args)
          else map_option (\<lambda>r. CHR ''%'' # d # r) (cprintf_chars fmt' args))"

definition cprintf :: "string \<Rightarrow> parg list \<Rightarrow> (unit, 'a cons_scheme) kop" where
  "cprintf fmt args =
     andthen (gets cons_locking) (\<lambda>locking.
     andthen (if locking then acquire ConsLk else ret ()) (\<lambda>_.
     andthen (case cprintf_chars fmt args of None \<Rightarrow> fault | Some str \<Rightarrow> consputs str) (\<lambda>_.
     if locking then release ConsLk else ret ())))"

section \<open>printint prints the number\<close>

text \<open>The number a digit string (least significant digit first) stands for.\<close>

fun lsb_val :: "string \<Rightarrow> nat \<Rightarrow> string \<Rightarrow> nat" where
  "lsb_val tbl base [] = 0"
| "lsb_val tbl base (c # cs) = length (takeWhile (\<lambda>d. d \<noteq> c) tbl) + base * lsb_val tbl base cs"

lemma takeWhile_ne_nth:
  "distinct tbl \<Longrightarrow> k < length tbl \<Longrightarrow> takeWhile (\<lambda>d. d \<noteq> tbl ! k) tbl = take k tbl"
  by (rule takeWhile_eq_take_P_nth) (auto simp: nth_eq_iff_index_eq)

lemma lsb_val_print_digits:
  assumes "distinct tbl" and "2 \<le> base" and "base \<le> length tbl"
  shows "lsb_val tbl base (print_digits tbl base x) = x"
  using assms
proof (induction tbl base x rule: print_digits.induct)
  case (1 tbl base x)
  have lt: "x mod base < length tbl"
    using "1.prems" by (meson le_less_trans less_le_trans mod_less_divisor not_le zero_less_numeral)
  have "min (length tbl) (x mod base) = x mod base" using lt by simp
  with 1 lt show ?case
    by (subst print_digits.simps) (auto simp: takeWhile_ne_nth div_eq_0_iff)
qed

lemma length_print_digits:
  assumes "2 \<le> base" and "x < base ^ Suc k"
  shows "length (print_digits tbl base x) \<le> Suc k"
  using assms
proof (induction k arbitrary: x)
  case 0
  then show ?case by (subst print_digits.simps) simp
next
  case (Suc k)
  then have "x div base < base ^ Suc k" by (simp add: less_mult_imp_div_less mult.commute)
  with Suc show ?case by (subst print_digits.simps) auto
qed

lemma uint_minus_neg: "sint (x::uint) < 0 \<Longrightarrow> uint (- x) = - sint x"
proof -
  assume neg: "sint x < 0"
  have "take_bit 32 (uint x) = uint x"
    using uint_lt2p[of x] by (simp add: take_bit_int_eq_self)
  then have "sint x = uint x - 2 ^ 32 * of_bool (bit (uint x) 31)"
    by (simp add: sint_uint signed_take_bit_eq_take_bit_minus)
  then have eq: "sint x = uint x - 2 ^ 32"
    using neg uint_ge_0[of x] by (cases "bit (uint x) 31") simp_all
  then have "0 < uint x" using neg sint_ge[of x] by simp
  have "uint (- x) = - uint x mod 2 ^ 32"
    using uint_word_ariths(4)[of x] by simp
  also have "\<dots> = 2 ^ 32 - uint x"
    using \<open>0 < uint x\<close> uint_lt2p[of x] by (simp add: zmod_zminus1_eq_if)
  finally show ?thesis using eq by simp
qed

section \<open>The cursor stays on the screen\<close>

definition cga_ok :: "'a cons_scheme \<Rightarrow> bool" where
  "cga_ok s \<longleftrightarrow> length (crt s) = 25 * 80 \<and> 0 \<le> crt_pos s \<and> crt_pos s < 24 * 80"

lemma length_crt_scroll:
  "length cells = 25 * 80 \<Longrightarrow> pos \<le> 24 * 80 \<Longrightarrow> length (crt_scroll cells pos) = 25 * 80"
  by (simp add: crt_scroll_def Let_def blit_def)

text \<open>The effect of \<open>cgaputc\<close> on the other parts of the state: none.\<close>

definition same_but_screen :: "'a cons_scheme \<Rightarrow> 'a cons_scheme \<Rightarrow> bool" where
  "same_but_screen s s' \<longleftrightarrow> (\<exists>u c p. s' = s\<lparr>uart_out := u, crt := c, crt_pos := p\<rparr>)"

lemma same_but_screen_refl: "same_but_screen s s"
  unfolding same_but_screen_def by (rule exI[of _ "uart_out s"], rule exI[of _ "crt s"],
      rule exI[of _ "crt_pos s"]) simp

lemma same_but_screen_trans:
  "same_but_screen s s' \<Longrightarrow> same_but_screen s' s'' \<Longrightarrow> same_but_screen s s''"
  unfolding same_but_screen_def by (clarsimp, intro exI, rule refl)

lemma same_but_screen_upd:
  "same_but_screen s (s\<lparr>crt := c, crt_pos := p\<rparr>)" "same_but_screen s (s\<lparr>uart_out := u\<rparr>)"
  unfolding same_but_screen_def
   apply (rule exI[of _ "uart_out s"], rule exI[of _ c], rule exI[of _ p])
   apply (rule cons.equality; simp)
  apply (rule exI[of _ u], rule exI[of _ "crt s"], rule exI[of _ "crt_pos s"])
  apply (rule cons.equality; simp)
  done

lemma cga_move_run:
  assumes "cga_ok s"
  obtains c pos where "cga_move ch (crt_pos s) s = Done pos (s\<lparr>crt := c\<rparr>)"
    and "0 \<le> pos" and "pos \<le> 24 * 80" and "length c = 25 * 80"
proof -
  let ?p = "crt_pos s"
  have b: "length (crt s) = 2000" "0 \<le> ?p" "?p < 1920" using assms by (simp_all add: cga_ok_def)
  have "?p + (80 - ?p mod 80) = 80 * (?p div 80) + 80" by (simp add: minus_mod_eq_mult_div [symmetric])
  moreover have "0 \<le> ?p div 80" "?p div 80 \<le> 23" using b by simp_all
  ultimately have in_screen: "0 \<le> ?p + (80 - ?p mod 80)" "?p + (80 - ?p mod 80) \<le> 1920" by simp_all
  consider (nl) "ch = 10" | (bs) "ch = BACKSPACE" "ch \<noteq> 10" | (c) "ch \<noteq> 10" "ch \<noteq> BACKSPACE" by blast
  then show ?thesis
  proof cases
    case nl
    show ?thesis
      by (rule that[of "?p + (80 - ?p mod 80)" "crt s"]) (use nl in_screen b in \<open>simp_all add: cga_move_def\<close>)
  next
    case bs
    with b show ?thesis
      by (intro that[of "if ?p > 0 then ?p - 1 else ?p" "crt s"]) (simp_all add: cga_move_def BACKSPACE_def)
  next
    case c
    with b show ?thesis
      by (intro that[of "?p + 1" "(crt s)[nat ?p := or (and (of_int ch) 0xff) 0x0700]"])
        (simp_all add: cga_move_def crt_store_def)
  qed
qed

lemma cga_finish_run:
  assumes "length (crt s) = 25 * 80" and "0 \<le> pos" and "pos \<le> 24 * 80"
  shows "\<exists>c p. cga_finish pos s = Done () (s\<lparr>crt := c, crt_pos := p\<rparr>) \<and>
    length c = 25 * 80 \<and> 0 \<le> p \<and> p < 24 * 80"
proof (cases "24 \<le> pos div 80")
  case True
  let ?c = "crt_scroll (crt s) (pos - 80)"
  from True assms have "pos = 1920" by simp
  then have run: "cga_finish pos s = Done () (s\<lparr>crt := ?c[nat (pos - 80) := or 0x20 0x0700], crt_pos := pos - 80\<rparr>)"
    using length_crt_scroll[of "crt s" "pos - 80"] assms
    by (simp add: cga_finish_def crt_store_def)
  show ?thesis
    by (intro exI conjI, rule run) (use length_crt_scroll[of "crt s" "pos - 80"] assms \<open>pos = 1920\<close> in simp_all)
next
  case False
  then have "pos < 1920" by simp
  then have run: "cga_finish pos s = Done () (s\<lparr>crt := (crt s)[nat pos := or 0x20 0x0700], crt_pos := pos\<rparr>)"
    using assms False by (simp add: cga_finish_def crt_store_def)
  show ?thesis by (intro exI conjI, rule run) (use assms \<open>pos < 1920\<close> in simp_all)
qed

lemma cgaputc_run:
  assumes "cga_ok s"
  shows "is_done (cgaputc ch s) (\<lambda>_ s'. cga_ok s' \<and> same_but_screen s s' \<and> uart_out s' = uart_out s)"
proof -
  obtain c pos where mv: "cga_move ch (crt_pos s) s = Done pos (s\<lparr>crt := c\<rparr>)"
    and b: "0 \<le> pos" "pos \<le> 24 * 80" "length c = 25 * 80"
    using assms by (rule cga_move_run)
  obtain c' p where fin: "cga_finish pos (s\<lparr>crt := c\<rparr>) = Done () (s\<lparr>crt := c', crt_pos := p\<rparr>)"
    and b': "length c' = 25 * 80" "0 \<le> p" "p < 24 * 80"
    using cga_finish_run[of "s\<lparr>crt := c\<rparr>" pos] b by auto
  from mv fin have "cgaputc ch s = Done () (s\<lparr>crt := c', crt_pos := p\<rparr>)"
    by (simp add: cgaputc_def)
  with b' show ?thesis
    by (simp add: cga_ok_def same_but_screen_upd)
qed

lemma consputc_run:
  assumes "cga_ok s" and "\<not> panicked s"
  shows "is_done (consputc ch s) (\<lambda>_ s'. cga_ok s' \<and> same_but_screen s s')"
proof -
  let ?pre = "if ch = BACKSPACE
     then andthen (uartputc 8) (\<lambda>_. andthen (uartputc 32) (\<lambda>_. uartputc 8)) else uartputc ch"
  have "\<exists>u. ?pre s = Done () (s\<lparr>uart_out := u\<rparr>)"
  proof (cases "uart s")
    case True
    then show ?thesis by (auto simp: uartputc_def)
  next
    case False
    then have "?pre s = Done () (s\<lparr>uart_out := uart_out s\<rparr>)" by (simp add: uartputc_def)
    then show ?thesis ..
  qed
  then obtain u where u: "?pre s = Done () (s\<lparr>uart_out := u\<rparr>)" by blast
  have "is_done (cgaputc ch (s\<lparr>uart_out := u\<rparr>))
      (\<lambda>_ s'. cga_ok s' \<and> same_but_screen (s\<lparr>uart_out := u\<rparr>) s' \<and> uart_out s' = u)"
    using cgaputc_run[of "s\<lparr>uart_out := u\<rparr>" ch] assms by (simp add: cga_ok_def)
  moreover have "consputc ch s = cgaputc ch (s\<lparr>uart_out := u\<rparr>)"
    using u assms unfolding consputc_def by simp
  ultimately show ?thesis
    using same_but_screen_trans[OF same_but_screen_upd(2)] by (auto simp: is_done_iff)
qed

lemma same_but_screen_same:
  "same_but_screen s s' \<Longrightarrow> panicked s' = panicked s \<and> quiet s' = quiet s"
  by (auto simp: same_but_screen_def)

lemma consputs_run:
  assumes "cga_ok s" and "\<not> panicked s"
  shows "is_done (consputs str s) (\<lambda>_ s'. cga_ok s' \<and> same_but_screen s s')"
  using assms
proof (induction str arbitrary: s)
  case Nil
  then show ?case by (simp add: consputs_def same_but_screen_refl)
next
  case (Cons c str)
  show ?case
    unfolding consputs_def for_each.simps
  proof (rule is_done_andthen[OF consputc_run])
    fix a s'
    assume s': "cga_ok s' \<and> same_but_screen s s'"
    then have "is_done (consputs str s') (\<lambda>_ s''. cga_ok s'' \<and> same_but_screen s' s'')"
      using Cons.IH[of s'] Cons.prems same_but_screen_same[of s s'] by blast
    with s' show "is_done (for_each str (\<lambda>c. consputc (of_char c)) s')
        (\<lambda>_ s''. cga_ok s'' \<and> same_but_screen s s'')"
      unfolding consputs_def[symmetric] by (auto simp: is_done_iff intro: same_but_screen_trans)
  qed (use Cons.prems in simp_all)
qed

lemma cprintf_run:
  assumes "cga_ok s" and "\<not> panicked s" and "quiet s" and "cprintf_chars fmt args = Some str"
  shows "is_done (cprintf fmt args s) (\<lambda>_ s'. cga_ok s' \<and> same_but_screen s s')"
proof (cases "cons_locking s")
  case False
  with consputs_run[OF assms(1,2), of str] assms(4) show ?thesis
    by (auto simp: cprintf_def is_done_iff)
next
  case True
  have "is_done (consputs str (hold [ConsLk] s)) (\<lambda>_ s'. cga_ok s' \<and> same_but_screen (hold [ConsLk] s) s')"
    using consputs_run[of "hold [ConsLk] s" str] assms by (simp add: cga_ok_def)
  then obtain u c p where run: "consputs str (hold [ConsLk] s) =
      Done () (hold [ConsLk] (s\<lparr>uart_out := u, crt := c, crt_pos := p\<rparr>))"
    and ok: "cga_ok (s\<lparr>uart_out := u, crt := c, crt_pos := p\<rparr>)"
    by (auto simp: is_done_iff same_but_screen_def cga_ok_def)
  from run True assms show ?thesis
    using ok by (auto simp: cprintf_def lock_simps same_but_screen_def)
qed

section \<open>Properties\<close>

text \<open>
  C12: \<open>printint\<close> prints the number it is given.  For the two bases the kernel uses it writes
  at most 16 characters, so its buffer \<^verbatim>\<open>buf[16]\<close> never overflows; with \<open>sign\<close> set and a negative
  number (also the most negative one, whose negation overflows) the output is a minus sign and the
  digits of the absolute value, otherwise the digits of the unsigned value.
\<close>

theorem printint_correct:
  assumes "base = 10 \<or> base = 16"
  shows "length (printint xx base sign) \<le> 16 \<and>
     (if sign \<and> sint xx < 0
      then \<exists>ds. printint xx base sign = ''-'' @ ds \<and>
             int (lsb_val lower_digits base (rev ds)) = - sint xx
      else int (lsb_val lower_digits base (rev (printint xx base sign))) = uint xx)"
proof -
  have tbl: "distinct lower_digits" "2 \<le> base" "base \<le> length lower_digits"
    using assms by (auto simp: lower_digits_def)
  have len: "length (print_digits lower_digits base (unat x)) \<le> 10" for x :: uint
  proof -
    have "unat x < 2 ^ 32" by (rule order_less_le_trans[OF unsigned_less]) simp
    then have "unat x < base ^ Suc 9" using assms by auto
    then show ?thesis using length_print_digits[of base "unat x" 9] tbl by simp
  qed
  show ?thesis
  proof (cases "sign \<and> sint xx < 0")
    case True
    then show ?thesis
      using len[of "- xx"] lsb_val_print_digits[OF tbl, of "unat (- xx)"]
      by (simp add: printint_def print_buf_def uint_minus_neg Let_def)
  next
    case False
    then have "printint xx base sign = rev (print_digits lower_digits base (unat xx))"
      by (simp only: printint_def print_buf_def Let_def if_False)
    then show ?thesis
      unfolding if_not_P[OF False] using len[of xx] lsb_val_print_digits[OF tbl, of "unat xx"] by simp
  qed
qed

theorem printint_correct_witness:
  "int (lsb_val lower_digits 16 (rev (printint 0xbeef 16 False))) = 0xbeef"
  using printint_correct[of 16 "0xbeef" False] by simp

text \<open>
  C13: console output keeps the cursor on the screen.  From a state in which the cursor is in one of
  the first 24 rows, \<open>cprintf\<close> of any format with matching arguments returns (it neither panics with
  "pos under/overflow" nor stores outside the 25 by 80 text memory), gives the locks back as it found
  them, changes nothing but the screen and the serial port, and leaves the cursor in one of the first
  24 rows again.
\<close>

theorem cprintf_safe:
  assumes "cga_ok s" and "\<not> panicked s" and "quiet s" and "cprintf_chars fmt args = Some str"
  shows "\<exists>s'. cprintf fmt args s = Done () s' \<and> cga_ok s' \<and> quiet s' \<and> same_but_screen s s'"
  using cprintf_run[OF assms] assms(3) by (auto simp: is_done_iff dest: same_but_screen_same)

definition cons_start :: cons where
  "cons_start = \<lparr>cpu = \<lparr>cpu_id = 0, eflags_if = True, ncli = 0, intena = True, curproc = None\<rparr>,
     locks = (\<lambda>_. free_lock), panicked = False, cons_locking = True, uart = True, uart_out = [],
     crt = replicate (25 * 80) 0, crt_pos = 1919\<rparr>"

theorem cprintf_safe_witness:
  "\<exists>s'. cprintf ''[%d] %s'' [IntArg 7, StrArg None] cons_start = Done () s' \<and> cga_ok s'"
proof -
  have "cprintf_chars ''[%d] %s'' [IntArg 7, StrArg None] = Some (''['' @ printint 7 10 True @ ''] (null)'')"
    by simp
  then show ?thesis
    using cprintf_safe[of cons_start "''[%d] %s''" "[IntArg 7, StrArg None]"]
    by (auto simp: cons_start_def cga_ok_def quiet_def)
qed

end
