(* ===== verification/Sched.thy ===== *)
theory Sched
  imports Console
begin

text \<open>
  The process table of \<^verbatim>\<open>proc.c\<close> and the operations on it that every other component uses:
  \<open>wakeup\<close>, \<open>sleep\<close>, \<open>sched\<close>, \<open>yield\<close> and \<open>kill\<close>.

  \<open>proc\<close> is \<^verbatim>\<open>struct proc\<close>; a pointer to a process is its index in the table.  A sleep channel is
  an address in C; \<open>chan\<close> names the kernel object that lives there, so two different objects are
  two different channels.

  A context switch ends the operation that performs it with the outcome \<open>Switch\<close>: \<open>sleep\<close> and
  \<open>yield\<close> end that way, and \<open>sleep_resume\<close> is the rest of \<open>sleep\<close>, which runs when the scheduler
  switches back to the process.
\<close>

section \<open>Data\<close>

datatype procstate = UNUSED | EMBRYO | SLEEPING | RUNNABLE | RUNNING | ZOMBIE

text \<open>Sleep channels: a buffer, an inode, the log, a process, the two ends of a pipe, the tick
  counter, the console input.\<close>

datatype chan = BufChan nat | InodeChan nat | LogChan | ProcChan nat | PipeReadChan nat
  | PipeWriteChan nat | TicksChan | InputChan

record trapframe =
  tf_edi :: uint
  tf_esi :: uint
  tf_ebp :: uint
  tf_oesp :: uint
  tf_ebx :: uint
  tf_edx :: uint
  tf_ecx :: uint
  tf_eax :: uint
  tf_gs :: ushort
  tf_fs :: ushort
  tf_es :: ushort
  tf_ds :: ushort
  tf_trapno :: uint
  tf_err :: uint
  tf_eip :: uint
  tf_cs :: ushort
  tf_eflags :: uint
  tf_esp :: uint
  tf_ss :: ushort

text \<open>Kernel code a new process starts in, or any other code address.\<close>

datatype kcode = Forkret | Trapret | Kaddr uint

record kcontext =
  ctx_edi :: uint
  ctx_esi :: uint
  ctx_ebx :: uint
  ctx_ebp :: uint
  ctx_eip :: kcode

text \<open>
  \<^verbatim>\<open>struct proc\<close>.  A null pointer is \<open>0\<close> for \<open>pgdir\<close> and \<open>kstack\<close> and \<open>None\<close> for the others.
  The trap frame and the saved context live on the process's own kernel stack and are kept as
  values; \<open>kret\<close> is the return address \<open>allocproc\<close> stores between them.
\<close>

record proc =
  sz :: uint
  pgdir :: uint
  kstack :: uint
  pstate :: procstate
  pid :: int
  parent :: "nat option"
  tf :: trapframe
  pcontext :: kcontext
  kret :: kcode
  chan :: "chan option"
  killed :: bool
  ofile :: "nat option list"
  cwd :: "nat option"
  pname :: string

record ptab = cons +
  procs :: "proc list"
  nextpid :: int
  initproc :: "nat option"
  sched_trace_enabled :: bool

lemma hold_ptab [simp]:
  "procs (hold ls s) = procs s" "nextpid (hold ls s) = nextpid s"
  "initproc (hold ls s) = initproc s" "sched_trace_enabled (hold ls s) = sched_trace_enabled s"
  by (simp_all add: hold_def)

lemma hold_ptab_upd [simp]:
  "(hold ls s)\<lparr>procs := x\<rparr> = hold ls (s\<lparr>procs := x\<rparr>)"
  "(hold ls s)\<lparr>nextpid := y\<rparr> = hold ls (s\<lparr>nextpid := y\<rparr>)"
  by (rule ptab.equality; simp add: hold_def cong: if_cong)+

lemma quiet_ptab_upd [simp]:
  "quiet (s\<lparr>procs := x\<rparr>) = quiet s" "quiet (s\<lparr>nextpid := y\<rparr>) = quiet s"
  by (simp_all add: quiet_def)

section \<open>Operations\<close>

text \<open>\<open>wake ch ps\<close>: the table after every process asleep on \<open>ch\<close> is made runnable.\<close>

definition wake_proc :: "chan \<Rightarrow> proc \<Rightarrow> proc" where
  "wake_proc ch p = (if pstate p = SLEEPING \<and> chan p = Some ch then p\<lparr>pstate := RUNNABLE\<rparr> else p)"

definition wakeup1 :: "chan \<Rightarrow> (unit, 'a ptab_scheme) kop" where
  "wakeup1 ch = modify (\<lambda>s. s\<lparr>procs := map (wake_proc ch) (procs s)\<rparr>)"

definition wakeup :: "chan \<Rightarrow> (unit, 'a ptab_scheme) kop" where
  "wakeup ch =
     andthen (acquire PtableLk) (\<lambda>_.
     andthen (wakeup1 ch) (\<lambda>_.
     release PtableLk))"

text \<open>The running process; running this with no process is a null pointer access.\<close>

definition with_proc :: "(nat \<Rightarrow> ('b, 'a ptab_scheme) kop) \<Rightarrow> ('b, 'a ptab_scheme) kop" where
  "with_proc f = (\<lambda>s. case curproc (cpu s) of
       Some p \<Rightarrow> (if p < length (procs s) then f p s else Fault)
     | None \<Rightarrow> Fault)"

definition upd_proc :: "nat \<Rightarrow> (proc \<Rightarrow> proc) \<Rightarrow> (unit, 'a ptab_scheme) kop" where
  "upd_proc p f = modify (\<lambda>s. s\<lparr>procs := (procs s)[p := f (procs s ! p)]\<rparr>)"

definition sched :: "('b, 'a ptab_scheme) kop" where
  "sched = with_proc (\<lambda>p s.
     if \<not> holding PtableLk s then Panic ''sched ptable.lock''
     else if ncli (cpu s) \<noteq> 1 then Panic ''sched locks''
     else if pstate (procs s ! p) = RUNNING then Panic ''sched running''
     else if eflags_if (cpu s) then Panic ''sched interruptible''
     else Switch s)"

text \<open>What \<open>sched\<close> does when the scheduler switches back: restore the \<open>intena\<close> it saved.\<close>

definition sched_resume :: "bool \<Rightarrow> (unit, 'a ptab_scheme) kop" where
  "sched_resume ena = modify (\<lambda>s. s\<lparr>cpu := (cpu s)\<lparr>intena := ena\<rparr>\<rparr>)"

definition sleep :: "chan \<Rightarrow> lockid \<Rightarrow> ('b, 'a ptab_scheme) kop" where
  "sleep ch lk = (\<lambda>s.
     if curproc (cpu s) = None then Panic ''sleep''
     else andthen (if lk \<noteq> PtableLk then andthen (acquire PtableLk) (\<lambda>_. release lk) else ret ()) (\<lambda>_.
       andthen (with_proc (\<lambda>p. upd_proc p (\<lambda>r. r\<lparr>chan := Some ch, pstate := SLEEPING\<rparr>))) (\<lambda>_.
       sched)) s)"

definition sleep_resume :: "bool \<Rightarrow> lockid \<Rightarrow> (unit, 'a ptab_scheme) kop" where
  "sleep_resume ena lk =
     andthen (sched_resume ena) (\<lambda>_.
     andthen (with_proc (\<lambda>p. upd_proc p (\<lambda>r. r\<lparr>chan := None\<rparr>))) (\<lambda>_.
     if lk \<noteq> PtableLk then andthen (release PtableLk) (\<lambda>_. acquire lk) else ret ()))"

definition yield :: "('b, 'a ptab_scheme) kop" where
  "yield =
     andthen (gets sched_trace_enabled) (\<lambda>t.
     andthen (if t then with_proc (\<lambda>p s. cprintf ''[%d]'' [IntArg (of_int (pid (procs s ! p)))] s)
              else ret ()) (\<lambda>_.
     andthen (acquire PtableLk) (\<lambda>_.
     andthen (with_proc (\<lambda>p. upd_proc p (\<lambda>r. r\<lparr>pstate := RUNNABLE\<rparr>))) (\<lambda>_.
     sched))))"

definition yield_resume :: "bool \<Rightarrow> (unit, 'a ptab_scheme) kop" where
  "yield_resume ena = andthen (sched_resume ena) (\<lambda>_. release PtableLk)"

text \<open>\<open>kill\<close>: the first process with that pid is marked, and woken if it sleeps.\<close>

fun kill_scan :: "int \<Rightarrow> proc list \<Rightarrow> proc list option" where
  "kill_scan n [] = None"
| "kill_scan n (p # ps) =
     (if pid p = n
      then Some ((if pstate p = SLEEPING then p\<lparr>killed := True, pstate := RUNNABLE\<rparr>
                  else p\<lparr>killed := True\<rparr>) # ps)
      else map_option ((#) p) (kill_scan n ps))"

definition kill :: "int \<Rightarrow> (int, 'a ptab_scheme) kop" where
  "kill n =
     andthen (acquire PtableLk) (\<lambda>_.
     andthen (gets procs) (\<lambda>ps.
     case kill_scan n ps of
       Some ps' \<Rightarrow> andthen (modify (\<lambda>s. s\<lparr>procs := ps'\<rparr>)) (\<lambda>_. andthen (release PtableLk) (\<lambda>_. ret 0))
     | None \<Rightarrow> andthen (release PtableLk) (\<lambda>_. ret (- 1))))"

section \<open>Behaviour with balanced locks\<close>

lemma wakeup_hold [lock_simps]:
  "quiet s \<Longrightarrow> PtableLk \<notin> set ls \<Longrightarrow>
   wakeup ch (hold ls s) = Done () (hold ls (s\<lparr>procs := map (wake_proc ch) (procs s)\<rparr>))"
  by (simp add: wakeup_def wakeup1_def lock_simps)

lemma wakeup_quiet [lock_simps]:
  "quiet s \<Longrightarrow> wakeup ch s = Done () (s\<lparr>procs := map (wake_proc ch) (procs s)\<rparr>)"
  using wakeup_hold[of s "[]" ch] by (simp add: hold_Nil)

text \<open>Only the state of a process changes in a wakeup.\<close>

lemma wake_proc_sel [simp]:
  "sz (wake_proc ch p) = sz p" "pgdir (wake_proc ch p) = pgdir p"
  "kstack (wake_proc ch p) = kstack p" "pid (wake_proc ch p) = pid p"
  "parent (wake_proc ch p) = parent p" "chan (wake_proc ch p) = chan p"
  "killed (wake_proc ch p) = killed p" "ofile (wake_proc ch p) = ofile p"
  "cwd (wake_proc ch p) = cwd p" "pname (wake_proc ch p) = pname p" "tf (wake_proc ch p) = tf p"
  by (simp_all add: wake_proc_def)

lemma release_hold2 [lock_simps]:
  "quiet s \<Longrightarrow> l \<noteq> l' \<Longrightarrow> release l (hold [l', l] s) = Done () (hold [l'] s)"
  by (auto simp: release_def popcli_def popcli_cpu_def hold_def quiet_def holding_def free_lock_def
      Let_def fun_eq_iff)

text \<open>
  \<open>sleep\<close>, called with \<open>lk\<close> as the only lock held, gives up the CPU with the process asleep on
  the channel and \<^verbatim>\<open>ptable.lock\<close> as the only lock held: \<open>lk\<close> is free again.
\<close>

lemma sleep_hold [lock_simps]:
  assumes "quiet s" and "curproc (cpu s) = Some p" and "p < length (procs s)"
  shows "sleep ch lk (hold [lk] s) =
    Switch (hold [PtableLk] (s\<lparr>procs := (procs s)[p := (procs s ! p)\<lparr>chan := Some ch, pstate := SLEEPING\<rparr>]\<rparr>))"
proof -
  have "(if lk \<noteq> PtableLk then andthen (acquire PtableLk) (\<lambda>_. release lk) else ret ()) (hold [lk] s)
      = Done () (hold [PtableLk] s)"
    using assms(1) by (cases "lk = PtableLk") (simp_all add: lock_simps)
  then show ?thesis
    using assms by (simp add: sleep_def with_proc_def upd_proc_def sched_def lock_simps)
qed

lemma kill_scan_eq:
  "kill_scan n ps = (if \<exists>p\<in>set ps. pid p = n
     then let i = first_idx (\<lambda>p. pid p = n) ps; p = ps ! i
       in Some (ps[i := p\<lparr>killed := True,
            pstate := (if pstate p = SLEEPING then RUNNABLE else pstate p)\<rparr>])
     else None)"
  by (induction n ps rule: kill_scan.induct) (auto simp: Let_def)

lemma kill_quiet:
  assumes "quiet s"
  shows "kill n s = (case kill_scan n (procs s) of
      Some ps \<Rightarrow> Done 0 (s\<lparr>procs := ps\<rparr>) | None \<Rightarrow> Done (- 1) s)"
  using assms by (auto simp: kill_def lock_simps split: option.splits)

section \<open>Properties\<close>

text \<open>A process and a table for the witnesses.\<close>

definition tf0 :: trapframe where
  "tf0 = \<lparr>tf_edi = 0, tf_esi = 0, tf_ebp = 0, tf_oesp = 0, tf_ebx = 0, tf_edx = 0, tf_ecx = 0,
     tf_eax = 0, tf_gs = 0, tf_fs = 0, tf_es = 0, tf_ds = 0, tf_trapno = 0, tf_err = 0, tf_eip = 0,
     tf_cs = 0, tf_eflags = 0, tf_esp = 0, tf_ss = 0\<rparr>"

definition context0 :: kcontext where
  "context0 = \<lparr>ctx_edi = 0, ctx_esi = 0, ctx_ebx = 0, ctx_ebp = 0, ctx_eip = Kaddr 0\<rparr>"

text \<open>The zeroed \<^verbatim>\<open>struct proc\<close> of a slot that was never used.\<close>

definition proc0 :: proc where
  "proc0 = \<lparr>sz = 0, pgdir = 0, kstack = 0, pstate = UNUSED, pid = 0, parent = None, tf = tf0,
     pcontext = context0, kret = Kaddr 0, chan = None, killed = False, ofile = replicate NOFILE None,
     cwd = None, pname = []\<rparr>"

definition ptab_demo :: ptab where
  "ptab_demo = \<lparr>cpu = \<lparr>cpu_id = 0, eflags_if = True, ncli = 0, intena = True, curproc = Some 1\<rparr>,
     locks = (\<lambda>_. free_lock), panicked = False, cons_locking = True, uart = True, uart_out = [],
     crt = replicate (25 * 80) 0, crt_pos = 0,
     procs = [proc0\<lparr>pstate := SLEEPING, pid := 1, chan := Some (ProcChan 0)\<rparr>,
              proc0\<lparr>pstate := RUNNING, pid := 2, parent := Some 0\<rparr>, proc0],
     nextpid = 3, initproc = Some 0, sched_trace_enabled = False\<rparr>"

lemma quiet_ptab_demo: "quiet ptab_demo"
  by (simp add: quiet_def ptab_demo_def)



text \<open>
  C10: \<open>kill(n)\<close> returns 0 exactly if some slot of the process table has pid \<open>n\<close>; then the first such
  slot is marked killed and, if asleep, made runnable, and nothing else changes.  Otherwise it returns
  -1 and changes nothing.
\<close>

theorem kill_correct:
  assumes "quiet s"
  shows "if \<exists>p\<in>set (procs s). pid p = n
     then \<exists>i<length (procs s). pid (procs s ! i) = n \<and> (\<forall>j<i. pid (procs s ! j) \<noteq> n) \<and>
       kill n s = Done 0 (s\<lparr>procs := (procs s)[i := (procs s ! i)\<lparr>killed := True,
         pstate := (if pstate (procs s ! i) = SLEEPING then RUNNABLE else pstate (procs s ! i))\<rparr>]\<rparr>)
     else kill n s = Done (- 1) s"
proof (cases "\<exists>p\<in>set (procs s). pid p = n")
  case True
  define i where "i = first_idx (\<lambda>p. pid p = n) (procs s)"
  have lt: "i < length (procs s)" using True by (simp add: i_def first_idx_less)
  have "pid (procs s ! i) = n"
    using first_idx_holds[OF True] by (simp add: i_def)
  moreover have "pid (procs s ! j) \<noteq> n" if "j < i" for j
    using first_idx_before that unfolding i_def by fast
  ultimately show ?thesis
    using True lt by (auto simp: kill_quiet[OF assms] kill_scan_eq Let_def i_def[symmetric])
next
  case False
  then show ?thesis by (auto simp: kill_quiet[OF assms] kill_scan_eq)
qed

theorem kill_correct_witness:
  "\<exists>i<3. kill 1 ptab_demo = Done 0 (ptab_demo\<lparr>procs := (procs ptab_demo)[i :=
      (procs ptab_demo ! i)\<lparr>killed := True, pstate := RUNNABLE\<rparr>]\<rparr>)"
proof -
  have ex: "\<exists>p\<in>set (procs ptab_demo). pid p = 1" by (simp add: ptab_demo_def)
  obtain i where i: "i < length (procs ptab_demo)" "pid (procs ptab_demo ! i) = 1"
    "kill 1 ptab_demo = Done 0 (ptab_demo\<lparr>procs := (procs ptab_demo)[i := (procs ptab_demo ! i)\<lparr>killed := True,
       pstate := (if pstate (procs ptab_demo ! i) = SLEEPING then RUNNABLE else pstate (procs ptab_demo ! i))\<rparr>]\<rparr>)"
    using kill_correct[OF quiet_ptab_demo, of 1] ex by auto
  have "i = 0" using i(1,2) by (auto simp: ptab_demo_def proc0_def less_Suc_eq)
  with i(3) show ?thesis by (auto simp: ptab_demo_def intro!: exI[of _ 0])
qed

end
