(* ===== verification/Kalloc.thy ===== *)
theory Kalloc
  imports Sched
begin

text \<open>
  \<^verbatim>\<open>kalloc.c\<close>: the physical page allocator, and the memory it works on.

  Memory (\<open>mem\<close>) is a function from kernel virtual addresses to bytes; the free list is threaded
  through the first word of each free page, as in \<^verbatim>\<open>struct run\<close>.  \<open>kend\<close> and \<open>kdata\<close> are the
  addresses of the linker symbols \<^verbatim>\<open>end\<close> and \<^verbatim>\<open>data\<close>.

  The locale \<open>page_allocator\<close> is the contract the rest of the kernel relies on; it is interpreted on
  \<open>kalloc\<close> and \<open>kfree\<close>.
\<close>

unbundle bit_operations_syntax

section \<open>Memory\<close>

definition PGSIZE :: uint where "PGSIZE = 4096"
definition KERNBASE :: uint where "KERNBASE = 0x80000000"
definition EXTMEM :: uint where "EXTMEM = 0x100000"
definition PHYSTOP :: uint where "PHYSTOP = 0xE000000"
definition DEVSPACE :: uint where "DEVSPACE = 0xFE000000"
definition KERNLINK :: uint where "KERNLINK = KERNBASE + EXTMEM"

definition v2p :: "uint \<Rightarrow> uint" where "v2p a = a - KERNBASE"
definition p2v :: "uint \<Rightarrow> uint" where "p2v a = a + KERNBASE"

definition PGROUNDUP :: "uint \<Rightarrow> uint" where
  "PGROUNDUP a = (a + PGSIZE - 1) AND NOT (PGSIZE - 1)"

definition PGROUNDDOWN :: "uint \<Rightarrow> uint" where
  "PGROUNDDOWN a = a AND NOT (PGSIZE - 1)"

type_synonym memory = "uint \<Rightarrow> uchar"

text \<open>The 32-bit word at an address, little-endian.\<close>

definition ld32 :: "memory \<Rightarrow> uint \<Rightarrow> uint" where
  "ld32 m a = ucast (m a) OR push_bit 8 (ucast (m (a + 1)))
     OR push_bit 16 (ucast (m (a + 2))) OR push_bit 24 (ucast (m (a + 3)))"

definition st32 :: "memory \<Rightarrow> uint \<Rightarrow> uint \<Rightarrow> memory" where
  "st32 m a v = m(a := ucast v, a + 1 := ucast (drop_bit 8 v),
     a + 2 := ucast (drop_bit 16 v), a + 3 := ucast (drop_bit 24 v))"

text \<open>\<open>mem_fill m a n c\<close> is \<open>memset(a, c, n)\<close>.\<close>

definition mem_fill :: "memory \<Rightarrow> uint \<Rightarrow> uint \<Rightarrow> uchar \<Rightarrow> memory" where
  "mem_fill m a n c = (\<lambda>x. if x - a < n then c else m x)"

record kmem = ptab +
  mem :: memory
  use_lock :: bool
  freelist :: uint
  kend :: uint
  kdata :: uint

lemma hold_kmem [simp]:
  "mem (hold ls s) = mem s" "use_lock (hold ls s) = use_lock s" "freelist (hold ls s) = freelist s"
  "kend (hold ls s) = kend s" "kdata (hold ls s) = kdata s"
  by (simp_all add: hold_def)

lemma hold_kmem_upd [simp]:
  "(hold ls s)\<lparr>mem := x\<rparr> = hold ls (s\<lparr>mem := x\<rparr>)"
  "(hold ls s)\<lparr>freelist := y\<rparr> = hold ls (s\<lparr>freelist := y\<rparr>)"
  by (rule kmem.equality; simp add: hold_def cong: if_cong)+

lemma quiet_kmem_upd [simp]:
  "quiet (s\<lparr>mem := x\<rparr>) = quiet s" "quiet (s\<lparr>freelist := y\<rparr>) = quiet s"
  by (simp_all add: quiet_def)

section \<open>Operations\<close>

definition kfree :: "uint \<Rightarrow> (unit, 'a kmem_scheme) kop" where
  "kfree v = (\<lambda>s.
     if v mod PGSIZE \<noteq> 0 \<or> v < kend s \<or> PHYSTOP \<le> v2p v then Panic ''kfree''
     else
       andthen (modify (\<lambda>s. s\<lparr>mem := mem_fill (mem s) v PGSIZE 1\<rparr>)) (\<lambda>_.
       andthen (if use_lock s then acquire KmemLk else ret ()) (\<lambda>_.
       andthen (modify (\<lambda>s. s\<lparr>mem := st32 (mem s) v (freelist s)\<rparr>)) (\<lambda>_.
       andthen (modify (\<lambda>s. s\<lparr>freelist := v\<rparr>)) (\<lambda>_.
       if use_lock s then release KmemLk else ret ())))) s)"

definition kalloc :: "(uint, 'a kmem_scheme) kop" where
  "kalloc =
     andthen (\<lambda>s. if use_lock s then acquire KmemLk s else Done () s) (\<lambda>_.
     andthen (gets freelist) (\<lambda>r.
     andthen (if r \<noteq> 0 then modify (\<lambda>s. s\<lparr>freelist := ld32 (mem s) r\<rparr>) else ret ()) (\<lambda>_.
     andthen (\<lambda>s. if use_lock s then release KmemLk s else Done () s) (\<lambda>_.
     ret r))))"

text \<open>
  \<open>freerange\<close>: the loop \<open>for(; p + PGSIZE <= vend; p += PGSIZE)\<close>.  The fuel bounds the number of
  pages; 2 to the 20 is the number of pages of the whole address space.
\<close>

fun freerange_loop :: "nat \<Rightarrow> uint \<Rightarrow> uint \<Rightarrow> (unit, 'a kmem_scheme) kop" where
  "freerange_loop 0 p vend = (\<lambda>s. Spin)"
| "freerange_loop (Suc n) p vend =
     (if p + PGSIZE \<le> vend
      then andthen (kfree p) (\<lambda>_. freerange_loop n (p + PGSIZE) vend)
      else ret ())"

definition freerange :: "uint \<Rightarrow> uint \<Rightarrow> (unit, 'a kmem_scheme) kop" where
  "freerange vstart vend = freerange_loop (2 ^ 20) (PGROUNDUP vstart) vend"

definition kinit1 :: "uint \<Rightarrow> uint \<Rightarrow> (unit, 'a kmem_scheme) kop" where
  "kinit1 vstart vend =
     andthen (initlock KmemLk) (\<lambda>_.
     andthen (modify (\<lambda>s. s\<lparr>use_lock := False\<rparr>)) (\<lambda>_.
     freerange vstart vend))"

definition kinit2 :: "uint \<Rightarrow> uint \<Rightarrow> (unit, 'a kmem_scheme) kop" where
  "kinit2 vstart vend =
     andthen (freerange vstart vend) (\<lambda>_. modify (\<lambda>s. s\<lparr>use_lock := True\<rparr>))"

section \<open>Words in memory and pages\<close>

lemma ld32_st32 [simp]: "ld32 (st32 m a v) a = v"
proof (rule bit_word_eqI)
  fix n :: nat
  assume "n < LENGTH(32)"
  then consider "n < 8" | "8 \<le> n" "n < 16" | "16 \<le> n" "n < 24" | "24 \<le> n" "n < 32"
    by fastforce
  then show "bit (ld32 (st32 m a v) a) n = bit v n"
    by cases (auto simp: ld32_def st32_def bit_simps)
qed

lemma ld32_cong:
  assumes "\<And>k. k < 4 \<Longrightarrow> m' (a + of_nat k) = m (a + of_nat k)"
  shows "ld32 m' a = ld32 m a"
  using assms[of 0] assms[of 1] assms[of 2] assms[of 3] by (simp add: ld32_def)

abbreviation page_aligned :: "uint \<Rightarrow> bool" where
  "page_aligned v \<equiv> v mod PGSIZE = 0"

lemma page_aligned_unat: "page_aligned v \<longleftrightarrow> unat v mod 4096 = 0"
proof -
  have "unat (v mod PGSIZE) = unat v mod 4096" by (simp add: PGSIZE_def unat_mod_distrib)
  then show ?thesis by (metis unat_eq_zero)
qed

lemma page_add_unat:
  assumes "page_aligned v" and "x < PGSIZE"
  shows "unat (v + x) = unat v + unat x"
proof -
  have a: "unat v mod 4096 = 0" using assms by (simp add: page_aligned_unat)
  have x: "unat x < 4096" using assms(2) by (simp add: PGSIZE_def word_less_nat_alt)
  have lt: "unat v < 4294967296" using unsigned_less[of v] by simp
  have "unat v + unat x < 4294967296"
  proof -
    obtain k where k: "unat v = 4096 * k" using a by (auto simp: mod_eq_0_iff_dvd)
    then have "k < 1048576" using lt by simp
    then show ?thesis using k x by simp
  qed
  then show ?thesis by (simp add: unat_word_ariths)
qed

lemma unat32_less [simp]: "unat (w::uint) < 4294967296"
  using unsigned_less[of w] by simp

lemma unat_add_of_nat: "unat (p::uint) + k < 4294967296 \<Longrightarrow> unat (p + of_nat k) = unat p + k"
  by (simp add: unat_word_ariths unat_of_nat)

lemma PG_mask: "PGSIZE - 1 = mask 12"
  by (simp add: PGSIZE_def mask_eq_exp_minus_1)

lemma PGROUNDDOWN_unat: "unat (PGROUNDDOWN a) = 4096 * (unat a div 4096)"
proof -
  have "PGROUNDDOWN a = push_bit 12 (drop_bit 12 a)"
    by (rule bit_word_eqI) (auto simp: PGROUNDDOWN_def PG_mask bit_simps)
  then have "unat (PGROUNDDOWN a) = (unat a div 4096 * 4096) mod 4294967296"
    by (simp add: push_bit_eq_mult unat_word_ariths unat_drop_bit_eq drop_bit_eq_div mod_mult_left_eq)
  also have "\<dots> = unat a div 4096 * 4096"
    using unat32_less[of a] by (intro mod_less) (meson div_times_less_eq_dividend le_less_trans)
  finally show ?thesis by simp
qed

lemma PGROUNDUP_DOWN: "PGROUNDUP a = PGROUNDDOWN (a + PGSIZE - 1)"
  by (simp add: PGROUNDUP_def PGROUNDDOWN_def)

lemma PGROUND_aligned [simp]: "page_aligned (PGROUNDDOWN a)" "page_aligned (PGROUNDUP a)"
  by (simp_all add: page_aligned_unat PGROUNDUP_DOWN PGROUNDDOWN_unat)

text \<open>Two aligned pages that share an address are the same page.\<close>

lemma page_unique:
  assumes "page_aligned v" and "page_aligned w" and "a - v < PGSIZE" and "a - w < PGSIZE"
  shows "v = w"
proof -
  have base: "unat u = 4096 * (unat a div 4096)" if al: "page_aligned u" and lt: "a - u < PGSIZE" for u
  proof -
    have e: "unat a = unat u + unat (a - u)" using page_add_unat[OF al lt] by simp
    have x: "unat (a - u) < 4096" using lt by (simp add: PGSIZE_def word_less_nat_alt)
    have "unat u mod 4096 = 0" using al by (simp add: page_aligned_unat)
    then obtain k where k: "unat u = 4096 * k" by (auto simp: mod_eq_0_iff_dvd elim!: dvdE)
    have "unat a div 4096 = k" unfolding e k using x by simp
    then show ?thesis using k by simp
  qed
  have "unat v = unat w" using base[OF assms(1,3)] base[OF assms(2,4)] by simp
  then show ?thesis by (rule unsigned_word_eqI)
qed

lemma small_in_page: "k < 4096 \<Longrightarrow> (a + of_nat k) - a < PGSIZE"
  by (simp add: PGSIZE_def word_less_nat_alt unat_of_nat)

lemma st32_outside:
  assumes "page_aligned v" and "\<not> x - v < PGSIZE"
  shows "st32 m v w x = m x"
proof -
  have "x \<noteq> v + of_nat k" if "k < 4" for k
    using assms(2) small_in_page[of k v] that by auto
  from this[of 0] this[of 1] this[of 2] this[of 3] show ?thesis by (simp add: st32_def)
qed

text \<open>A word at the start of a page survives changes outside the page.\<close>

lemma ld32_page:
  assumes "\<And>x. x - v < PGSIZE \<Longrightarrow> m' x = m x"
  shows "ld32 m' v = ld32 m v"
  by (rule ld32_cong, rule assms, rule small_in_page) simp

section \<open>The free list\<close>

text \<open>\<open>freechain m p ps\<close>: the list threaded through memory from \<open>p\<close> consists of the pages \<open>ps\<close>.\<close>

fun freechain :: "memory \<Rightarrow> uint \<Rightarrow> uint list \<Rightarrow> bool" where
  "freechain m p [] = (p = 0)"
| "freechain m p (q # qs) = (p = q \<and> freechain m (ld32 m q) qs)"

text \<open>What \<open>kfree\<close> accepts: an aligned page between the end of the kernel and \<open>PHYSTOP\<close>.\<close>

definition page_ok :: "'a kmem_scheme \<Rightarrow> uint \<Rightarrow> bool" where
  "page_ok s v \<longleftrightarrow> page_aligned v \<and> kend s \<le> v \<and> v2p v < PHYSTOP"

definition kmem_inv :: "'a kmem_scheme \<Rightarrow> uint list \<Rightarrow> bool" where
  "kmem_inv s ps \<longleftrightarrow> kend s \<noteq> 0 \<and> freechain (mem s) (freelist s) ps \<and> distinct ps \<and>
     (\<forall>p\<in>set ps. page_ok s p)"

lemma freechain_cong:
  "(\<And>p. p \<in> set ps \<Longrightarrow> ld32 m' p = ld32 m p) \<Longrightarrow> freechain m' p0 ps = freechain m p0 ps"
  by (induction ps arbitrary: p0) auto

lemma page_ok_nonzero: "kend s \<noteq> 0 \<Longrightarrow> page_ok s p \<Longrightarrow> p \<noteq> 0"
  by (auto simp: page_ok_def)

lemma kalloc_hold:
  assumes "quiet s" and "KmemLk \<notin> set ls"
  shows "kalloc (hold ls s) = Done (freelist s) (hold ls
    (if freelist s = 0 then s else s\<lparr>freelist := ld32 (mem s) (freelist s)\<rparr>))"
  using assms by (cases "use_lock s"; cases "freelist s = 0") (simp_all add: kalloc_def lock_simps)

lemma kalloc_quiet:
  "quiet s \<Longrightarrow> kalloc s = Done (freelist s)
    (if freelist s = 0 then s else s\<lparr>freelist := ld32 (mem s) (freelist s)\<rparr>)"
  using kalloc_hold[of s "[]"] by (simp add: hold_Nil)

lemma kfree_hold:
  assumes "quiet s" and "KmemLk \<notin> set ls" and "page_ok s v"
  shows "kfree v (hold ls s) = Done () (hold ls
    (s\<lparr>mem := st32 (mem_fill (mem s) v PGSIZE 1) v (freelist s), freelist := v\<rparr>))"
  using assms by (auto simp: kfree_def lock_simps page_ok_def not_le not_less)

lemma kfree_quiet:
  "quiet s \<Longrightarrow> page_ok s v \<Longrightarrow> kfree v s = Done ()
    (s\<lparr>mem := st32 (mem_fill (mem s) v PGSIZE 1) v (freelist s), freelist := v\<rparr>)"
  using kfree_hold[of s "[]"] by (simp add: hold_Nil)

lemma kfree_panics: "\<not> page_ok s v \<Longrightarrow> kfree v s = Panic ''kfree''"
  by (auto simp: kfree_def page_ok_def)

text \<open>Changes outside the free pages do not disturb the free list.\<close>

lemma kmem_inv_frame:
  assumes "kmem_inv s ps" and "kend s' = kend s" and "freelist s' = freelist s"
    and "\<And>p x. p \<in> set ps \<Longrightarrow> x - p < PGSIZE \<Longrightarrow> mem s' x = mem s x"
  shows "kmem_inv s' ps"
proof -
  have "freechain (mem s') (freelist s) ps = freechain (mem s) (freelist s) ps"
    by (rule freechain_cong, rule ld32_page, rule assms(4))
  then show ?thesis
    using assms(1-3) by (auto simp: kmem_inv_def page_ok_def)
qed

lemma kmem_inv_Nil: "kmem_inv s [] \<longleftrightarrow> kend s \<noteq> 0 \<and> freelist s = 0"
  by (auto simp: kmem_inv_def)

lemma kmem_inv_Cons:
  assumes "kmem_inv s (p # ps)"
  shows "freelist s = p" "p \<noteq> 0" "kmem_inv (s\<lparr>freelist := ld32 (mem s) p\<rparr>) ps"
  using assms page_ok_nonzero[of s p] by (auto simp: kmem_inv_def page_ok_def)

lemma kmem_inv_push:
  assumes inv: "kmem_inv s ps" and ok: "page_ok s v" and new: "v \<notin> set ps"
  shows "kmem_inv (s\<lparr>mem := st32 (mem_fill (mem s) v PGSIZE 1) v (freelist s), freelist := v\<rparr>) (v # ps)"
proof -
  let ?m = "st32 (mem_fill (mem s) v PGSIZE 1) v (freelist s)"
  have al: "page_aligned v" using ok by (simp add: page_ok_def)
  have "?m x = mem s x" if "p \<in> set ps" "x - p < PGSIZE" for p x
  proof -
    have "page_aligned p" using inv that by (auto simp: kmem_inv_def page_ok_def)
    then have "\<not> x - v < PGSIZE" using page_unique[OF al, of p x] that new by auto
    then show ?thesis using st32_outside[OF al] by (simp add: mem_fill_def)
  qed
  then have "kmem_inv (s\<lparr>mem := ?m\<rparr>) ps"
    by (intro kmem_inv_frame[OF inv]) simp_all
  then show ?thesis
    using ok new by (simp add: kmem_inv_def page_ok_def)
qed

section \<open>The contract of the allocator\<close>

text \<open>
  \<open>inv s ps\<close>: the free pages are \<open>ps\<close>;  \<open>content s\<close> the bytes of memory;  \<open>ok s v\<close>: \<open>v\<close> is a page
  the allocator manages;  \<open>poke a c\<close>: a client stores the byte \<open>c\<close> at \<open>a\<close>.
\<close>

locale page_allocator =
  fixes alloc :: "(uint, 's) kop" and free :: "uint \<Rightarrow> (unit, 's) kop"
    and content :: "'s \<Rightarrow> memory" and poke :: "uint \<Rightarrow> uchar \<Rightarrow> 's \<Rightarrow> 's"
    and ok :: "'s \<Rightarrow> uint \<Rightarrow> bool" and inv :: "'s \<Rightarrow> uint list \<Rightarrow> bool"
  assumes alloc_none: "inv s [] \<Longrightarrow> alloc s = Done 0 s"
    and alloc_some: "inv s (p # ps) \<Longrightarrow>
      \<exists>s'. alloc s = Done p s' \<and> inv s' ps \<and> content s' = content s \<and> ok s' = ok s"
    and free_ok: "inv s ps \<Longrightarrow> ok s v \<Longrightarrow> v \<notin> set ps \<Longrightarrow>
      \<exists>s'. free v s = Done () s' \<and> inv s' (v # ps) \<and> ok s' = ok s \<and>
        (\<forall>x. \<not> x - v < PGSIZE \<longrightarrow> content s' x = content s x)"
    and poke_ok: "inv s ps \<Longrightarrow> \<forall>p\<in>set ps. \<not> a - p < PGSIZE \<Longrightarrow>
      inv (poke a c s) ps \<and> ok (poke a c s) = ok s \<and> content (poke a c s) = (content s)(a := c)"
    and inv_pages: "inv s ps \<Longrightarrow> distinct ps \<and> (\<forall>p\<in>set ps. p \<noteq> 0 \<and> ok s p)"
    and ok_disjoint: "ok s v \<Longrightarrow> ok s w \<Longrightarrow> x - v < PGSIZE \<Longrightarrow> x - w < PGSIZE \<Longrightarrow> v = w"

text \<open>
  A client of the allocator: it asks for pages, gives back the \<open>i\<close>-th page it holds, and stores
  bytes in the pages it holds.  \<open>sh\<close> records what it expects to find in them.
\<close>

datatype act = Alloc | Free nat | Poke nat uint uchar

fun client :: "(uint, 's) kop \<Rightarrow> (uint \<Rightarrow> (unit, 's) kop) \<Rightarrow> (uint \<Rightarrow> uchar \<Rightarrow> 's \<Rightarrow> 's) \<Rightarrow>
    ('s \<Rightarrow> memory) \<Rightarrow> act list \<Rightarrow> uint list \<Rightarrow> memory \<Rightarrow> (uint list \<times> memory, 's) kop" where
  "client al fr pk ct [] hs sh = ret (hs, sh)"
| "client al fr pk ct (Alloc # as) hs sh =
     andthen al (\<lambda>p s. if p = 0 then client al fr pk ct as hs sh s
       else client al fr pk ct as (p # hs) (\<lambda>x. if x - p < PGSIZE then ct s x else sh x) s)"
| "client al fr pk ct (Free i # as) hs sh =
     (if i < length hs
      then andthen (fr (hs ! i)) (\<lambda>_. client al fr pk ct as (take i hs @ drop (Suc i) hs) sh)
      else client al fr pk ct as hs sh)"
| "client al fr pk ct (Poke i d c # as) hs sh =
     (if i < length hs \<and> d < PGSIZE
      then andthen (modify (pk (hs ! i + d) c)) (\<lambda>_. client al fr pk ct as hs (sh(hs ! i + d := c)))
      else client al fr pk ct as hs sh)"

lemma set_remove_nth:
  assumes "distinct xs" and "i < length xs"
  shows "set (take i xs @ drop (Suc i) xs) = set xs - {xs ! i}"
    and "distinct (take i xs @ drop (Suc i) xs)"
proof -
  have xs: "xs = take i xs @ xs ! i # drop (Suc i) xs"
    using assms(2) by (rule id_take_nth_drop)
  have "distinct (take i xs @ xs ! i # drop (Suc i) xs)"
    using assms(1) xs by simp
  moreover have "set xs = set (take i xs @ xs ! i # drop (Suc i) xs)" using xs by simp
  ultimately show "set (take i xs @ drop (Suc i) xs) = set xs - {xs ! i}"
    and "distinct (take i xs @ drop (Suc i) xs)" by auto
qed

context page_allocator
begin

definition client_inv :: "'s \<Rightarrow> uint list \<Rightarrow> uint list \<Rightarrow> memory \<Rightarrow> uint set \<Rightarrow> bool" where
  "client_inv s hs ps sh U \<longleftrightarrow> inv s ps \<and> distinct hs \<and> set hs \<inter> set ps = {} \<and>
     set hs \<union> set ps = U \<and> (\<forall>p\<in>set hs. p \<noteq> 0 \<and> ok s p) \<and>
     (\<forall>p\<in>set hs. \<forall>x. x - p < PGSIZE \<longrightarrow> content s x = sh x)"

lemma client_run:
  "client_inv s hs ps sh U \<Longrightarrow>
   is_done (client alloc free poke content as hs sh s)
     (\<lambda>r s'. \<exists>ps'. client_inv s' (fst r) ps' (snd r) U)"
proof (induction as arbitrary: s hs ps sh)
  case Nil
  then show ?case by auto
next
  case (Cons a as)
  have inv: "inv s ps" and dis: "distinct hs" "set hs \<inter> set ps = {}" and U: "set hs \<union> set ps = U"
    and okh: "\<And>p. p \<in> set hs \<Longrightarrow> p \<noteq> 0 \<and> ok s p"
    and ct: "\<And>p x. p \<in> set hs \<Longrightarrow> x - p < PGSIZE \<Longrightarrow> content s x = sh x"
    using Cons.prems by (auto simp: client_inv_def)
  show ?case
  proof (cases a)
    case Alloc
    show ?thesis
    proof (cases ps)
      case Nil
      then have "alloc s = Done 0 s" using inv alloc_none by simp
      then show ?thesis using Alloc Cons.IH[OF Cons.prems] by simp
    next
      case (Cons p qs)
      then obtain s' where s': "alloc s = Done p s'" "inv s' qs" "content s' = content s" "ok s' = ok s"
        using inv alloc_some by blast
      have p: "p \<noteq> 0" "ok s p" "p \<notin> set qs" using inv_pages[OF inv] Cons by auto
      have "client_inv s' (p # hs) qs (\<lambda>x. if x - p < PGSIZE then content s' x else sh x) U"
        using s' p dis U okh ct Cons by (auto simp: client_inv_def)
      with Cons.IH[OF this] s'(1) p(1) Alloc show ?thesis by simp
    qed
  next
    case (Free i)
    show ?thesis
    proof (cases "i < length hs")
      case True
      let ?v = "hs ! i" and ?hs = "take i hs @ drop (Suc i) hs"
      have v: "?v \<in> set hs" using True by simp
      then have "?v \<notin> set ps" using dis by auto
      then obtain s' where s': "free ?v s = Done () s'" "inv s' (?v # ps)" "ok s' = ok s"
        "\<And>x. \<not> x - ?v < PGSIZE \<Longrightarrow> content s' x = content s x"
        using free_ok[OF inv] okh[OF v] by blast
      have "content s' x = sh x" if "p \<in> set hs - {?v}" "x - p < PGSIZE" for p x
        using that ok_disjoint[of s p ?v x] okh v s'(4)[of x] ct[of p x] by auto
      then have "client_inv s' ?hs (?v # ps) sh U"
        using s'(2,3) set_remove_nth[OF dis(1) True] dis(2) v okh U
        unfolding client_inv_def by (auto simp del: set_append)
      with Cons.IH[OF this] s'(1) True Free show ?thesis by simp
    next
      case False
      then show ?thesis using Free Cons.IH[OF Cons.prems] by simp
    qed
  next
    case (Poke i d c)
    show ?thesis
    proof (cases "i < length hs \<and> d < PGSIZE")
      case True
      let ?a = "hs ! i + d"
      have v: "hs ! i \<in> set hs" and d: "?a - hs ! i < PGSIZE" using True by auto
      have "\<not> ?a - p < PGSIZE" if "p \<in> set ps" for p
        using ok_disjoint[OF _ _ d] okh[OF v] inv_pages[OF inv] that v dis(2) by blast
      then have "inv (poke ?a c s) ps" "ok (poke ?a c s) = ok s"
        "content (poke ?a c s) = (content s)(?a := c)"
        using poke_ok[OF inv] by blast+
      then have "client_inv (poke ?a c s) hs ps (sh(?a := c)) U"
        using dis U okh ct by (auto simp: client_inv_def)
      with Cons.IH[OF this] True Poke show ?thesis by (simp del: fun_upd_apply)
    next
      case False
      then show ?thesis using Poke Cons.IH[OF Cons.prems] by auto
    qed
  qed
qed

end

definition kpoke :: "uint \<Rightarrow> uchar \<Rightarrow> 'a kmem_scheme \<Rightarrow> 'a kmem_scheme" where
  "kpoke a c s = s\<lparr>mem := (mem s)(a := c)\<rparr>"

interpretation kp: page_allocator kalloc kfree mem kpoke page_ok "\<lambda>s ps. quiet s \<and> kmem_inv s ps"
proof unfold_locales
  fix s :: "'a kmem_scheme" and p v w x a c ps
  show "kalloc s = Done 0 s" if "quiet s \<and> kmem_inv s []"
    using that by (simp add: kalloc_quiet kmem_inv_Nil)
  show "\<exists>s'. kalloc s = Done p s' \<and> (quiet s' \<and> kmem_inv s' ps) \<and> mem s' = mem s \<and> page_ok s' = page_ok s"
    if "quiet s \<and> kmem_inv s (p # ps)"
    using that kmem_inv_Cons[of s p ps] by (auto simp: kalloc_quiet page_ok_def fun_eq_iff)
  show "\<exists>s'. kfree v s = Done () s' \<and> (quiet s' \<and> kmem_inv s' (v # ps)) \<and> page_ok s' = page_ok s \<and>
        (\<forall>x. \<not> x - v < PGSIZE \<longrightarrow> mem s' x = mem s x)"
    if "quiet s \<and> kmem_inv s ps" "page_ok s v" "v \<notin> set ps"
    using that kmem_inv_push[of s ps v] st32_outside[of v]
    by (auto simp: kfree_quiet page_ok_def fun_eq_iff mem_fill_def)
  show "(quiet (kpoke a c s) \<and> kmem_inv (kpoke a c s) ps) \<and> page_ok (kpoke a c s) = page_ok s \<and>
      mem (kpoke a c s) = (mem s)(a := c)"
    if "quiet s \<and> kmem_inv s ps" "\<forall>p\<in>set ps. \<not> a - p < PGSIZE"
  proof -
    have "kmem_inv (kpoke a c s) ps"
      by (rule kmem_inv_frame[of s]) (use that in \<open>auto simp: kpoke_def\<close>)
    then show ?thesis using that by (simp add: kpoke_def page_ok_def fun_eq_iff)
  qed
  show "distinct ps \<and> (\<forall>p\<in>set ps. p \<noteq> 0 \<and> page_ok s p)" if "quiet s \<and> kmem_inv s ps"
    using that page_ok_nonzero by (auto simp: kmem_inv_def)
  show "v = w" if "page_ok s v" "page_ok s w" "x - v < PGSIZE" "x - w < PGSIZE"
    using that page_unique by (auto simp: page_ok_def)
qed

section \<open>Initialisation\<close>

text \<open>The pages of a range, in the order \<open>freerange\<close> frees them.\<close>

definition range_pages :: "uint \<Rightarrow> uint \<Rightarrow> uint list" where
  "range_pages p vend = map (\<lambda>i. p + of_nat (4096 * i)) [0..<(unat vend - unat p) div 4096]"

lemma range_pages_Nil: "unat vend < unat p + 4096 \<Longrightarrow> range_pages p vend = []"
  by (simp add: range_pages_def)

lemma range_pages_Cons:
  assumes "unat p + 4096 \<le> unat vend"
  shows "range_pages p vend = p # range_pages (p + PGSIZE) vend"
proof -
  have u: "unat (p + PGSIZE) = unat p + 4096"
    using assms unat32_less[of vend] by (simp add: PGSIZE_def unat_word_ariths del: unat32_less)
  have n: "(unat vend - unat p) div 4096 = Suc ((unat vend - (unat p + 4096)) div 4096)"
    using assms by (simp add: div_if[of "unat vend - unat p"])
  show ?thesis
    unfolding range_pages_def u n by (simp add: upt_conv_Cons PGSIZE_def map_Suc_upt[symmetric] algebra_simps del: upt_Suc)
qed

lemma range_pages_ge: "q \<in> set (range_pages p vend) \<Longrightarrow> p \<le> q"
proof -
  assume "q \<in> set (range_pages p vend)"
  then obtain i where q: "q = p + of_nat (4096 * i)" and i: "i < (unat vend - unat p) div 4096"
    by (auto simp: range_pages_def)
  then have "4096 * i < unat vend - unat p" by linarith
  then have "unat p + 4096 * i < 4294967296" using unat32_less[of vend] by linarith
  then have "unat q = unat p + 4096 * i" unfolding q by (rule unat_add_of_nat)
  then show "p \<le> q" by (simp add: word_le_nat_alt)
qed

lemma freerange_loop_correct:
  assumes "quiet s" and "kmem_inv s ps" and "page_aligned p" and "kend s \<le> p" and "KERNBASE \<le> p"
    and "vend \<le> KERNBASE + PHYSTOP" and "unat p + 4096 < 2 ^ 32"
    and "set ps \<inter> set (range_pages p vend) = {}"
    and "(unat vend - unat p) div 4096 < n"
  shows "is_done (freerange_loop n p vend s)
    (\<lambda>_ s'. quiet s' \<and> kmem_inv s' (rev (range_pages p vend) @ ps) \<and> kend s' = kend s)"
  using assms
proof (induction n arbitrary: p s ps)
  case 0
  then show ?case by simp
next
  case (Suc n)
  have u: "unat (p + PGSIZE) = unat p + 4096"
    using Suc.prems(7) by (simp add: PGSIZE_def unat_word_ariths)
  have c: "p + PGSIZE \<le> vend \<longleftrightarrow> unat p + 4096 \<le> unat vend"
    by (simp add: word_le_nat_alt u)
  have vend: "unat vend \<le> 0x8E000000"
    using Suc.prems(6) by (simp add: word_le_nat_alt KERNBASE_def PHYSTOP_def)
  have kb: "0x80000000 \<le> unat p" using Suc.prems(5) by (simp add: word_le_nat_alt KERNBASE_def)
  show ?case
  proof (cases "p + PGSIZE \<le> vend")
    case True
    then have le: "unat p + 4096 \<le> unat vend" by (simp add: c)
    have "unat (v2p p) < 0xE000000"
      using kb le vend by (simp add: v2p_def KERNBASE_def unat_sub_if' word_le_nat_alt)
    then have ok: "page_ok s p"
      using Suc.prems(3,4) by (simp add: page_ok_def word_less_nat_alt PHYSTOP_def)
    let ?s = "s\<lparr>mem := st32 (mem_fill (mem s) p PGSIZE 1) p (freelist s), freelist := p\<rparr>"
    have pn: "p \<notin> set ps" using Suc.prems(8) by (simp add: range_pages_Cons[OF le])
    have al: "page_aligned (p + PGSIZE)" using Suc.prems(3) by (simp add: page_aligned_unat u)
    have "p < p + PGSIZE" by (simp add: word_less_nat_alt u)
    then have pge: "p \<notin> set (range_pages (p + PGSIZE) vend)"
      using range_pages_ge by fastforce
    have "is_done (freerange_loop n (p + PGSIZE) vend ?s)
      (\<lambda>_ s'. quiet s' \<and> kmem_inv s' (rev (range_pages (p + PGSIZE) vend) @ (p # ps)) \<and> kend s' = kend ?s)"
    proof (rule Suc.IH)
      show "quiet ?s" using Suc.prems(1) by simp
      show "kmem_inv ?s (p # ps)" by (rule kmem_inv_push[OF Suc.prems(2) ok pn])
      show "kend ?s \<le> p + PGSIZE" "KERNBASE \<le> p + PGSIZE"
        using Suc.prems(4,5) by (simp_all add: word_le_nat_alt u)
      show "unat (p + PGSIZE) + 4096 < 2 ^ 32" using le vend by (simp add: u)
      show "set (p # ps) \<inter> set (range_pages (p + PGSIZE) vend) = {}"
        using Suc.prems(8) pge by (auto simp: range_pages_Cons[OF le])
      show "(unat vend - unat (p + PGSIZE)) div 4096 < n"
        using Suc.prems(9) le unfolding u by linarith
    qed (use Suc.prems al in simp_all)
    then show ?thesis
      using True Suc.prems(1) ok by (simp add: kfree_quiet range_pages_Cons[OF le])
  next
    case False
    then show ?thesis
      using Suc.prems(1,2) by (simp add: c range_pages_Nil)
  qed
qed

section \<open>Properties\<close>

definition kmem_demo :: kmem where
  "kmem_demo = ptab.extend ptab_demo
     (kmem.fields (st32 (\<lambda>_. 0) 0x80200000 0x80300000) True 0x80200000 0x80120000 0x80108000)"

lemma kmem_demo_sel [simp]:
  "mem kmem_demo = st32 (\<lambda>_. 0) 0x80200000 0x80300000" "freelist kmem_demo = 0x80200000"
  "kend kmem_demo = 0x80120000"
  by (simp_all add: kmem_demo_def ptab.defs kmem.defs)

lemma quiet_kmem_demo: "quiet kmem_demo"
  by (simp add: quiet_def kmem_demo_def ptab.defs kmem.defs ptab_demo_def)

lemma kmem_demo_inv: "kmem_inv kmem_demo [0x80200000, 0x80300000]"
  by (simp add: kmem_inv_def page_ok_def PGSIZE_def v2p_def KERNBASE_def PHYSTOP_def st32_def ld32_def)

text \<open>
  C4: the page allocator.  Start with free pages \<open>ps\<close> and a client that holds none, and let the
  client allocate, free and write its pages in any order.  Every call returns (no panic), the pages
  the client holds at the end are distinct non-null pages, no page is held and free at once, no page
  is lost or made up, and every byte of a held page is the one the client itself last stored (or found
  when it got the page): neither \<open>kalloc\<close> nor \<open>kfree\<close> ever touches a page that is in use.
\<close>

theorem kalloc_isolation:
  assumes "quiet s" and "kmem_inv s ps"
  shows "\<exists>hs sh s' ps'. client kalloc kfree kpoke mem acts [] (\<lambda>_. 0) s = Done (hs, sh) s' \<and>
     quiet s' \<and> kmem_inv s' ps' \<and> distinct hs \<and> 0 \<notin> set hs \<and>
     set hs \<inter> set ps' = {} \<and> set hs \<union> set ps' = set ps \<and>
     (\<forall>p\<in>set hs. \<forall>x. x - p < PGSIZE \<longrightarrow> mem s' x = sh x)"
proof -
  have "kp.client_inv s [] ps (\<lambda>_. 0) (set ps)"
    using assms by (simp add: kp.client_inv_def)
  from kp.client_run[OF this, of acts] obtain r s' ps'
    where "client kalloc kfree kpoke mem acts [] (\<lambda>_. 0) s = Done r s'"
      and "kp.client_inv s' (fst r) ps' (snd r) (set ps)"
    by (auto simp: is_done_iff)
  then show ?thesis
    unfolding kp.client_inv_def by (cases r) auto
qed

theorem kalloc_isolation_witness:
  "\<exists>hs sh s'. client kalloc kfree kpoke mem [Alloc, Alloc, Poke 0 8 7, Free 1] [] (\<lambda>_. 0) kmem_demo
     = Done (hs, sh) s' \<and> distinct hs"
  using kalloc_isolation[OF quiet_kmem_demo kmem_demo_inv, of "[Alloc, Alloc, Poke 0 8 7, Free 1]"]
  by blast

text \<open>
  C8: \<open>freerange\<close> puts exactly the whole pages of the range on the free list, the highest first, in
  front of the pages that were free before; it ends (it never runs out of fuel) and never panics, for
  a range inside the memory the kernel manages whose pages are not already free.
\<close>

theorem freerange_correct:
  assumes "quiet s" and "kmem_inv s ps" and "kend s \<le> PGROUNDUP vstart" and "KERNBASE \<le> PGROUNDUP vstart"
    and "vend \<le> KERNBASE + PHYSTOP" and "unat (PGROUNDUP vstart) + 4096 < 2 ^ 32"
    and "set ps \<inter> set (range_pages (PGROUNDUP vstart) vend) = {}"
  shows "\<exists>s'. freerange vstart vend s = Done () s' \<and> quiet s' \<and>
     kmem_inv s' (rev (range_pages (PGROUNDUP vstart) vend) @ ps)"
proof -
  have "(unat vend - unat (PGROUNDUP vstart)) div 4096 < 2 ^ 20"
  proof -
    have "unat vend - unat (PGROUNDUP vstart) < 2 ^ 20 * 4096"
      using unat32_less[of vend] by (simp del: unat32_less)
    then show ?thesis by (rule less_mult_imp_div_less)
  qed
  then show ?thesis
    using freerange_loop_correct[of s ps "PGROUNDUP vstart" vend "2 ^ 20"] assms
    unfolding freerange_def by (auto simp: is_done_iff)
qed

theorem freerange_correct_witness:
  "\<exists>s'. freerange 0x80400001 0x80403000 kmem_demo = Done () s' \<and>
     kmem_inv s' [0x80402000, 0x80401000, 0x80200000, 0x80300000]"
proof -
  have r: "PGROUNDUP 0x80400001 = 0x80401000" by (simp add: PGROUNDUP_def PGSIZE_def)
  have n: "(unat (0x80403000::uint) - unat (0x80401000::uint)) div 4096 = 2" by simp
  have rp: "range_pages 0x80401000 0x80403000 = [0x80401000, 0x80402000]"
    unfolding range_pages_def n by (simp add: upt_rec)
  have "\<exists>s'. freerange 0x80400001 0x80403000 kmem_demo = Done () s' \<and> quiet s' \<and>
     kmem_inv s' (rev (range_pages (PGROUNDUP 0x80400001) 0x80403000) @ [0x80200000, 0x80300000])"
    by (rule freerange_correct[OF quiet_kmem_demo kmem_demo_inv])
      (simp_all add: r rp KERNBASE_def PHYSTOP_def)
  then show ?thesis by (auto simp: r rp)
qed

end
