(* ===== verification/Bio.thy ===== *)
theory Bio
  imports Kalloc
begin

text \<open>
  \<^verbatim>\<open>bio.c\<close>, \<^verbatim>\<open>buf.h\<close> and \<^verbatim>\<open>memide.c\<close>: the buffer cache over a disk that keeps its blocks in memory.

  A pointer to a buffer is its index in \<open>bufs\<close>; the list head \<^verbatim>\<open>bcache.head\<close> is the buffer of index
  \<open>HEAD\<close>, behind the \<open>NBUF\<close> real ones.  The three bits of \<^verbatim>\<open>flags\<close> are three booleans.  The
  \<^verbatim>\<open>prev\<close>/\<^verbatim>\<open>next\<close> pointers are modelled as they are; \<open>seg\<close> and \<open>lru\<close> relate them to the list of
  buffers in order of last use.  \<open>dtrace\<close> is a ghost field: the sequence of block writes that have
  reached the disk, which the crash analysis of the log uses.

  The locale \<open>block_cache\<close> is the contract of the cache: a block store with handles.  It is
  interpreted on \<open>bread\<close>, \<open>bwrite\<close> and \<open>brelse\<close>.
\<close>

section \<open>Data\<close>

record buf =
  b_busy :: bool    \<comment> \<open>\<^verbatim>\<open>B_BUSY\<close>\<close>
  b_valid :: bool   \<comment> \<open>\<^verbatim>\<open>B_VALID\<close>\<close>
  b_dirty :: bool   \<comment> \<open>\<^verbatim>\<open>B_DIRTY\<close>\<close>
  b_dev :: nat
  b_blockno :: nat
  b_prev :: nat
  b_next :: nat
  b_data :: bytes

record bio = kmem +
  bufs :: "buf list"
  memdisk :: "bytes list"
  dtrace :: "(nat \<times> bytes) list"

definition HEAD :: nat where "HEAD = NBUF"

text \<open>The device number \<^verbatim>\<open>-1\<close> of a buffer that was never used.\<close>

definition NODEV :: nat where "NODEV = 2 ^ 32 - 1"

lemma hold_bio [simp]:
  "bufs (hold ls s) = bufs s" "memdisk (hold ls s) = memdisk s" "dtrace (hold ls s) = dtrace s"
  by (simp_all add: hold_def)

lemma hold_bio_upd [simp]:
  "(hold ls s)\<lparr>bufs := x\<rparr> = hold ls (s\<lparr>bufs := x\<rparr>)"
  "(hold ls s)\<lparr>memdisk := y\<rparr> = hold ls (s\<lparr>memdisk := y\<rparr>)"
  by (rule bio.equality; simp add: hold_def cong: if_cong)+

lemma quiet_bio_upd [simp]:
  "quiet (s\<lparr>bufs := x\<rparr>) = quiet s" "quiet (s\<lparr>memdisk := y\<rparr>) = quiet s"
  "quiet (s\<lparr>dtrace := z\<rparr>) = quiet s"
  by (simp_all add: quiet_def)

section \<open>Operations\<close>

definition with_buf :: "nat \<Rightarrow> (buf \<Rightarrow> ('b, 'a bio_scheme) kop) \<Rightarrow> ('b, 'a bio_scheme) kop" where
  "with_buf i f = (\<lambda>s. if i < length (bufs s) then f (bufs s ! i) s else Fault)"

definition upd_buf :: "nat \<Rightarrow> (buf \<Rightarrow> buf) \<Rightarrow> (unit, 'a bio_scheme) kop" where
  "upd_buf i f = with_buf i (\<lambda>b. modify (\<lambda>s. s\<lparr>bufs := (bufs s)[i := f b]\<rparr>))"

definition binit :: "(unit, 'a bio_scheme) kop" where
  "binit =
     andthen (initlock BcacheLk) (\<lambda>_.
     andthen (upd_buf HEAD (\<lambda>h. h\<lparr>b_prev := HEAD\<rparr>)) (\<lambda>_.
     andthen (upd_buf HEAD (\<lambda>h. h\<lparr>b_next := HEAD\<rparr>)) (\<lambda>_.
     for_each [0..<NBUF] (\<lambda>b.
       andthen (with_buf HEAD (\<lambda>h. upd_buf b (\<lambda>r. r\<lparr>b_next := b_next h\<rparr>))) (\<lambda>_.
       andthen (upd_buf b (\<lambda>r. r\<lparr>b_prev := HEAD\<rparr>)) (\<lambda>_.
       andthen (upd_buf b (\<lambda>r. r\<lparr>b_dev := NODEV\<rparr>)) (\<lambda>_.
       andthen (with_buf HEAD (\<lambda>h. upd_buf (b_next h) (\<lambda>r. r\<lparr>b_prev := b\<rparr>))) (\<lambda>_.
       upd_buf HEAD (\<lambda>h. h\<lparr>b_next := b\<rparr>)))))))))"

text \<open>
  The two loops of \<open>bget\<close>: follow \<open>step\<close> from \<open>b\<close> until the list head (\<open>Some None\<close>) or a buffer with
  property \<open>P\<close> (\<open>Some (Some b)\<close>).  The fuel is the number of buffers: a walk that uses it up is in a
  cycle that misses the head and never ends.
\<close>

fun bscan :: "nat \<Rightarrow> (buf \<Rightarrow> nat) \<Rightarrow> (buf \<Rightarrow> bool) \<Rightarrow> buf list \<Rightarrow> nat \<Rightarrow> nat option option" where
  "bscan 0 step P bs b = None"
| "bscan (Suc n) step P bs b =
     (if b = HEAD then Some None
      else if P (bs ! b) then Some (Some b)
      else bscan n step P bs (step (bs ! b)))"

text \<open>\<open>bget_loop\<close> is \<open>bget\<close> from the label \<^verbatim>\<open>loop\<close>.\<close>

definition bget_loop :: "nat \<Rightarrow> nat \<Rightarrow> (nat, 'a bio_scheme) kop" where
  "bget_loop dev blockno = with_buf HEAD (\<lambda>h s.
     case bscan (length (bufs s)) b_next (\<lambda>b. b_dev b = dev \<and> b_blockno b = blockno) (bufs s) (b_next h) of
       None \<Rightarrow> Spin
     | Some (Some b) \<Rightarrow>
         if \<not> b_busy (bufs s ! b)
         then andthen (upd_buf b (\<lambda>r. r\<lparr>b_busy := True\<rparr>)) (\<lambda>_.
              andthen (release BcacheLk) (\<lambda>_. ret b)) s
         else sleep (BufChan b) BcacheLk s
     | Some None \<Rightarrow>
         (case bscan (length (bufs s)) b_prev (\<lambda>b. \<not> b_busy b \<and> \<not> b_dirty b) (bufs s) (b_prev h) of
            None \<Rightarrow> Spin
          | Some (Some b) \<Rightarrow>
              andthen (upd_buf b (\<lambda>r. r\<lparr>b_dev := dev, b_blockno := blockno, b_busy := True,
                                      b_valid := False, b_dirty := False\<rparr>)) (\<lambda>_.
              andthen (release BcacheLk) (\<lambda>_. ret b)) s
          | Some None \<Rightarrow> Panic ''bget: no buffers''))"

definition bget :: "nat \<Rightarrow> nat \<Rightarrow> (nat, 'a bio_scheme) kop" where
  "bget dev blockno = andthen (acquire BcacheLk) (\<lambda>_. bget_loop dev blockno)"

text \<open>What \<open>bget\<close> does when it is woken from the sleep on a busy buffer.\<close>

definition bget_resume :: "bool \<Rightarrow> nat \<Rightarrow> nat \<Rightarrow> (nat, 'a bio_scheme) kop" where
  "bget_resume ena dev blockno = andthen (sleep_resume ena BcacheLk) (\<lambda>_. bget_loop dev blockno)"

definition ideinit :: "bytes list \<Rightarrow> (unit, 'a bio_scheme) kop" where
  "ideinit img = modify (\<lambda>s. s\<lparr>memdisk := img\<rparr>)"

definition iderw :: "nat \<Rightarrow> (unit, 'a bio_scheme) kop" where
  "iderw i = with_buf i (\<lambda>b s.
     if \<not> b_busy b then Panic ''iderw: buf not busy''
     else if b_valid b \<and> \<not> b_dirty b then Panic ''iderw: nothing to do''
     else if b_dev b \<noteq> 1 then Panic ''iderw: request not for disk 1''
     else if length (memdisk s) \<le> b_blockno b then Panic ''iderw: block out of range''
     else if b_dirty b
     then andthen (modify (\<lambda>s. s\<lparr>memdisk := (memdisk s)[b_blockno b := b_data b],
                                dtrace := dtrace s @ [(b_blockno b, b_data b)]\<rparr>)) (\<lambda>_.
          upd_buf i (\<lambda>r. r\<lparr>b_dirty := False, b_valid := True\<rparr>)) s
     else upd_buf i (\<lambda>r. r\<lparr>b_data := memdisk s ! b_blockno b, b_valid := True\<rparr>) s)"

definition bread :: "nat \<Rightarrow> nat \<Rightarrow> (nat, 'a bio_scheme) kop" where
  "bread dev blockno =
     andthen (bget dev blockno) (\<lambda>b.
     andthen (with_buf b (\<lambda>r. if \<not> b_valid r then iderw b else ret ())) (\<lambda>_.
     ret b))"

definition bwrite :: "nat \<Rightarrow> (unit, 'a bio_scheme) kop" where
  "bwrite b = with_buf b (\<lambda>r.
     if \<not> b_busy r then panic ''bwrite''
     else andthen (upd_buf b (\<lambda>r. r\<lparr>b_dirty := True\<rparr>)) (\<lambda>_. iderw b))"

definition brelse :: "nat \<Rightarrow> (unit, 'a bio_scheme) kop" where
  "brelse b = with_buf b (\<lambda>r.
     if \<not> b_busy r then panic ''brelse''
     else
       andthen (acquire BcacheLk) (\<lambda>_.
       andthen (with_buf b (\<lambda>r. upd_buf (b_next r) (\<lambda>n. n\<lparr>b_prev := b_prev r\<rparr>))) (\<lambda>_.
       andthen (with_buf b (\<lambda>r. upd_buf (b_prev r) (\<lambda>p. p\<lparr>b_next := b_next r\<rparr>))) (\<lambda>_.
       andthen (with_buf HEAD (\<lambda>h. upd_buf b (\<lambda>r. r\<lparr>b_next := b_next h\<rparr>))) (\<lambda>_.
       andthen (upd_buf b (\<lambda>r. r\<lparr>b_prev := HEAD\<rparr>)) (\<lambda>_.
       andthen (with_buf HEAD (\<lambda>h. upd_buf (b_next h) (\<lambda>n. n\<lparr>b_prev := b\<rparr>))) (\<lambda>_.
       andthen (upd_buf HEAD (\<lambda>h. h\<lparr>b_next := b\<rparr>)) (\<lambda>_.
       andthen (upd_buf b (\<lambda>r. r\<lparr>b_busy := False\<rparr>)) (\<lambda>_.
       andthen (wakeup (BufChan b)) (\<lambda>_.
       release BcacheLk))))))))))"

section \<open>The linked list\<close>

text \<open>
  \<open>seg nx pv a xs b\<close>: following \<open>nx\<close> from \<open>a\<close> gives \<open>xs\<close> and then \<open>b\<close>, and \<open>pv\<close> leads back.
\<close>

fun seg :: "(nat \<Rightarrow> nat) \<Rightarrow> (nat \<Rightarrow> nat) \<Rightarrow> nat \<Rightarrow> nat list \<Rightarrow> nat \<Rightarrow> bool" where
  "seg nx pv a [] b \<longleftrightarrow> nx a = b \<and> pv b = a"
| "seg nx pv a (x # xs) b \<longleftrightarrow> nx a = x \<and> pv x = a \<and> seg nx pv x xs b"

lemma seg_append: "seg nx pv a (xs @ y # ys) b \<longleftrightarrow> seg nx pv a xs y \<and> seg nx pv y ys b"
  by (induction xs arbitrary: a) auto

lemma seg_cong:
  "(\<And>x. x \<in> insert a (set xs) \<Longrightarrow> nx' x = nx x) \<Longrightarrow> (\<And>x. x \<in> insert b (set xs) \<Longrightarrow> pv' x = pv x) \<Longrightarrow>
   seg nx' pv' a xs b = seg nx pv a xs b"
  by (induction xs arbitrary: a) auto

lemma seg_next: "seg nx pv a xs b \<Longrightarrow> nx a = hd (xs @ [b])"
  by (cases xs) auto

lemma seg_prev: "seg nx pv a xs b \<Longrightarrow> pv b = last (a # xs)"
  by (induction xs arbitrary: a) auto

text \<open>Taking \<open>b\<close> out, and putting it in front.\<close>

lemma seg_relink:
  assumes "seg nx pv b ys c" and "distinct ys" and "c \<notin> set ys" and "p \<notin> set ys"
  shows "seg (nx(p := nx b)) (pv(nx b := p)) p ys c"
proof (cases ys)
  case Nil
  then show ?thesis using assms(1) by auto
next
  case (Cons n zs)
  have "seg (nx(p := nx b)) (pv(nx b := p)) n zs c = seg nx pv n zs c"
    by (rule seg_cong) (use assms Cons in auto)
  then show ?thesis using assms(1) Cons by auto
qed

lemma seg_unlink:
  assumes "seg nx pv h (xs @ b # ys) h" and "distinct (xs @ b # ys)" and "h \<notin> set (xs @ b # ys)"
  shows "seg (nx(pv b := nx b)) (pv(nx b := pv b)) h (xs @ ys) h"
proof (cases xs rule: rev_cases)
  case Nil
  with assms have "pv b = h" by simp
  moreover have "seg (nx(h := nx b)) (pv(nx b := h)) h ys h"
    by (rule seg_relink) (use assms Nil in auto)
  ultimately show ?thesis using Nil by simp
next
  case (snoc zs p)
  have s: "seg nx pv h zs p" "pv b = p" "seg nx pv b ys h"
    using assms(1) by (auto simp: snoc seg_append)
  have n: "nx b \<in> insert h (set ys)" using seg_next[OF s(3)] by (cases ys) auto
  have "seg (nx(p := nx b)) (pv(nx b := p)) p ys h"
    by (rule seg_relink[OF s(3)]) (use assms(2,3) snoc in auto)
  moreover have "seg (nx(p := nx b)) (pv(nx b := p)) h zs p = seg nx pv h zs p"
    by (rule seg_cong) (use assms(2,3) snoc n in auto)
  ultimately show ?thesis using s snoc by (simp add: seg_append)
qed

lemma seg_push:
  assumes "seg nx pv h xs h" and "b \<notin> set xs" and "b \<noteq> h" and "h \<notin> set xs" and "distinct xs"
  shows "seg (nx(b := nx h, h := b)) (pv(b := h, nx h := b)) h (b # xs) h"
proof -
  have "seg (nx(b := nx h)) (pv(nx h := b)) b xs h"
    by (rule seg_relink[OF assms(1,5)]) (use assms in auto)
  moreover have "seg (nx(b := nx h, h := b)) (pv(b := h, nx h := b)) b xs h
      = seg (nx(b := nx h)) (pv(nx h := b)) b xs h"
    by (rule seg_cong) (use assms in auto)
  moreover have "nx h \<noteq> b" using seg_next[OF assms(1)] assms(2,3) by (cases xs) auto
  ultimately show ?thesis using assms(3) by simp
qed

section \<open>Buffers in order of last use\<close>

definition nxs :: "buf list \<Rightarrow> nat \<Rightarrow> nat" where "nxs bs i = b_next (bs ! i)"
definition pvs :: "buf list \<Rightarrow> nat \<Rightarrow> nat" where "pvs bs i = b_prev (bs ! i)"

text \<open>\<open>lru bs xs\<close>: the linked list runs through exactly the buffers \<open>xs\<close>, all of them, once each, the
  most recently used one first.\<close>

definition lru :: "buf list \<Rightarrow> nat list \<Rightarrow> bool" where
  "lru bs xs \<longleftrightarrow> length bs = Suc NBUF \<and> seg (nxs bs) (pvs bs) HEAD xs HEAD \<and>
     distinct xs \<and> set xs = {..<NBUF}"

lemma nxs_upd [simp]: "i < length bs \<Longrightarrow> nxs (bs[i := r]) = (nxs bs)(i := b_next r)"
  by (auto simp: nxs_def fun_eq_iff nth_list_update)

lemma pvs_upd [simp]: "i < length bs \<Longrightarrow> pvs (bs[i := r]) = (pvs bs)(i := b_prev r)"
  by (auto simp: pvs_def fun_eq_iff nth_list_update)

lemma fun_upd_same: "f i = v \<Longrightarrow> f(i := v) = f"
  by auto

lemma lru_upd:
  assumes "lru bs xs" and "i < length bs" and "b_next r = b_next (bs ! i)" and "b_prev r = b_prev (bs ! i)"
  shows "lru (bs[i := r]) xs"
  using assms by (simp add: lru_def fun_upd_same nxs_def pvs_def)

lemma lru_length: "lru bs xs \<Longrightarrow> length bs = Suc NBUF"
  by (simp add: lru_def)

lemma bscan_next:
  assumes "seg (nxs bs) (pvs bs) a xs HEAD" and "HEAD \<notin> set xs" and "length xs < n"
  shows "bscan n b_next P bs (nxs bs a) = Some (find (\<lambda>i. P (bs ! i)) xs)"
  using assms
proof (induction xs arbitrary: a n)
  case Nil
  then show ?case by (cases n) auto
next
  case (Cons x xs)
  then obtain m where m: "n = Suc m" by (cases n) auto
  have "bscan m b_next P bs (nxs bs x) = Some (find (\<lambda>i. P (bs ! i)) xs)"
    by (rule Cons.IH) (use Cons.prems m in auto)
  then show ?case using Cons.prems m by (auto simp: nxs_def)
qed

lemma bscan_prev:
  assumes "seg (nxs bs) (pvs bs) HEAD xs b" and "HEAD \<notin> set xs" and "length xs < n"
  shows "bscan n b_prev P bs (pvs bs b) = Some (find (\<lambda>i. P (bs ! i)) (rev xs))"
  using assms
proof (induction xs arbitrary: b n rule: rev_induct)
  case Nil
  then show ?case by (cases n) auto
next
  case (snoc x xs)
  then obtain m where m: "n = Suc m" by (cases n) auto
  have s: "seg (nxs bs) (pvs bs) HEAD xs x" "pvs bs b = x"
    using snoc.prems(1) by (auto simp: seg_append)
  have "bscan m b_prev P bs (pvs bs x) = Some (find (\<lambda>i. P (bs ! i)) (rev xs))"
    by (rule snoc.IH[OF s(1)]) (use snoc.prems m in auto)
  then show ?case using snoc.prems m s(2) by (auto simp: pvs_def)
qed

lemma lru_scan:
  assumes "lru bs xs"
  shows "bscan (length bs) b_next P bs (b_next (bs ! HEAD)) = Some (find (\<lambda>i. P (bs ! i)) xs)"
    and "bscan (length bs) b_prev P bs (b_prev (bs ! HEAD)) = Some (find (\<lambda>i. P (bs ! i)) (rev xs))"
proof -
  have "length xs = NBUF" using assms distinct_card[of xs] by (simp add: lru_def)
  then have n: "length xs < length bs" using assms by (simp add: lru_def)
  have h: "HEAD \<notin> set xs" using assms by (simp add: lru_def HEAD_def)
  have s: "seg (nxs bs) (pvs bs) HEAD xs HEAD" using assms by (simp add: lru_def)
  show "bscan (length bs) b_next P bs (b_next (bs ! HEAD)) = Some (find (\<lambda>i. P (bs ! i)) xs)"
    using bscan_next[OF s h n, of P] by (simp add: nxs_def)
  show "bscan (length bs) b_prev P bs (b_prev (bs ! HEAD)) = Some (find (\<lambda>i. P (bs ! i)) (rev xs))"
    using bscan_prev[OF s h n, of P] by (simp add: pvs_def)
qed

text \<open>The pointer updates of \<open>brelse\<close>.\<close>

definition to_front :: "nat \<Rightarrow> buf list \<Rightarrow> buf list" where
  "to_front b bs =
     (let bs = bs[b_next (bs ! b) := (bs ! b_next (bs ! b))\<lparr>b_prev := b_prev (bs ! b)\<rparr>];
          bs = bs[b_prev (bs ! b) := (bs ! b_prev (bs ! b))\<lparr>b_next := b_next (bs ! b)\<rparr>];
          bs = bs[b := (bs ! b)\<lparr>b_next := b_next (bs ! HEAD)\<rparr>];
          bs = bs[b := (bs ! b)\<lparr>b_prev := HEAD\<rparr>];
          bs = bs[b_next (bs ! HEAD) := (bs ! b_next (bs ! HEAD))\<lparr>b_prev := b\<rparr>]
      in bs[HEAD := (bs ! HEAD)\<lparr>b_next := b\<rparr>])"

text \<open>Two buffer lists that differ in the pointers only.\<close>

definition strip :: "buf \<Rightarrow> buf" where "strip b = b\<lparr>b_prev := 0, b_next := 0\<rparr>"

definition same_bufs :: "buf list \<Rightarrow> buf list \<Rightarrow> bool" where
  "same_bufs bs bs' \<longleftrightarrow> map strip bs' = map strip bs"

lemma strip_upd [simp]: "strip (b\<lparr>b_prev := v\<rparr>) = strip b" "strip (b\<lparr>b_next := w\<rparr>) = strip b"
  by (simp_all add: strip_def)

lemma same_bufs_ptr:
  "same_bufs bs bs' \<Longrightarrow> i < length bs' \<Longrightarrow> strip r = strip (bs' ! i) \<Longrightarrow> same_bufs bs (bs'[i := r])"
  by (simp add: same_bufs_def map_update) (metis length_map list_update_id nth_map)

lemma same_bufs_sel:
  assumes "same_bufs bs bs'"
  shows "length bs' = length bs" and "i < length bs \<Longrightarrow> b_busy (bs' ! i) = b_busy (bs ! i)"
    and "i < length bs \<Longrightarrow> b_valid (bs' ! i) = b_valid (bs ! i)"
    and "i < length bs \<Longrightarrow> b_dirty (bs' ! i) = b_dirty (bs ! i)"
    and "i < length bs \<Longrightarrow> b_dev (bs' ! i) = b_dev (bs ! i)"
    and "i < length bs \<Longrightarrow> b_blockno (bs' ! i) = b_blockno (bs ! i)"
    and "i < length bs \<Longrightarrow> b_data (bs' ! i) = b_data (bs ! i)"
proof -
  show l: "length bs' = length bs"
    using assms unfolding same_bufs_def by (metis length_map)
  have e: "strip (bs' ! i) = strip (bs ! i)" if "i < length bs"
    using assms that l unfolding same_bufs_def by (metis nth_map)
  show "i < length bs \<Longrightarrow> b_busy (bs' ! i) = b_busy (bs ! i)"
    "i < length bs \<Longrightarrow> b_valid (bs' ! i) = b_valid (bs ! i)"
    "i < length bs \<Longrightarrow> b_dirty (bs' ! i) = b_dirty (bs ! i)"
    "i < length bs \<Longrightarrow> b_dev (bs' ! i) = b_dev (bs ! i)"
    "i < length bs \<Longrightarrow> b_blockno (bs' ! i) = b_blockno (bs ! i)"
    "i < length bs \<Longrightarrow> b_data (bs' ! i) = b_data (bs ! i)"
    using arg_cong[OF e, of b_busy] arg_cong[OF e, of b_valid] arg_cong[OF e, of b_dirty]
      arg_cong[OF e, of b_dev] arg_cong[OF e, of b_blockno] arg_cong[OF e, of b_data]
    by (simp_all add: strip_def)
qed

lemma to_front_lru:
  assumes "lru bs (xs @ b # ys)"
  shows "lru (to_front b bs) (b # xs @ ys)" and "same_bufs bs (to_front b bs)"
proof -
  have len: "length bs = Suc NBUF" and sg: "seg (nxs bs) (pvs bs) HEAD (xs @ b # ys) HEAD"
    and d: "distinct (xs @ b # ys)" and st: "set (xs @ b # ys) = {..<NBUF}"
    using assms by (auto simp: lru_def)
  have h: "HEAD \<notin> set (xs @ b # ys)" using st by (simp add: HEAD_def)
  have sub: "x < NBUF" if "x \<in> set (xs @ b # ys)" for x using that st by blast
  have bl: "b < NBUF" using sub by simp
  have bh: "b \<noteq> HEAD" and hl: "HEAD < length bs" using bl len by (simp_all add: HEAD_def)
  define n where "n = b_next (bs ! b)"
  define q where "q = b_prev (bs ! b)"
  have sb: "seg (nxs bs) (pvs bs) HEAD xs b" "seg (nxs bs) (pvs bs) b ys HEAD"
    using sg by (auto simp: seg_append)
  have n: "n \<in> insert HEAD (set ys)" using seg_next[OF sb(2)] by (cases ys) (auto simp: n_def nxs_def)
  have q: "q \<in> insert HEAD (set xs)" using seg_prev[OF sb(1)] by (auto simp: q_def pvs_def)
  have nl: "n < length bs" and ql: "q < length bs" using n q sub len by (auto simp: HEAD_def less_Suc_eq)
  have nb: "n \<noteq> b" "q \<noteq> b" using n q d bh by auto
  define bs1 where "bs1 = bs[n := (bs ! n)\<lparr>b_prev := q\<rparr>]"
  define bs2 where "bs2 = bs1[q := (bs1 ! q)\<lparr>b_next := n\<rparr>]"
  have b1: "bs1 ! b = bs ! b" and b2: "bs2 ! b = bs ! b" using nb by (simp_all add: bs1_def bs2_def)
  have l2: "length bs2 = length bs" by (simp add: bs1_def bs2_def)
  have nx1: "nxs bs1 = nxs bs" and pv1: "pvs bs1 = (pvs bs)(n := q)"
    using nl by (simp_all add: bs1_def fun_upd_same nxs_def)
  have nx2: "nxs bs2 = (nxs bs)(q := n)" and pv2: "pvs bs2 = (pvs bs)(n := q)"
  proof -
    have l1: "length bs1 = length bs" by (simp add: bs1_def)
    show "nxs bs2 = (nxs bs)(q := n)" using ql by (simp add: bs2_def l1 nx1)
    have "pvs bs2 = pvs bs1" using ql by (simp add: bs2_def l1 fun_upd_same pvs_def)
    then show "pvs bs2 = (pvs bs)(n := q)" by (simp add: pv1)
  qed
  have sg2: "seg (nxs bs2) (pvs bs2) HEAD (xs @ ys) HEAD"
    using seg_unlink[OF sg d h] by (simp add: nx2 pv2 n_def q_def nxs_def pvs_def)
  define m where "m = b_next (bs2 ! HEAD)"
  have m: "m \<in> insert HEAD (set (xs @ ys))"
    using seg_next[OF sg2] by (cases "xs @ ys") (auto simp: m_def nxs_def)
  have ml: "m < length bs" using m sub len by (auto simp: HEAD_def less_Suc_eq)
  define bs3 where "bs3 = bs2[b := (bs2 ! b)\<lparr>b_next := m\<rparr>]"
  define bs4 where "bs4 = bs3[b := (bs3 ! b)\<lparr>b_prev := HEAD\<rparr>]"
  define bs5 where "bs5 = bs4[m := (bs4 ! m)\<lparr>b_prev := b\<rparr>]"
  define bs6 where "bs6 = bs5[HEAD := (bs5 ! HEAD)\<lparr>b_next := b\<rparr>]"
  have bl': "b < length bs" using bl len by simp
  have l: "length bs3 = length bs" "length bs4 = length bs" "length bs5 = length bs"
    by (simp_all add: bs3_def bs4_def bs5_def l2)
  have nx3: "nxs bs3 = (nxs bs2)(b := m)" "pvs bs3 = pvs bs2"
    using bl' l2 by (simp_all add: bs3_def fun_upd_same pvs_def)
  have nx4: "nxs bs4 = (nxs bs2)(b := m)" "pvs bs4 = (pvs bs2)(b := HEAD)"
    using bl' l nx3 by (simp_all add: bs4_def fun_upd_same nxs_def[of bs3, symmetric])
  have nx5: "nxs bs5 = (nxs bs2)(b := m)" "pvs bs5 = (pvs bs2)(b := HEAD, m := b)"
    using ml l nx4 by (simp_all add: bs5_def fun_upd_same nxs_def[of bs4, symmetric])
  have nx6: "nxs bs6 = (nxs bs2)(b := m, HEAD := b)" "pvs bs6 = (pvs bs2)(b := HEAD, m := b)"
    using hl l nx5 by (simp_all add: bs6_def fun_upd_same pvs_def[of bs5, symmetric])
  have m4: "b_next (bs3 ! HEAD) = m" "b_next (bs4 ! HEAD) = m"
    using bh by (simp_all add: bs3_def bs4_def m_def)
  have tf: "to_front b bs = bs6"
    unfolding to_front_def Let_def n_def[symmetric] q_def[symmetric] bs1_def[symmetric]
    by (simp add: b1 n_def[symmetric] q_def[symmetric] bs2_def[symmetric] m_def[symmetric]
        bs3_def[symmetric] bs4_def[symmetric] m4 bs5_def[symmetric] bs6_def[symmetric])
  have "seg (nxs bs6) (pvs bs6) HEAD (b # xs @ ys) HEAD"
    using seg_push[OF sg2, of b] d h bh by (simp add: nx6 m_def nxs_def)
  then show "lru (to_front b bs) (b # xs @ ys)"
    using d len l st[symmetric] unfolding lru_def tf by (simp add: bs6_def)
  show "same_bufs bs (to_front b bs)"
    unfolding tf bs6_def bs5_def bs4_def bs3_def bs2_def bs1_def
    by (intro same_bufs_ptr) (simp_all add: same_bufs_def nl ql bl' ml hl)
qed

lemma seg_closed_next: "seg nx pv a xs b \<Longrightarrow> i \<in> insert a (set xs) \<Longrightarrow> nx i \<in> insert b (set xs)"
  by (induction xs arbitrary: a) auto

lemma seg_closed_prev: "seg nx pv a xs b \<Longrightarrow> i \<in> insert b (set xs) \<Longrightarrow> pv i \<in> insert a (set xs)"
  by (induction xs arbitrary: a) auto

definition ptr_ok :: "buf list \<Rightarrow> bool" where
  "ptr_ok bs \<longleftrightarrow> (\<forall>i<length bs. b_next (bs ! i) < length bs \<and> b_prev (bs ! i) < length bs)"

lemma ptr_ok_upd:
  "ptr_ok bs \<Longrightarrow> v < length bs \<Longrightarrow> ptr_ok (bs[i := (bs ! i)\<lparr>b_prev := v\<rparr>])"
  "ptr_ok bs \<Longrightarrow> v < length bs \<Longrightarrow> ptr_ok (bs[i := (bs ! i)\<lparr>b_next := v\<rparr>])"
  by (cases "i < length bs"; simp add: ptr_ok_def nth_list_update)+

lemma ptr_okD: "ptr_ok bs \<Longrightarrow> i < length bs \<Longrightarrow> b_next (bs ! i) < length bs"
  "ptr_ok bs \<Longrightarrow> i < length bs \<Longrightarrow> b_prev (bs ! i) < length bs"
  by (simp_all add: ptr_ok_def)

lemma lru_ptr_ok: "lru bs xs \<Longrightarrow> ptr_ok bs"
proof -
  assume l: "lru bs xs"
  then have s: "seg (nxs bs) (pvs bs) HEAD xs HEAD" and len: "length bs = Suc NBUF"
    and st: "set xs = {..<NBUF}" by (auto simp: lru_def)
  have e: "insert HEAD (set xs) = {..<length bs}"
    using st len by (simp add: HEAD_def lessThan_Suc)
  have "nxs bs i < length bs \<and> pvs bs i < length bs" if "i < length bs" for i
    using seg_closed_next[OF s, of i] seg_closed_prev[OF s, of i] that unfolding e by simp
  then show "ptr_ok bs"
    by (simp add: ptr_ok_def nxs_def pvs_def)
qed

section \<open>The operations on the list of buffers\<close>

lemma with_buf_in [simp]: "i < length (bufs s) \<Longrightarrow> with_buf i f s = f (bufs s ! i) s"
  by (simp add: with_buf_def)

lemma upd_buf_in [simp]: "i < length (bufs s) \<Longrightarrow> upd_buf i f s = Done () (s\<lparr>bufs := (bufs s)[i := f (bufs s ! i)]\<rparr>)"
  by (simp add: upd_buf_def)

lemma bget_eq:
  assumes "quiet s" and "lru (bufs s) xs"
  shows "bget dev b s =
    (case find (\<lambda>i. b_dev (bufs s ! i) = dev \<and> b_blockno (bufs s ! i) = b) xs of
       Some i \<Rightarrow> if \<not> b_busy (bufs s ! i)
         then Done i (s\<lparr>bufs := (bufs s)[i := (bufs s ! i)\<lparr>b_busy := True\<rparr>]\<rparr>)
         else sleep (BufChan i) BcacheLk (hold [BcacheLk] s)
     | None \<Rightarrow>
       (case find (\<lambda>i. \<not> b_busy (bufs s ! i) \<and> \<not> b_dirty (bufs s ! i)) (rev xs) of
          Some i \<Rightarrow> Done i (s\<lparr>bufs := (bufs s)[i := (bufs s ! i)\<lparr>b_dev := dev, b_blockno := b,
              b_busy := True, b_valid := False, b_dirty := False\<rparr>]\<rparr>)
        | None \<Rightarrow> Panic ''bget: no buffers''))"
proof -
  have len: "length (bufs s) = Suc NBUF" using assms(2) by (simp add: lru_def)
  then have h: "HEAD < length (bufs s)" by (simp add: HEAD_def)
  have il: "i < length (bufs s)" if "find P xs = Some i \<or> find P (rev xs) = Some i" for P i
  proof -
    have "i \<in> set xs" using that find_SomeD by fastforce
    then show ?thesis using assms(2) len by (simp add: lru_def)
  qed
  note defs = bget_def bget_loop_def lock_simps lru_scan[OF assms(2)]
  show ?thesis
  proof (cases "find (\<lambda>i. b_dev (bufs s ! i) = dev \<and> b_blockno (bufs s ! i) = b) xs")
    case None
    note n = this
    show ?thesis
    proof (cases "find (\<lambda>i. \<not> b_busy (bufs s ! i) \<and> \<not> b_dirty (bufs s ! i)) (rev xs)")
      case None
      then show ?thesis using assms(1) h n by (simp add: defs)
    next
      case (Some i)
      then have "i < length (bufs s)" using il by blast
      then show ?thesis using assms(1) h n Some by (simp add: defs)
    qed
  next
    case (Some i)
    then have "i < length (bufs s)" using il by blast
    then show ?thesis using assms(1) h Some by (simp add: defs)
  qed
qed

lemma brelse_eq:
  assumes "quiet s" and "lru (bufs s) xs" and "b < NBUF" and "b_busy (bufs s ! b)"
  shows "brelse b s = Done () (s\<lparr>
    bufs := (to_front b (bufs s))[b := (to_front b (bufs s) ! b)\<lparr>b_busy := False\<rparr>],
    procs := map (wake_proc (BufChan b)) (procs s)\<rparr>)"
proof -
  define bs where "bs = bufs s"
  have len: "length bs = Suc NBUF" using assms(2) by (simp add: lru_def bs_def)
  have h: "HEAD < length bs" and b: "b < length bs" using assms(3) len by (auto simp: HEAD_def)
  have p0: "ptr_ok bs" using lru_ptr_ok[OF assms(2)] by (simp add: bs_def)
  define bs1 where "bs1 = bs[b_next (bs ! b) := (bs ! b_next (bs ! b))\<lparr>b_prev := b_prev (bs ! b)\<rparr>]"
  define bs2 where "bs2 = bs1[b_prev (bs1 ! b) := (bs1 ! b_prev (bs1 ! b))\<lparr>b_next := b_next (bs1 ! b)\<rparr>]"
  define bs3 where "bs3 = bs2[b := (bs2 ! b)\<lparr>b_next := b_next (bs2 ! HEAD)\<rparr>]"
  define bs4 where "bs4 = bs3[b := (bs3 ! b)\<lparr>b_prev := HEAD\<rparr>]"
  define bs5 where "bs5 = bs4[b_next (bs4 ! HEAD) := (bs4 ! b_next (bs4 ! HEAD))\<lparr>b_prev := b\<rparr>]"
  define bs6 where "bs6 = bs5[HEAD := (bs5 ! HEAD)\<lparr>b_next := b\<rparr>]"
  have l: "length bs1 = length bs" "length bs2 = length bs" "length bs3 = length bs"
    "length bs4 = length bs" "length bs5 = length bs" "length bs6 = length bs"
    by (simp_all add: bs1_def bs2_def bs3_def bs4_def bs5_def bs6_def)
  have p1: "ptr_ok bs1" unfolding bs1_def by (rule ptr_ok_upd[OF p0]) (simp add: ptr_okD[OF p0] b)
  have p2: "ptr_ok bs2" unfolding bs2_def by (rule ptr_ok_upd[OF p1]) (use ptr_okD[OF p1, of b] b l in simp)
  have p3: "ptr_ok bs3" unfolding bs3_def by (rule ptr_ok_upd[OF p2]) (use ptr_okD[OF p2, of HEAD] h l in simp)
  have p4: "ptr_ok bs4" unfolding bs4_def by (rule ptr_ok_upd[OF p3]) (simp add: h l)
  note bounds = b h l ptr_okD[OF p0 b] ptr_okD[OF p1, of b] ptr_okD[OF p2, of HEAD] ptr_okD[OF p4, of HEAD]
  have tf: "to_front b bs = bs6"
    unfolding to_front_def Let_def bs6_def bs5_def bs4_def bs3_def bs2_def bs1_def by (rule refl)
  let ?h = "\<lambda>x. hold [BcacheLk] (s\<lparr>bufs := x\<rparr>)"
  have h0: "hold [BcacheLk] s = ?h bs" by (simp add: bs_def)
  have t1: "with_buf b (\<lambda>r. upd_buf (b_next r) (\<lambda>n. n\<lparr>b_prev := b_prev r\<rparr>)) (?h bs) = Done () (?h bs1)"
    using bounds by (simp add: bs1_def)
  have t2: "with_buf b (\<lambda>r. upd_buf (b_prev r) (\<lambda>p. p\<lparr>b_next := b_next r\<rparr>)) (?h bs1) = Done () (?h bs2)"
    using bounds by (simp add: bs2_def)
  have t3: "with_buf HEAD (\<lambda>h. upd_buf b (\<lambda>r. r\<lparr>b_next := b_next h\<rparr>)) (?h bs2) = Done () (?h bs3)"
    using bounds by (simp add: bs3_def)
  have t4: "upd_buf b (\<lambda>r. r\<lparr>b_prev := HEAD\<rparr>) (?h bs3) = Done () (?h bs4)"
    using bounds by (simp add: bs4_def)
  have t5: "with_buf HEAD (\<lambda>h. upd_buf (b_next h) (\<lambda>n. n\<lparr>b_prev := b\<rparr>)) (?h bs4) = Done () (?h bs5)"
    using bounds by (simp add: bs5_def)
  have t6: "upd_buf HEAD (\<lambda>h. h\<lparr>b_next := b\<rparr>) (?h bs5) = Done () (?h bs6)"
    using bounds by (simp add: bs6_def)
  have t7: "upd_buf b (\<lambda>r. r\<lparr>b_busy := False\<rparr>) (?h bs6) = Done () (?h (bs6[b := (bs6 ! b)\<lparr>b_busy := False\<rparr>]))"
    using bounds by simp
  have t0: "acquire BcacheLk s = Done () (?h bs)"
    using assms(1) by (simp add: lock_simps bs_def)
  have t8: "wakeup (BufChan b) (?h x) =
      Done () (hold [BcacheLk] (s\<lparr>bufs := x, procs := map (wake_proc (BufChan b)) (procs s)\<rparr>))" for x
    using assms(1) by (simp add: lock_simps)
  have t9: "release BcacheLk (hold [BcacheLk] (s\<lparr>bufs := x, procs := y\<rparr>)) = Done () (s\<lparr>bufs := x, procs := y\<rparr>)" for x y
    using assms(1) by (simp add: lock_simps)
  have c: "b < length (bufs s)" "b_busy (bufs s ! b)" using b assms(4) by (simp_all add: bs_def)
  show ?thesis
    unfolding brelse_def bs_def[symmetric] tf
    by (subst with_buf_in[OF c(1)])
      (simp only: c not_True_eq_False if_False andthen_Done t0 t1 t2 t3 t4 t5 t6 t7 t8 t9)
qed

end
