(* ===== verification/Bcache.thy ===== *)
theory Bcache
  imports Bio
begin

text \<open>
  The buffer cache of \<^verbatim>\<open>bio.c\<close> as a block store.

  \<open>cache_ok\<close> is the invariant of the buffers; \<open>bstore_of\<close> abstracts the buffers and the disk to what a
  client sees; \<open>bread_ok\<close>, \<open>set_data_ok\<close>, \<open>bwrite_ok\<close> and \<open>brelse_ok\<close> show that each operation of
  \<^verbatim>\<open>bio.c\<close> refines an operation on that abstraction.  The locale \<open>block_cache\<close> collects these facts as
  the contract of the cache, with the patterns of use of its clients proved once inside it.
\<close>

section \<open>The block store a cache stands for\<close>

text \<open>
  \<open>cache_ok bs dk\<close>: the buffers \<open>bs\<close> are a sound cache of the disk \<open>dk\<close>.  A buffer holds data exactly
  if it belongs to the disk; no block is cached twice; a buffer that is neither busy nor dirty agrees
  with the disk.
\<close>

definition cache_ok :: "buf list \<Rightarrow> bytes list \<Rightarrow> bool" where
  "cache_ok bs dk \<longleftrightarrow>
     (\<exists>xs. lru bs xs) \<and>
     (\<forall>d\<in>set dk. length d = BSIZE) \<and>
     (\<forall>i<NBUF. length (b_data (bs ! i)) = BSIZE) \<and>
     (\<forall>i<NBUF. b_valid (bs ! i) \<longleftrightarrow> b_dev (bs ! i) = 1) \<and>
     (\<forall>i<NBUF. b_busy (bs ! i) \<or> b_dirty (bs ! i) \<longrightarrow> b_valid (bs ! i)) \<and>
     (\<forall>i<NBUF. b_valid (bs ! i) \<longrightarrow> b_blockno (bs ! i) < length dk) \<and>
     (\<forall>i<NBUF. \<forall>j<NBUF. b_valid (bs ! i) \<and> b_valid (bs ! j) \<and> b_blockno (bs ! i) = b_blockno (bs ! j) \<longrightarrow> i = j) \<and>
     (\<forall>i<NBUF. b_valid (bs ! i) \<and> \<not> b_busy (bs ! i) \<and> \<not> b_dirty (bs ! i) \<longrightarrow>
        b_data (bs ! i) = dk ! b_blockno (bs ! i))"

text \<open>The logical content of a block: the cached copy if there is one, else the disk's.\<close>

definition cview :: "buf list \<Rightarrow> bytes list \<Rightarrow> nat \<Rightarrow> bytes" where
  "cview bs dk b = (case find (\<lambda>i. b_valid (bs ! i) \<and> b_blockno (bs ! i) = b) [0..<NBUF] of
     Some i \<Rightarrow> b_data (bs ! i) | None \<Rightarrow> dk ! b)"

definition chandles :: "buf list \<Rightarrow> nat \<Rightarrow> nat option" where
  "chandles bs i = (if i < NBUF \<and> b_busy (bs ! i) then Some (b_blockno (bs ! i)) else None)"

definition cpinned :: "buf list \<Rightarrow> nat set" where
  "cpinned bs = {b_blockno (bs ! i) | i. i < NBUF \<and> b_dirty (bs ! i)}"

lemma cache_okD:
  assumes "cache_ok bs dk" and "i < NBUF"
  shows "length (b_data (bs ! i)) = BSIZE" and "b_valid (bs ! i) \<longleftrightarrow> b_dev (bs ! i) = 1"
    and "b_busy (bs ! i) \<Longrightarrow> b_valid (bs ! i)" and "b_dirty (bs ! i) \<Longrightarrow> b_valid (bs ! i)"
    and "b_valid (bs ! i) \<Longrightarrow> b_blockno (bs ! i) < length dk"
    and "b_valid (bs ! i) \<Longrightarrow> \<not> b_busy (bs ! i) \<Longrightarrow> \<not> b_dirty (bs ! i) \<Longrightarrow>
        b_data (bs ! i) = dk ! b_blockno (bs ! i)"
  using assms unfolding cache_ok_def by blast+

lemma cache_ok_unique:
  "cache_ok bs dk \<Longrightarrow> i < NBUF \<Longrightarrow> j < NBUF \<Longrightarrow> b_valid (bs ! i) \<Longrightarrow> b_valid (bs ! j) \<Longrightarrow>
   b_blockno (bs ! i) = b_blockno (bs ! j) \<Longrightarrow> i = j"
  unfolding cache_ok_def by blast

lemma cache_ok_lru: "cache_ok bs dk \<Longrightarrow> \<exists>xs. lru bs xs"
  by (simp add: cache_ok_def)

lemma cache_ok_length: "cache_ok bs dk \<Longrightarrow> length bs = Suc NBUF"
  using cache_ok_lru lru_length by blast

lemma cache_ok_disk: "cache_ok bs dk \<Longrightarrow> b < length dk \<Longrightarrow> length (dk ! b) = BSIZE"
  by (simp add: cache_ok_def)

lemma cview_cached:
  assumes "cache_ok bs dk" and "i < NBUF" and "b_valid (bs ! i)"
  shows "cview bs dk (b_blockno (bs ! i)) = b_data (bs ! i)"
proof -
  let ?P = "\<lambda>j. b_valid (bs ! j) \<and> b_blockno (bs ! j) = b_blockno (bs ! i)"
  obtain j where j: "find ?P [0..<NBUF] = Some j"
    using assms(2,3) by (cases "find ?P [0..<NBUF]") (auto simp: find_None_iff)
  then have "j \<in> set [0..<NBUF] \<and> ?P j" by (rule find_SomeD)
  then have "j = i" using cache_ok_unique[OF assms(1), of j i] assms(2,3) by simp
  then show ?thesis using j by (simp add: cview_def)
qed

lemma cview_uncached:
  assumes "\<And>i. i < NBUF \<Longrightarrow> b_valid (bs ! i) \<Longrightarrow> b_blockno (bs ! i) \<noteq> b"
  shows "cview bs dk b = dk ! b"
proof -
  have "find (\<lambda>i. b_valid (bs ! i) \<and> b_blockno (bs ! i) = b) [0..<NBUF] = None"
    using assms by (auto simp: find_None_iff)
  then show ?thesis by (simp add: cview_def)
qed

lemma cview_eqI:
  assumes "cache_ok bs dk"
    and "\<And>i. i < NBUF \<Longrightarrow> b_valid (bs ! i) \<Longrightarrow> b_data (bs ! i) = v (b_blockno (bs ! i))"
    and "\<And>b. (\<And>i. i < NBUF \<Longrightarrow> b_valid (bs ! i) \<Longrightarrow> b_blockno (bs ! i) \<noteq> b) \<Longrightarrow> dk ! b = v b"
  shows "cview bs dk = v"
proof
  fix b
  show "cview bs dk b = v b"
  proof (cases "\<exists>i<NBUF. b_valid (bs ! i) \<and> b_blockno (bs ! i) = b")
    case True
    then show ?thesis using cview_cached[OF assms(1)] assms(2) by fastforce
  next
    case False
    then show ?thesis using cview_uncached[of bs b dk] assms(3)[of b] by metis
  qed
qed

text \<open>Replacing one buffer.\<close>

lemma cache_ok_upd:
  assumes ok: "cache_ok bs dk" and i: "i < NBUF"
    and ptr: "b_next r = b_next (bs ! i)" "b_prev r = b_prev (bs ! i)"
    and r: "length (b_data r) = BSIZE" "b_valid r" "b_dev r = 1" "b_blockno r < length dk"
    and new: "\<And>j. j < NBUF \<Longrightarrow> j \<noteq> i \<Longrightarrow> b_valid (bs ! j) \<Longrightarrow> b_blockno (bs ! j) \<noteq> b_blockno r"
    and clean: "\<not> b_busy r \<Longrightarrow> \<not> b_dirty r \<Longrightarrow> b_data r = dk ! b_blockno r"
  shows "cache_ok (bs[i := r]) dk"
proof -
  obtain xs where xs: "lru bs xs" using ok cache_ok_lru by blast
  then have il: "i < length bs" using i by (simp add: lru_def)
  have l: "lru (bs[i := r]) xs" by (rule lru_upd[OF xs il ptr])
  have nth: "bs[i := r] ! j = (if j = i then r else bs ! j)" for j
    using il by (simp add: nth_list_update)
  have u: "j = k" if "j < NBUF" "k < NBUF" "b_valid (bs[i := r] ! j)" "b_valid (bs[i := r] ! k)"
      "b_blockno (bs[i := r] ! j) = b_blockno (bs[i := r] ! k)" for j k
    using that new[of j] new[of k] cache_ok_unique[OF ok that(1,2)] unfolding nth
    by (cases "j = i"; cases "k = i") auto
  show ?thesis
    unfolding cache_ok_def
  proof (intro conjI allI impI ballI)
    show "\<exists>xs. lru (bs[i := r]) xs" using l by blast
    show "length d = BSIZE" if "d \<in> set dk" for d using that ok by (simp add: cache_ok_def)
    fix j assume j: "j < NBUF"
    show "length (b_data (bs[i := r] ! j)) = BSIZE"
      "(b_valid (bs[i := r] ! j)) = (b_dev (bs[i := r] ! j) = 1)"
      using cache_okD[OF ok j] r unfolding nth by auto
    show "b_valid (bs[i := r] ! j)" if "b_busy (bs[i := r] ! j) \<or> b_dirty (bs[i := r] ! j)"
      using cache_okD(3,4)[OF ok j] r that unfolding nth by (auto split: if_splits)
    show "b_blockno (bs[i := r] ! j) < length dk" if "b_valid (bs[i := r] ! j)"
      using cache_okD(5)[OF ok j] r that unfolding nth by (auto split: if_splits)
    show "b_data (bs[i := r] ! j) = dk ! b_blockno (bs[i := r] ! j)"
      if "b_valid (bs[i := r] ! j) \<and> \<not> b_busy (bs[i := r] ! j) \<and> \<not> b_dirty (bs[i := r] ! j)"
      using cache_okD(6)[OF ok j] clean that unfolding nth by (auto split: if_splits)
  next
    fix j k assume "j < NBUF" "k < NBUF" "b_valid (bs[i := r] ! j) \<and> b_valid (bs[i := r] ! k) \<and>
      b_blockno (bs[i := r] ! j) = b_blockno (bs[i := r] ! k)"
    then show "j = k" using u by blast
  qed
qed

lemma chandles_upd:
  "i < NBUF \<Longrightarrow> i < length bs \<Longrightarrow>
   chandles (bs[i := r]) = (chandles bs)(i := if b_busy r then Some (b_blockno r) else None)"
  by (auto simp: chandles_def fun_eq_iff nth_list_update)

lemma chandles_busy: "i < NBUF \<Longrightarrow> b_busy (bs ! i) \<Longrightarrow> b_blockno (bs ! i) \<in> ran (chandles bs)"
  by (rule ranI[of _ i]) (simp add: chandles_def)

lemma cpinned_dirty: "i < NBUF \<Longrightarrow> b_dirty (bs ! i) \<Longrightarrow> b_blockno (bs ! i) \<in> cpinned bs"
  by (auto simp: cpinned_def)

text \<open>The cached blocks other than that of buffer \<open>i\<close> keep their content; block \<open>b_blockno r\<close> has the
  new one; the block \<open>i\<close> held before is read from the disk again.\<close>

lemma cview_upd:
  assumes ok: "cache_ok bs dk" and ok': "cache_ok (bs[i := r]) dk'" and i: "i < NBUF" and v: "b_valid r"
    and len: "length dk' = length dk"
    and dk: "\<And>b. b \<noteq> b_blockno r \<Longrightarrow> dk' ! b = dk ! b"
    and old: "b_valid (bs ! i) \<Longrightarrow> b_blockno (bs ! i) \<noteq> b_blockno r \<Longrightarrow>
        b_data (bs ! i) = dk ! b_blockno (bs ! i)"
  shows "cview (bs[i := r]) dk' = (cview bs dk)(b_blockno r := b_data r)"
proof -
  have il: "i < length bs" using cache_ok_length[OF ok] i by simp
  have nth: "bs[i := r] ! j = (if j = i then r else bs ! j)" for j
    using il by (simp add: nth_list_update)
  have a: "b_data (bs[i := r] ! j) = ((cview bs dk)(b_blockno r := b_data r)) (b_blockno (bs[i := r] ! j))"
    if j: "j < NBUF" and vj: "b_valid (bs[i := r] ! j)" for j
  proof (cases "j = i")
    case False
    then have nj: "bs[i := r] ! j = bs ! j" and ni: "bs[i := r] ! i = r" by (simp_all add: nth)
    have vj': "b_valid (bs ! j)" using vj nj by simp
    have "b_blockno (bs ! j) \<noteq> b_blockno r"
      using cache_ok_unique[OF ok' j i vj] False v by (simp only: nj ni) blast
    then show ?thesis
      using cview_cached[OF ok j vj'] nj by simp
  qed (simp add: nth)
  have b: "dk' ! b = ((cview bs dk)(b_blockno r := b_data r)) b"
    if nb: "\<And>j. j < NBUF \<Longrightarrow> b_valid (bs[i := r] ! j) \<Longrightarrow> b_blockno (bs[i := r] ! j) \<noteq> b" for b
  proof -
    have br: "b \<noteq> b_blockno r" using nb[OF i] v unfolding nth by auto
    have "cview bs dk b = dk ! b"
    proof (cases "b_valid (bs ! i) \<and> b_blockno (bs ! i) = b")
      case True
      then show ?thesis using cview_cached[OF ok i] old br by auto
    next
      case False
      have "b_blockno (bs ! j) \<noteq> b" if "j < NBUF" "b_valid (bs ! j)" for j
        using nb[of j] False that unfolding nth by (cases "j = i") auto
      then show ?thesis by (rule cview_uncached)
    qed
    then show ?thesis using br dk by simp
  qed
  show ?thesis using a b by (rule cview_eqI[OF ok'])
qed

lemma cpinned_upd:
  assumes "i < NBUF" and "i < length bs"
  shows "cpinned (bs[i := r]) =
    {b_blockno (bs ! j) | j. j < NBUF \<and> j \<noteq> i \<and> b_dirty (bs ! j)} \<union> (if b_dirty r then {b_blockno r} else {})"
  using assms unfolding cpinned_def nth_list_update[OF assms(2)] by auto

lemma same_bufs_cache:
  assumes s: "same_bufs bs bs'" and l: "lru bs' xs" and ok: "cache_ok bs dk"
  shows "cache_ok bs' dk" and "cview bs' dk = cview bs dk" and "chandles bs' = chandles bs"
    and "cpinned bs' = cpinned bs"
proof -
  have len: "length bs = Suc NBUF" using ok by (rule cache_ok_length)
  then have e: "b_busy (bs' ! i) = b_busy (bs ! i)" "b_valid (bs' ! i) = b_valid (bs ! i)"
    "b_dirty (bs' ! i) = b_dirty (bs ! i)" "b_dev (bs' ! i) = b_dev (bs ! i)"
    "b_blockno (bs' ! i) = b_blockno (bs ! i)" "b_data (bs' ! i) = b_data (bs ! i)" if "i < NBUF" for i
    using same_bufs_sel(2-)[OF s, of i] that by simp_all
  show "cache_ok bs' dk"
    using ok l unfolding cache_ok_def by (auto simp: e)
  have "find (\<lambda>i. b_valid (bs' ! i) \<and> b_blockno (bs' ! i) = b) [0..<NBUF] =
      find (\<lambda>i. b_valid (bs ! i) \<and> b_blockno (bs ! i) = b) [0..<NBUF]" for b
    by (rule find_cong) (auto simp: e)
  moreover have "i < NBUF" if "find P [0..<NBUF] = Some i" for P i
    using find_SomeD[OF that] by simp
  ultimately show "cview bs' dk = cview bs dk"
    by (auto simp: cview_def fun_eq_iff e split: option.split)
  show "chandles bs' = chandles bs" by (auto simp: chandles_def fun_eq_iff e)
  show "cpinned bs' = cpinned bs"
    unfolding cpinned_def by (rule Collect_cong, rule ex_cong1, use e in auto)
qed

text \<open>What the running code can see of the cache and the disk.\<close>

record bstore =
  bs_handles :: "nat \<Rightarrow> nat option"      \<comment> \<open>busy buffers and the blocks they hold\<close>
  bs_view :: "nat \<Rightarrow> bytes"              \<comment> \<open>logical content of a block\<close>
  bs_disk :: "bytes list"
  bs_trace :: "(nat \<times> bytes) list"       \<comment> \<open>block writes so far\<close>
  bs_pinned :: "nat set"                   \<comment> \<open>blocks of dirty buffers\<close>

definition bstore_of :: "'a bio_scheme \<Rightarrow> bstore" where
  "bstore_of s = \<lparr>bs_handles = chandles (bufs s), bs_view = cview (bufs s) (memdisk s),
     bs_disk = memdisk s, bs_trace = dtrace s, bs_pinned = cpinned (bufs s)\<rparr>"

definition bio_ok :: "'a bio_scheme \<Rightarrow> bool" where
  "bio_ok s \<longleftrightarrow> quiet s \<and> cache_ok (bufs s) (memdisk s)"

text \<open>What the cache leaves alone: everything but its own fields, except that sleepers may be woken.\<close>

definition woken :: "proc \<Rightarrow> proc \<Rightarrow> bool" where
  "woken p q \<longleftrightarrow> q = p \<or> (pstate p = SLEEPING \<and> q = p\<lparr>pstate := RUNNABLE\<rparr>)"

definition bio_frame :: "'a bio_scheme \<Rightarrow> 'a bio_scheme \<Rightarrow> bool" where
  "bio_frame s s' \<longleftrightarrow> list_all2 woken (procs s) (procs s') \<and>
     s' = s\<lparr>procs := procs s', bufs := bufs s', memdisk := memdisk s', dtrace := dtrace s'\<rparr>"

definition get_data :: "nat \<Rightarrow> (bytes, 'a bio_scheme) kop" where
  "get_data i = with_buf i (\<lambda>r. ret (b_data r))"

definition set_data :: "nat \<Rightarrow> bytes \<Rightarrow> (unit, 'a bio_scheme) kop" where
  "set_data i d = upd_buf i (\<lambda>r. r\<lparr>b_data := d\<rparr>)"

definition set_dirty :: "nat \<Rightarrow> (unit, 'a bio_scheme) kop" where
  "set_dirty i = upd_buf i (\<lambda>r. r\<lparr>b_dirty := True\<rparr>)"

lemma woken_refl: "woken p p" by (simp add: woken_def)

lemma woken_trans: "woken p q \<Longrightarrow> woken q r \<Longrightarrow> woken p r"
  by (auto simp: woken_def)

lemma woken_wake: "list_all2 woken ps (map (wake_proc ch) ps)"
  by (auto simp: list_all2_conv_all_nth woken_def wake_proc_def)

lemma bio_frame_refl: "bio_frame s s"
  by (simp add: bio_frame_def list_all2_refl woken_refl)

lemma bio_frame_trans:
  assumes "bio_frame s t" and "bio_frame t u"
  shows "bio_frame s u"
proof -
  have "list_all2 woken (procs s) (procs u)"
    using assms list_all2_trans[of woken woken woken] woken_trans unfolding bio_frame_def by blast
  moreover have "u = s\<lparr>procs := procs u, bufs := bufs u, memdisk := memdisk u, dtrace := dtrace u\<rparr>"
  proof -
    have "u = t\<lparr>procs := procs u, bufs := bufs u, memdisk := memdisk u, dtrace := dtrace u\<rparr>"
      using assms(2) by (simp add: bio_frame_def)
    also have "t = s\<lparr>procs := procs t, bufs := bufs t, memdisk := memdisk t, dtrace := dtrace t\<rparr>"
      using assms(1) by (simp add: bio_frame_def)
    finally show ?thesis by simp
  qed
  ultimately show ?thesis by (simp add: bio_frame_def)
qed

lemma bio_frame_upd [simp]:
  "bio_frame s (s\<lparr>bufs := x\<rparr>)" "bio_frame s (s\<lparr>bufs := x, memdisk := y, dtrace := z\<rparr>)"
  "bio_frame s (s\<lparr>bufs := x, procs := map (wake_proc ch) (procs s)\<rparr>)"
  by (auto simp: bio_frame_def list_all2_refl woken_refl woken_wake intro!: bio.equality)

section \<open>The operations on the block store\<close>

lemma bread_ok:
  assumes ok: "bio_ok s" and b: "b < length (memdisk s)" and nh: "b \<notin> ran (chandles (bufs s))"
    and room: "card (ran (chandles (bufs s)) \<union> cpinned (bufs s) - {b}) < NBUF"
  shows "is_done (bread 1 b s) (\<lambda>i s'. chandles (bufs s) i = None \<and> bio_ok s' \<and> bio_frame s s' \<and>
     bstore_of s' = (bstore_of s)\<lparr>bs_handles := (chandles (bufs s))(i \<mapsto> b)\<rparr>)"
proof -
  define bs where "bs = bufs s"
  define dk where "dk = memdisk s"
  have q: "quiet s" and c: "cache_ok bs dk" using ok by (auto simp: bio_ok_def bs_def dk_def)
  obtain xs where xs: "lru bs xs" using cache_ok_lru[OF c] by blast
  then have sx: "set xs = {..<NBUF}" by (simp add: lru_def)
  have len: "length bs = Suc NBUF" using c by (rule cache_ok_length)
  note eq = bget_eq[OF q xs[unfolded bs_def], of 1 b, folded bs_def]
  have fin: ?thesis
    if run: "bread 1 b s = Done i (s\<lparr>bufs := bs[i := r]\<rparr>)" and i: "i < NBUF" and nb: "\<not> b_busy (bs ! i)"
      and r: "b_busy r" "b_valid r" "b_dev r = 1" "b_blockno r = b" "b_next r = b_next (bs ! i)"
        "b_prev r = b_prev (bs ! i)" "b_data r = cview bs dk b"
      and dirty: "b_dirty r \<longleftrightarrow> b_dirty (bs ! i) \<and> b_blockno (bs ! i) = b" "b_dirty (bs ! i) \<Longrightarrow> b_blockno (bs ! i) = b"
      and new: "\<And>j. j < NBUF \<Longrightarrow> j \<noteq> i \<Longrightarrow> b_valid (bs ! j) \<Longrightarrow> b_blockno (bs ! j) \<noteq> b"
      and dl: "length (b_data r) = BSIZE" for i r
  proof -
    have il: "i < length bs" using i len by simp
    have c': "cache_ok (bs[i := r]) dk"
      by (rule cache_ok_upd[OF c i]) (use r dl new b in \<open>auto simp: dk_def\<close>)
    have "cview (bs[i := r]) dk = (cview bs dk)(b_blockno r := b_data r)"
      by (rule cview_upd[OF c c' i r(2)]) (use cache_okD(6)[OF c i] nb dirty(2) r(4) in auto)
    then have v: "cview (bs[i := r]) dk = cview bs dk" using r(4,7) by auto
    have h: "chandles (bs[i := r]) = (chandles bs)(i \<mapsto> b)"
      using chandles_upd[OF i il] r by simp
    have "cpinned (bs[i := r]) = cpinned bs"
      unfolding cpinned_upd[OF i il] using dirty r(4) i by (auto simp: cpinned_def) metis
    moreover have "chandles bs i = None" using nb by (simp add: chandles_def)
    ultimately show ?thesis
      using q c' v h run by (simp add: bio_ok_def bstore_of_def bs_def[symmetric] dk_def[symmetric])
  qed
  show ?thesis
  proof (cases "find (\<lambda>i. b_dev (bs ! i) = 1 \<and> b_blockno (bs ! i) = b) xs")
    case (Some i)
    then have i: "i < NBUF" and m: "b_dev (bs ! i) = 1" "b_blockno (bs ! i) = b"
      using find_SomeD[OF Some] sx by auto
    have v: "b_valid (bs ! i)" using cache_okD(2)[OF c i] m by simp
    have nb: "\<not> b_busy (bs ! i)"
      using nh chandles_busy[OF i] m by (auto simp: bs_def)
    have il: "i < length bs" using i len by simp
    show ?thesis
    proof (rule fin[of i "(bs ! i)\<lparr>b_busy := True\<rparr>"])
      show "bread 1 b s = Done i (s\<lparr>bufs := bs[i := (bs ! i)\<lparr>b_busy := True\<rparr>]\<rparr>)"
        using il eq Some nb v by (simp add: bread_def)
      show "b_blockno (bs ! j) \<noteq> b" if "j < NBUF" "j \<noteq> i" "b_valid (bs ! j)" for j
        using cache_ok_unique[OF c that(1) i that(3) v] m that(2) by auto
    qed (use i nb v m cview_cached[OF c i v] cache_okD(1)[OF c i] in auto)
  next
    case None
    then have nc: "\<not> (b_dev (bs ! j) = 1 \<and> b_blockno (bs ! j) = b)" if "j < NBUF" for j
      using that sx unfolding find_None_iff by blast
    have new: "b_blockno (bs ! j) \<noteq> b" if "j < NBUF" "b_valid (bs ! j)" for j
      using nc[OF that(1)] cache_okD(2)[OF c that(1)] that(2) by auto
    have "\<exists>j<NBUF. \<not> b_busy (bs ! j) \<and> \<not> b_dirty (bs ! j)"
    proof (rule ccontr)
      assume "\<not> ?thesis"
      then have bd: "b_busy (bs ! j) \<or> b_dirty (bs ! j)" if "j < NBUF" for j using that by blast
      then have val: "b_valid (bs ! j)" if "j < NBUF" for j using that cache_okD(3,4)[OF c that] by blast
      have "inj_on (\<lambda>j. b_blockno (bs ! j)) {..<NBUF}"
        by (rule inj_onI) (use cache_ok_unique[OF c] val in auto)
      then have "card ((\<lambda>j. b_blockno (bs ! j)) ` {..<NBUF}) = NBUF" by (simp add: card_image)
      moreover have "(\<lambda>j. b_blockno (bs ! j)) ` {..<NBUF} \<subseteq> ran (chandles bs) \<union> cpinned bs - {b}"
        using bd new val chandles_busy cpinned_dirty by blast
      moreover have "finite (ran (chandles bs) \<union> cpinned bs - {b})"
      proof -
        have "ran (chandles bs) \<union> cpinned bs \<subseteq> (\<lambda>j. b_blockno (bs ! j)) ` {..<NBUF}"
          by (auto simp: ran_def chandles_def cpinned_def split: if_splits)
        then show ?thesis by (meson finite_Diff finite_imageI finite_lessThan finite_subset)
      qed
      ultimately have "NBUF \<le> card (ran (chandles bs) \<union> cpinned bs - {b})"
        by (metis card_mono)
      then show False using room by (simp add: bs_def)
    qed
    then obtain i where f: "find (\<lambda>i. \<not> b_busy (bs ! i) \<and> \<not> b_dirty (bs ! i)) (rev xs) = Some i"
      using sx by (cases "find (\<lambda>i. \<not> b_busy (bs ! i) \<and> \<not> b_dirty (bs ! i)) (rev xs)")
        (auto simp: find_None_iff)
    then have i: "i < NBUF" and nb: "\<not> b_busy (bs ! i)" "\<not> b_dirty (bs ! i)"
      using find_SomeD[OF f] sx by auto
    have il: "i < length bs" using i len by simp
    have vw: "cview bs dk b = dk ! b" by (rule cview_uncached) (rule new)
    let ?r = "(bs ! i)\<lparr>b_dev := 1, b_blockno := b, b_busy := True, b_dirty := False,
        b_data := dk ! b, b_valid := True\<rparr>"
    show ?thesis
    proof (rule fin[of i ?r])
      show "bread 1 b s = Done i (s\<lparr>bufs := bs[i := ?r]\<rparr>)"
        using il eq None f b by (simp add: bread_def iderw_def dk_def)
    qed (use i nb vw new cache_ok_disk[OF c] b in \<open>auto simp: dk_def\<close>)
  qed
qed

lemma handle_buf:
  assumes "cache_ok bs dk" and "chandles bs i = Some b"
  shows "i < NBUF" "i < length bs" "b_busy (bs ! i)" "b_valid (bs ! i)" "b_dev (bs ! i) = 1"
    "b_blockno (bs ! i) = b" "b < length dk" "b_data (bs ! i) = cview bs dk b"
proof -
  show i: "i < NBUF" and busy: "b_busy (bs ! i)" and b: "b_blockno (bs ! i) = b"
    using assms(2) by (auto simp: chandles_def split: if_splits)
  show "i < length bs" using i cache_ok_length[OF assms(1)] by simp
  show v: "b_valid (bs ! i)" using cache_okD(3)[OF assms(1) i busy] .
  show "b_dev (bs ! i) = 1" using cache_okD(2)[OF assms(1) i] v by simp
  show "b < length dk" using cache_okD(5)[OF assms(1) i v] b by simp
  show "b_data (bs ! i) = cview bs dk b" using cview_cached[OF assms(1) i v] b by simp
qed

text \<open>A busy buffer's block is in no other buffer.\<close>

lemma handle_unique:
  "cache_ok bs dk \<Longrightarrow> chandles bs i = Some b \<Longrightarrow> j < NBUF \<Longrightarrow> j \<noteq> i \<Longrightarrow> b_valid (bs ! j) \<Longrightarrow>
   b_blockno (bs ! j) \<noteq> b"
  using cache_ok_unique[of bs dk j i] handle_buf[of bs dk i b] by auto

lemma pinned_handle:
  assumes c: "cache_ok bs dk" and h: "chandles bs i = Some b"
  shows "b_dirty (bs ! i) \<longleftrightarrow> b \<in> cpinned bs"
    and "{b_blockno (bs ! j) | j. j < NBUF \<and> j \<noteq> i \<and> b_dirty (bs ! j)} = cpinned bs - {b}"
proof -
  note hb = handle_buf[OF c h]
  have j: "j = i" if "j < NBUF" "b_dirty (bs ! j)" "b_blockno (bs ! j) = b" for j
    using handle_unique[OF c h that(1)] cache_okD(4)[OF c that(1,2)] that(3) by blast
  show "b_dirty (bs ! i) \<longleftrightarrow> b \<in> cpinned bs"
    using j hb(1,6) by (auto simp: cpinned_def)
  show "{b_blockno (bs ! j) | j. j < NBUF \<and> j \<noteq> i \<and> b_dirty (bs ! j)} = cpinned bs - {b}"
    using j hb(6) by (auto simp: cpinned_def)
qed

lemma set_data_ok:
  assumes ok: "bio_ok s" and h: "chandles (bufs s) i = Some b" and d: "length d = BSIZE"
  shows "is_done (set_data i d s) (\<lambda>_ s'. bio_ok s' \<and> bio_frame s s' \<and>
     bstore_of s' = (bstore_of s)\<lparr>bs_view := (bs_view (bstore_of s))(b := d)\<rparr>)"
proof -
  have q: "quiet s" and c: "cache_ok (bufs s) (memdisk s)" using ok by (auto simp: bio_ok_def)
  note hb = handle_buf[OF c h]
  let ?r = "(bufs s ! i)\<lparr>b_data := d\<rparr>"
  have c': "cache_ok ((bufs s)[i := ?r]) (memdisk s)"
    by (rule cache_ok_upd[OF c hb(1)]) (use hb d handle_unique[OF c h] in auto)
  have "cview ((bufs s)[i := ?r]) (memdisk s) = (cview (bufs s) (memdisk s))(b_blockno ?r := b_data ?r)"
    by (rule cview_upd[OF c c' hb(1)]) (use hb in auto)
  moreover have "chandles ((bufs s)[i := ?r]) = chandles (bufs s)"
    using chandles_upd[OF hb(1,2), of ?r] h hb by (auto simp: fun_upd_same)
  moreover have "cpinned ((bufs s)[i := ?r]) = cpinned (bufs s)"
    unfolding cpinned_upd[OF hb(1,2)] pinned_handle(2)[OF c h] using pinned_handle(1)[OF c h] hb by auto
  ultimately show ?thesis
    using hb q c' by (simp add: set_data_def bio_ok_def bstore_of_def)
qed

lemma set_dirty_ok:
  assumes ok: "bio_ok s" and h: "chandles (bufs s) i = Some b"
  shows "is_done (set_dirty i s) (\<lambda>_ s'. bio_ok s' \<and> bio_frame s s' \<and>
     bstore_of s' = (bstore_of s)\<lparr>bs_pinned := insert b (cpinned (bufs s))\<rparr>)"
proof -
  have q: "quiet s" and c: "cache_ok (bufs s) (memdisk s)" using ok by (auto simp: bio_ok_def)
  note hb = handle_buf[OF c h]
  let ?r = "(bufs s ! i)\<lparr>b_dirty := True\<rparr>"
  have c': "cache_ok ((bufs s)[i := ?r]) (memdisk s)"
    by (rule cache_ok_upd[OF c hb(1)]) (use hb cache_okD(1)[OF c hb(1)] handle_unique[OF c h] in auto)
  have "cview ((bufs s)[i := ?r]) (memdisk s) = (cview (bufs s) (memdisk s))(b_blockno ?r := b_data ?r)"
    by (rule cview_upd[OF c c' hb(1)]) (use hb in auto)
  moreover have "chandles ((bufs s)[i := ?r]) = chandles (bufs s)"
    using chandles_upd[OF hb(1,2), of ?r] h hb by (auto simp: fun_upd_same)
  moreover have "cpinned ((bufs s)[i := ?r]) = insert b (cpinned (bufs s))"
    unfolding cpinned_upd[OF hb(1,2)] pinned_handle(2)[OF c h] using hb by auto
  ultimately show ?thesis
    using hb q c' by (simp add: set_dirty_def bio_ok_def bstore_of_def fun_upd_same)
qed

lemma cache_ok_disk_write:
  assumes c: "cache_ok bs dk" and h: "chandles bs i = Some b" and d: "length d = BSIZE"
  shows "cache_ok bs (dk[b := d])"
proof -
  have ne: "b_blockno (bs ! j) \<noteq> b" if "j < NBUF" "b_valid (bs ! j)" "\<not> b_busy (bs ! j)" for j
    using handle_unique[OF c h that(1)] handle_buf(3)[OF c h] that(2,3) by (cases "j = i") auto
  have "length x = BSIZE" if "x \<in> set (dk[b := d])" for x
    using set_update_subset_insert[of dk b d] that c d unfolding cache_ok_def by blast
  moreover have "b_data (bs ! j) = dk[b := d] ! b_blockno (bs ! j)"
    if "j < NBUF" "b_valid (bs ! j) \<and> \<not> b_busy (bs ! j) \<and> \<not> b_dirty (bs ! j)" for j
    using cache_okD(6)[OF c that(1)] ne[OF that(1)] that(2) by simp
  ultimately show ?thesis
    using c unfolding cache_ok_def length_list_update by blast
qed

lemma bwrite_ok:
  assumes ok: "bio_ok s" and h: "chandles (bufs s) i = Some b"
  shows "is_done (bwrite i s) (\<lambda>_ s'. bio_ok s' \<and> bio_frame s s' \<and>
     bstore_of s' = (bstore_of s)\<lparr>
       bs_disk := (memdisk s)[b := bs_view (bstore_of s) b],
       bs_trace := dtrace s @ [(b, bs_view (bstore_of s) b)],
       bs_pinned := cpinned (bufs s) - {b}\<rparr>)"
proof -
  have q: "quiet s" and c: "cache_ok (bufs s) (memdisk s)" using ok by (auto simp: bio_ok_def)
  note hb = handle_buf[OF c h]
  have dl: "length (b_data (bufs s ! i)) = BSIZE" using cache_okD(1)[OF c hb(1)] .
  let ?r = "(bufs s ! i)\<lparr>b_dirty := False, b_valid := True\<rparr>"
  let ?d = "b_data (bufs s ! i)"
  let ?dk = "(memdisk s)[b := ?d]"
  have r: "?r = (bufs s ! i)\<lparr>b_dirty := True, b_dirty := False, b_valid := True\<rparr>" by simp
  have run: "bwrite i s = Done () (s\<lparr>bufs := (bufs s)[i := ?r], memdisk := ?dk,
      dtrace := dtrace s @ [(b, ?d)]\<rparr>)"
    using hb by (simp add: bwrite_def iderw_def)
  have c1: "cache_ok (bufs s) ?dk" by (rule cache_ok_disk_write[OF c h dl])
  have c': "cache_ok ((bufs s)[i := ?r]) ?dk"
    by (rule cache_ok_upd[OF c1 hb(1)]) (use hb dl handle_unique[OF c h] in auto)
  have "cview ((bufs s)[i := ?r]) ?dk = (cview (bufs s) (memdisk s))(b_blockno ?r := b_data ?r)"
    by (rule cview_upd[OF c c' hb(1)]) (use hb in auto)
  moreover have "chandles ((bufs s)[i := ?r]) = chandles (bufs s)"
    using chandles_upd[OF hb(1,2), of ?r] h hb by (auto simp: fun_upd_same)
  moreover have "cpinned ((bufs s)[i := ?r]) = cpinned (bufs s) - {b}"
    unfolding cpinned_upd[OF hb(1,2)] pinned_handle(2)[OF c h] by simp
  ultimately show ?thesis
    using hb q c' unfolding run by (simp add: bio_ok_def bstore_of_def fun_upd_same)
qed

lemma cview_cases:
  assumes "cache_ok bs dk"
  obtains (cached) i where "i < NBUF" "b_valid (bs ! i)" "b_blockno (bs ! i) = b" "cview bs dk b = b_data (bs ! i)"
    | (uncached) "cview bs dk b = dk ! b"
proof (cases "\<exists>i<NBUF. b_valid (bs ! i) \<and> b_blockno (bs ! i) = b")
  case True
  then obtain i where i: "i < NBUF" "b_valid (bs ! i)" "b_blockno (bs ! i) = b" by blast
  then show ?thesis using cview_cached[OF assms i(1,2)] cached by simp
next
  case False
  then show ?thesis using cview_uncached[of bs b dk] uncached by blast
qed

lemma cview_coherent:
  assumes c: "cache_ok bs dk" and "b \<notin> ran (chandles bs)" and "b \<notin> cpinned bs"
  shows "cview bs dk b = dk ! b"
proof (cases rule: cview_cases[OF c, of b])
  case (1 i)
  then have "\<not> b_busy (bs ! i)" "\<not> b_dirty (bs ! i)"
    using assms(2,3) chandles_busy[of i bs] cpinned_dirty[of i bs] by auto
  then show ?thesis using cache_okD(6)[OF c 1(1,2)] 1 by simp
next
  case 2
  then show ?thesis .
qed

lemma cview_length: "cache_ok bs dk \<Longrightarrow> b < length dk \<Longrightarrow> length (cview bs dk b) = BSIZE"
  by (rule cview_cases[of bs dk b]) (auto simp: cache_okD(1) cache_ok_disk)

lemma finite_cache: "finite (ran (chandles bs) \<union> cpinned bs)"
proof -
  have "ran (chandles bs) \<union> cpinned bs \<subseteq> (\<lambda>j. b_blockno (bs ! j)) ` {..<NBUF}"
    by (auto simp: ran_def chandles_def cpinned_def split: if_splits)
  then show ?thesis by (meson finite_imageI finite_lessThan finite_subset)
qed

lemma brelse_ok:
  assumes ok: "bio_ok s" and h: "chandles (bufs s) i = Some b"
    and clean: "b \<in> cpinned (bufs s) \<or> bs_view (bstore_of s) b = memdisk s ! b"
  shows "is_done (brelse i s) (\<lambda>_ s'. bio_ok s' \<and> bio_frame s s' \<and>
     bstore_of s' = (bstore_of s)\<lparr>bs_handles := (chandles (bufs s))(i := None)\<rparr>)"
proof -
  have q: "quiet s" and c: "cache_ok (bufs s) (memdisk s)" using ok by (auto simp: bio_ok_def)
  note hb = handle_buf[OF c h]
  obtain xs where xs: "lru (bufs s) xs" using cache_ok_lru[OF c] by blast
  then have "i \<in> set xs" using hb(1) by (simp add: lru_def)
  then obtain us vs where xs': "xs = us @ i # vs" by (auto simp: in_set_conv_decomp)
  define bs where "bs = to_front i (bufs s)"
  have lr: "lru bs (i # us @ vs)" and sb: "same_bufs (bufs s) bs"
    using to_front_lru[of "bufs s" us i vs] xs xs' by (auto simp: bs_def)
  note sc = same_bufs_cache[OF sb lr c]
  have h': "chandles bs i = Some b" using sc(3) h by simp
  note hb' = handle_buf[OF sc(1) h']
  let ?r = "(bs ! i)\<lparr>b_busy := False\<rparr>"
  have cl: "b_dirty (bs ! i) \<or> b_data (bs ! i) = memdisk s ! b"
    using clean pinned_handle(1)[OF sc(1) h'] hb'(8) sc(2,4) by (auto simp: bstore_of_def)
  have c': "cache_ok (bs[i := ?r]) (memdisk s)"
    by (rule cache_ok_upd[OF sc(1) hb'(1)])
      (use hb' cl cache_okD(1)[OF sc(1) hb'(1)] handle_unique[OF sc(1) h'] in auto)
  have "cview (bs[i := ?r]) (memdisk s) = (cview bs (memdisk s))(b_blockno ?r := b_data ?r)"
    by (rule cview_upd[OF sc(1) c' hb'(1)]) (use hb' in auto)
  moreover have "chandles (bs[i := ?r]) = (chandles bs)(i := None)"
    using chandles_upd[OF hb'(1,2), of ?r] by simp
  moreover have "cpinned (bs[i := ?r]) = cpinned bs"
    unfolding cpinned_upd[OF hb'(1,2)] pinned_handle(2)[OF sc(1) h']
    using pinned_handle(1)[OF sc(1) h'] hb' by auto
  moreover have "brelse i s = Done () (s\<lparr>bufs := bs[i := ?r], procs := map (wake_proc (BufChan i)) (procs s)\<rparr>)"
    using brelse_eq[OF q xs hb(1,3)] by (simp add: bs_def)
  ultimately show ?thesis
    using q c' sc hb' by (simp add: bio_ok_def bstore_of_def fun_upd_same)
qed

section \<open>The contract of the cache\<close>

text \<open>
  A block store with handles.  \<open>rd b\<close> gives a handle on block \<open>b\<close>, provided no other handle is on it
  and fewer than \<open>cap\<close> other blocks are held or pinned; \<open>get\<close> and \<open>put\<close> read and change the block
  through its handle; \<open>wr\<close> writes it to the disk; \<open>pin\<close> keeps it in the cache; \<open>rl\<close> gives the handle
  back.
\<close>

locale block_cache =
  fixes rd :: "nat \<Rightarrow> (nat, 's) kop" and get :: "nat \<Rightarrow> (bytes, 's) kop"
    and put :: "nat \<Rightarrow> bytes \<Rightarrow> (unit, 's) kop" and pin :: "nat \<Rightarrow> (unit, 's) kop"
    and wr :: "nat \<Rightarrow> (unit, 's) kop" and rl :: "nat \<Rightarrow> (unit, 's) kop"
    and ok :: "'s \<Rightarrow> bool" and abs :: "'s \<Rightarrow> bstore" and frame :: "'s \<Rightarrow> 's \<Rightarrow> bool" and cap :: nat
  assumes rd_ok: "ok s \<Longrightarrow> b < length (bs_disk (abs s)) \<Longrightarrow> b \<notin> ran (bs_handles (abs s)) \<Longrightarrow>
      card (ran (bs_handles (abs s)) \<union> bs_pinned (abs s) - {b}) < cap \<Longrightarrow>
      is_done (rd b s) (\<lambda>i s'. bs_handles (abs s) i = None \<and> ok s' \<and> frame s s' \<and>
        abs s' = (abs s)\<lparr>bs_handles := (bs_handles (abs s))(i \<mapsto> b)\<rparr>)"
    and get_ok: "ok s \<Longrightarrow> bs_handles (abs s) i = Some b \<Longrightarrow> get i s = Done (bs_view (abs s) b) s"
    and put_ok: "ok s \<Longrightarrow> bs_handles (abs s) i = Some b \<Longrightarrow> length d = BSIZE \<Longrightarrow>
      is_done (put i d s) (\<lambda>_ s'. ok s' \<and> frame s s' \<and>
        abs s' = (abs s)\<lparr>bs_view := (bs_view (abs s))(b := d)\<rparr>)"
    and pin_ok: "ok s \<Longrightarrow> bs_handles (abs s) i = Some b \<Longrightarrow>
      is_done (pin i s) (\<lambda>_ s'. ok s' \<and> frame s s' \<and>
        abs s' = (abs s)\<lparr>bs_pinned := insert b (bs_pinned (abs s))\<rparr>)"
    and wr_ok: "ok s \<Longrightarrow> bs_handles (abs s) i = Some b \<Longrightarrow>
      is_done (wr i s) (\<lambda>_ s'. ok s' \<and> frame s s' \<and>
        abs s' = (abs s)\<lparr>bs_disk := (bs_disk (abs s))[b := bs_view (abs s) b],
          bs_trace := bs_trace (abs s) @ [(b, bs_view (abs s) b)],
          bs_pinned := bs_pinned (abs s) - {b}\<rparr>)"
    and rl_ok: "ok s \<Longrightarrow> bs_handles (abs s) i = Some b \<Longrightarrow>
      b \<in> bs_pinned (abs s) \<or> bs_view (abs s) b = bs_disk (abs s) ! b \<Longrightarrow>
      is_done (rl i s) (\<lambda>_ s'. ok s' \<and> frame s s' \<and>
        abs s' = (abs s)\<lparr>bs_handles := (bs_handles (abs s))(i := None)\<rparr>)"
    and coherent: "ok s \<Longrightarrow> b < length (bs_disk (abs s)) \<Longrightarrow> b \<notin> ran (bs_handles (abs s)) \<Longrightarrow>
      b \<notin> bs_pinned (abs s) \<Longrightarrow> bs_view (abs s) b = bs_disk (abs s) ! b"
    and view_length: "ok s \<Longrightarrow> b < length (bs_disk (abs s)) \<Longrightarrow> length (bs_view (abs s) b) = BSIZE"
    and handle_inj: "ok s \<Longrightarrow> bs_handles (abs s) i = Some b \<Longrightarrow> bs_handles (abs s) j = Some b \<Longrightarrow> i = j"
    and handle_range: "ok s \<Longrightarrow> bs_handles (abs s) i = Some b \<Longrightarrow> b < length (bs_disk (abs s))"
    and finite_store: "ok s \<Longrightarrow> finite (ran (bs_handles (abs s)) \<union> bs_pinned (abs s))"
    and frame_refl: "frame s s"
    and frame_trans: "frame s t \<Longrightarrow> frame t u \<Longrightarrow> frame s u"

interpretation bc: block_cache "bread 1" get_data set_data set_dirty bwrite brelse bio_ok bstore_of bio_frame NBUF
proof unfold_locales
  fix s t u :: "'a bio_scheme" and b i j d
  show "is_done (bread 1 b s) (\<lambda>i s'. bs_handles (bstore_of s) i = None \<and> bio_ok s' \<and> bio_frame s s' \<and>
        bstore_of s' = (bstore_of s)\<lparr>bs_handles := (bs_handles (bstore_of s))(i \<mapsto> b)\<rparr>)"
    if "bio_ok s" "b < length (bs_disk (bstore_of s))" "b \<notin> ran (bs_handles (bstore_of s))"
      "card (ran (bs_handles (bstore_of s)) \<union> bs_pinned (bstore_of s) - {b}) < NBUF"
    using bread_ok[of s b] that by (simp add: bstore_of_def)
  show "get_data i s = Done (bs_view (bstore_of s) b) s"
    if "bio_ok s" "bs_handles (bstore_of s) i = Some b"
    using that handle_buf[of "bufs s" "memdisk s" i b] by (simp add: get_data_def bio_ok_def bstore_of_def)
  show "is_done (set_data i d s) (\<lambda>_ s'. bio_ok s' \<and> bio_frame s s' \<and>
        bstore_of s' = (bstore_of s)\<lparr>bs_view := (bs_view (bstore_of s))(b := d)\<rparr>)"
    if "bio_ok s" "bs_handles (bstore_of s) i = Some b" "length d = BSIZE"
    using set_data_ok[of s i b d] that by (simp add: bstore_of_def)
  show "is_done (set_dirty i s) (\<lambda>_ s'. bio_ok s' \<and> bio_frame s s' \<and>
        bstore_of s' = (bstore_of s)\<lparr>bs_pinned := insert b (bs_pinned (bstore_of s))\<rparr>)"
    if "bio_ok s" "bs_handles (bstore_of s) i = Some b"
    using set_dirty_ok[of s i b] that by (simp add: bstore_of_def)
  show "is_done (bwrite i s) (\<lambda>_ s'. bio_ok s' \<and> bio_frame s s' \<and>
        bstore_of s' = (bstore_of s)\<lparr>bs_disk := (bs_disk (bstore_of s))[b := bs_view (bstore_of s) b],
          bs_trace := bs_trace (bstore_of s) @ [(b, bs_view (bstore_of s) b)],
          bs_pinned := bs_pinned (bstore_of s) - {b}\<rparr>)"
    if "bio_ok s" "bs_handles (bstore_of s) i = Some b"
    using bwrite_ok[of s i b] that by (simp add: bstore_of_def)
  show "is_done (brelse i s) (\<lambda>_ s'. bio_ok s' \<and> bio_frame s s' \<and>
        bstore_of s' = (bstore_of s)\<lparr>bs_handles := (bs_handles (bstore_of s))(i := None)\<rparr>)"
    if "bio_ok s" "bs_handles (bstore_of s) i = Some b"
      "b \<in> bs_pinned (bstore_of s) \<or> bs_view (bstore_of s) b = bs_disk (bstore_of s) ! b"
    using brelse_ok[of s i b] that by (simp add: bstore_of_def)
  show "bs_view (bstore_of s) b = bs_disk (bstore_of s) ! b"
    if "bio_ok s" "b < length (bs_disk (bstore_of s))" "b \<notin> ran (bs_handles (bstore_of s))"
      "b \<notin> bs_pinned (bstore_of s)"
    using that cview_coherent[of "bufs s" "memdisk s" b] by (simp add: bio_ok_def bstore_of_def)
  show "length (bs_view (bstore_of s) b) = BSIZE" if "bio_ok s" "b < length (bs_disk (bstore_of s))"
    using that cview_length[of "bufs s" "memdisk s" b] by (simp add: bio_ok_def bstore_of_def)
  show "i = j" if "bio_ok s" "bs_handles (bstore_of s) i = Some b" "bs_handles (bstore_of s) j = Some b"
    using that handle_unique[of "bufs s" "memdisk s" i b j] handle_buf[of "bufs s" "memdisk s" j b]
    by (auto simp: bio_ok_def bstore_of_def)
  show "b < length (bs_disk (bstore_of s))" if "bio_ok s" "bs_handles (bstore_of s) i = Some b"
    using that handle_buf[of "bufs s" "memdisk s" i b] by (simp add: bio_ok_def bstore_of_def)
  show "finite (ran (bs_handles (bstore_of s)) \<union> bs_pinned (bstore_of s))"
    using finite_cache by (simp add: bstore_of_def)
  show "bio_frame s s" by (rule bio_frame_refl)
  show "bio_frame s u" if "bio_frame s t" "bio_frame t u" using that by (rule bio_frame_trans)
qed

section \<open>Patterns of use\<close>

text \<open>
  The three ways the kernel uses the cache, over any implementation of its operations: read a block,
  overwrite a block on the disk, and copy a block to another on the disk.
\<close>

definition read_blk :: "(nat \<Rightarrow> (nat, 's) kop) \<Rightarrow> (nat \<Rightarrow> (bytes, 's) kop) \<Rightarrow> (nat \<Rightarrow> (unit, 's) kop) \<Rightarrow>
    nat \<Rightarrow> (bytes, 's) kop" where
  "read_blk rd get rl b =
     andthen (rd b) (\<lambda>i. andthen (get i) (\<lambda>d. andthen (rl i) (\<lambda>_. ret d)))"

definition write_blk :: "(nat \<Rightarrow> (nat, 's) kop) \<Rightarrow> (nat \<Rightarrow> bytes \<Rightarrow> (unit, 's) kop) \<Rightarrow>
    (nat \<Rightarrow> (unit, 's) kop) \<Rightarrow> (nat \<Rightarrow> (unit, 's) kop) \<Rightarrow> nat \<Rightarrow> bytes \<Rightarrow> (unit, 's) kop" where
  "write_blk rd put wr rl b d =
     andthen (rd b) (\<lambda>i. andthen (put i d) (\<lambda>_. andthen (wr i) (\<lambda>_. rl i)))"

text \<open>The state of the store after block \<open>b\<close> has been overwritten on the disk with \<open>d\<close>.\<close>

definition written :: "nat \<Rightarrow> bytes \<Rightarrow> bstore \<Rightarrow> bstore" where
  "written b d a = a\<lparr>bs_view := (bs_view a)(b := d), bs_disk := (bs_disk a)[b := d],
     bs_trace := bs_trace a @ [(b, d)], bs_pinned := bs_pinned a - {b}\<rparr>"

text \<open>The copies of the log: to the log (\<open>write_log\<close>, destination opened first) and to the home
  location (\<open>install_trans\<close>, source opened first).\<close>

definition copy_out :: "(nat \<Rightarrow> (nat, 's) kop) \<Rightarrow> (nat \<Rightarrow> (bytes, 's) kop) \<Rightarrow> (nat \<Rightarrow> bytes \<Rightarrow> (unit, 's) kop) \<Rightarrow>
    (nat \<Rightarrow> (unit, 's) kop) \<Rightarrow> (nat \<Rightarrow> (unit, 's) kop) \<Rightarrow> nat \<Rightarrow> nat \<Rightarrow> (unit, 's) kop" where
  "copy_out rd get put wr rl to from =
     andthen (rd to) (\<lambda>i. andthen (rd from) (\<lambda>j.
     andthen (get j) (\<lambda>d. andthen (put i d) (\<lambda>_. andthen (wr i) (\<lambda>_. andthen (rl j) (\<lambda>_. rl i))))))"

definition copy_in :: "(nat \<Rightarrow> (nat, 's) kop) \<Rightarrow> (nat \<Rightarrow> (bytes, 's) kop) \<Rightarrow> (nat \<Rightarrow> bytes \<Rightarrow> (unit, 's) kop) \<Rightarrow>
    (nat \<Rightarrow> (unit, 's) kop) \<Rightarrow> (nat \<Rightarrow> (unit, 's) kop) \<Rightarrow> nat \<Rightarrow> nat \<Rightarrow> (unit, 's) kop" where
  "copy_in rd get put wr rl to from =
     andthen (rd from) (\<lambda>j. andthen (rd to) (\<lambda>i.
     andthen (get j) (\<lambda>d. andthen (put i d) (\<lambda>_. andthen (wr i) (\<lambda>_. andthen (rl j) (\<lambda>_. rl i))))))"

context block_cache
begin

lemma ran_upd_handle: "h i = None \<Longrightarrow> ran (h(i \<mapsto> b)) = insert b (ran h)"
  by simp

lemma drop_handle: "h i = None \<Longrightarrow> h(i := None) = h"
  by auto

lemma ok_card:
  assumes "ok s" and "card (insert b (ran (bs_handles (abs s)) \<union> bs_pinned (abs s))) \<le> cap"
  shows "card (ran (bs_handles (abs s)) \<union> bs_pinned (abs s) - {b}) < cap"
proof -
  have "finite (insert b (ran (bs_handles (abs s)) \<union> bs_pinned (abs s)))"
    using finite_store[OF assms(1)] by simp
  then have "card (ran (bs_handles (abs s)) \<union> bs_pinned (abs s) - {b})
      < card (insert b (ran (bs_handles (abs s)) \<union> bs_pinned (abs s)))"
    by (intro psubset_card_mono) auto
  then show ?thesis using assms(2) by simp
qed

text \<open>Opening a block, and what holds while it is open.\<close>

lemma rd_step:
  assumes "ok s" and "b < length (bs_disk (abs s))" and "b \<notin> ran (bs_handles (abs s))"
    and "card (insert b (ran (bs_handles (abs s)) \<union> bs_pinned (abs s))) \<le> cap"
    and "\<And>i s'. bs_handles (abs s) i = None \<Longrightarrow> ok s' \<Longrightarrow> frame s s' \<Longrightarrow>
      abs s' = (abs s)\<lparr>bs_handles := (bs_handles (abs s))(i \<mapsto> b)\<rparr> \<Longrightarrow> is_done (f i s') Q"
  shows "is_done (andthen (rd b) f s) Q"
  by (rule is_done_andthen, rule rd_ok[OF assms(1-3) ok_card[OF assms(1,4)]], elim conjE) (rule assms(5))

lemma read_ok:
  assumes ok: "ok s" and b: "b < length (bs_disk (abs s))" "b \<notin> ran (bs_handles (abs s))"
    and room: "card (insert b (ran (bs_handles (abs s)) \<union> bs_pinned (abs s))) \<le> cap"
  shows "is_done (read_blk rd get rl b s) (\<lambda>d s'. d = bs_view (abs s) b \<and> ok s' \<and> frame s s' \<and> abs s' = abs s)"
  unfolding read_blk_def
proof (rule rd_step[OF ok b room])
  fix i s1
  assume i: "bs_handles (abs s) i = None" and s1: "ok s1" "frame s s1"
    "abs s1 = (abs s)\<lparr>bs_handles := (bs_handles (abs s))(i \<mapsto> b)\<rparr>"
  have h: "bs_handles (abs s1) i = Some b" using s1(3) by simp
  have g: "get i s1 = Done (bs_view (abs s) b) s1" using get_ok[OF s1(1) h] s1(3) by simp
  have "is_done (rl i s1) (\<lambda>_ s'. ok s' \<and> frame s1 s' \<and>
      abs s' = (abs s1)\<lparr>bs_handles := (bs_handles (abs s1))(i := None)\<rparr>)"
    by (rule rl_ok[OF s1(1) h]) (use coherent[OF ok b] s1(3) in auto)
  then show "is_done (andthen (get i) (\<lambda>d. andthen (rl i) (\<lambda>_. ret d)) s1)
      (\<lambda>d s'. d = bs_view (abs s) b \<and> ok s' \<and> frame s s' \<and> abs s' = abs s)"
    using g s1 i frame_trans[OF s1(2)] by (auto simp: is_done_iff drop_handle)
qed

lemma put_wr:
  assumes ok: "ok s" and h: "bs_handles (abs s) i = Some b" and d: "length d = BSIZE"
    and k: "\<And>s'. ok s' \<Longrightarrow> frame s s' \<Longrightarrow> abs s' = written b d (abs s) \<Longrightarrow> is_done (f s') Q"
  shows "is_done (andthen (put i d) (\<lambda>_. andthen (wr i) (\<lambda>_. f)) s) Q"
proof (rule is_done_andthen, rule put_ok[OF ok h d], elim conjE)
  fix a s1
  assume s1: "ok s1" "frame s s1" "abs s1 = (abs s)\<lparr>bs_view := (bs_view (abs s))(b := d)\<rparr>"
  have h1: "bs_handles (abs s1) i = Some b" using s1(3) h by simp
  show "is_done (andthen (wr i) (\<lambda>_. f) s1) Q"
  proof (rule is_done_andthen, rule wr_ok[OF s1(1) h1], elim conjE)
    fix a s2
    assume s2: "ok s2" "frame s1 s2" "abs s2 = (abs s1)\<lparr>bs_disk := (bs_disk (abs s1))[b := bs_view (abs s1) b],
          bs_trace := bs_trace (abs s1) @ [(b, bs_view (abs s1) b)], bs_pinned := bs_pinned (abs s1) - {b}\<rparr>"
    show "is_done (f s2) Q"
      by (rule k[OF s2(1) frame_trans[OF s1(2) s2(2)]]) (simp add: s2(3) s1(3) written_def)
  qed
qed

lemma write_ok:
  assumes ok: "ok s" and b: "b < length (bs_disk (abs s))" "b \<notin> ran (bs_handles (abs s))"
    and room: "card (insert b (ran (bs_handles (abs s)) \<union> bs_pinned (abs s))) \<le> cap"
    and d: "length d = BSIZE"
  shows "is_done (write_blk rd put wr rl b d s) (\<lambda>_ s'. ok s' \<and> frame s s' \<and> abs s' = written b d (abs s))"
  unfolding write_blk_def
proof (rule rd_step[OF ok b room])
  fix i s1
  assume i: "bs_handles (abs s) i = None" and s1: "ok s1" "frame s s1"
    "abs s1 = (abs s)\<lparr>bs_handles := (bs_handles (abs s))(i \<mapsto> b)\<rparr>"
  have h: "bs_handles (abs s1) i = Some b" using s1(3) by simp
  show "is_done (andthen (put i d) (\<lambda>_. andthen (wr i) (\<lambda>_. rl i)) s1)
     (\<lambda>_ s'. ok s' \<and> frame s s' \<and> abs s' = written b d (abs s))"
  proof (rule put_wr[OF s1(1) h d])
    fix s2 assume s2: "ok s2" "frame s1 s2" "abs s2 = written b d (abs s1)"
    have h2: "bs_handles (abs s2) i = Some b" using s2(3) h by (simp add: written_def)
    have "is_done (rl i s2) (\<lambda>_ s'. ok s' \<and> frame s2 s' \<and>
        abs s' = (abs s2)\<lparr>bs_handles := (bs_handles (abs s2))(i := None)\<rparr>)"
      by (rule rl_ok[OF s2(1) h2]) (use s2(3) s1(3) b in \<open>simp add: written_def\<close>)
    then show "is_done (rl i s2) (\<lambda>_ s'. ok s' \<and> frame s s' \<and> abs s' = written b d (abs s))"
      using s1(3) s2(3) i frame_trans[OF frame_trans[OF s1(2) s2(2)]]
      by (auto simp: is_done_iff drop_handle written_def)
  qed
qed

lemma copy_tail:
  assumes ok: "ok s" and i: "bs_handles (abs s) i = Some t" and j: "bs_handles (abs s) j = Some f"
    and ne: "t \<noteq> f" and f: "f \<in> bs_pinned (abs s) \<or> bs_view (abs s) f = bs_disk (abs s) ! f"
  shows "is_done (andthen (get j) (\<lambda>d. andthen (put i d) (\<lambda>_. andthen (wr i) (\<lambda>_. andthen (rl j) (\<lambda>_. rl i)))) s)
    (\<lambda>_ s'. ok s' \<and> frame s s' \<and> abs s' = (written t (bs_view (abs s) f) (abs s))
       \<lparr>bs_handles := (bs_handles (abs s))(j := None, i := None)\<rparr>)" (is "is_done _ ?Q")
proof -
  have g: "get j s = Done (bs_view (abs s) f) s" by (rule get_ok[OF ok j])
  have len: "length (bs_view (abs s) f) = BSIZE" by (rule view_length[OF ok handle_range[OF ok j]])
  have ij: "i \<noteq> j" using i j ne by auto
  have t: "t < length (bs_disk (abs s))" by (rule handle_range[OF ok i])
  have "is_done (andthen (put i (bs_view (abs s) f)) (\<lambda>_. andthen (wr i) (\<lambda>_. andthen (rl j) (\<lambda>_. rl i))) s) ?Q"
  proof (rule put_wr[OF ok i len])
    fix s1 assume s1: "ok s1" "frame s s1" "abs s1 = written t (bs_view (abs s) f) (abs s)"
    have j1: "bs_handles (abs s1) j = Some f" and i1: "bs_handles (abs s1) i = Some t"
      using s1(3) i j by (simp_all add: written_def)
    show "is_done (andthen (rl j) (\<lambda>_. rl i) s1) ?Q"
    proof (rule is_done_andthen, rule rl_ok[OF s1(1) j1], goal_cases)
      case 1
      then show ?case using f ne s1(3) by (simp add: written_def)
    next
      case (2 x s2)
      have i2: "bs_handles (abs s2) i = Some t" using 2 i1 ij by simp
      have c2: "bs_view (abs s2) t = bs_disk (abs s2) ! t" using 2 s1(3) t by (simp add: written_def)
      have "is_done (rl i s2) (\<lambda>_ s'. ok s' \<and> frame s2 s' \<and>
          abs s' = (abs s2)\<lparr>bs_handles := (bs_handles (abs s2))(i := None)\<rparr>)"
        by (rule rl_ok) (use 2 i2 c2 in auto)
      then show ?case
        using 2 s1 frame_trans[OF frame_trans[OF s1(2)]] by (auto simp: is_done_iff written_def)
    qed
  qed
  then show ?thesis by (simp add: g)
qed

lemma drop_two: "h i = None \<Longrightarrow> h j = None \<Longrightarrow> h(i := None, j := None) = h"
  by auto

lemma copy_out_ok:
  assumes ok: "ok s" and t: "t < length (bs_disk (abs s))" "t \<notin> ran (bs_handles (abs s))"
    and f: "f < length (bs_disk (abs s))" "f \<notin> ran (bs_handles (abs s))" and ne: "t \<noteq> f"
    and room: "card (insert t (insert f (ran (bs_handles (abs s)) \<union> bs_pinned (abs s)))) \<le> cap"
  shows "is_done (copy_out rd get put wr rl t f s)
    (\<lambda>_ s'. ok s' \<and> frame s s' \<and> abs s' = written t (bs_view (abs s) f) (abs s))"
  unfolding copy_out_def
proof (rule rd_step[OF ok t])
  have fin: "finite (insert t (insert f (ran (bs_handles (abs s)) \<union> bs_pinned (abs s))))"
    using finite_store[OF ok] by simp
  show "card (insert t (ran (bs_handles (abs s)) \<union> bs_pinned (abs s))) \<le> cap"
    by (rule le_trans[OF card_mono[OF fin] room]) auto
  fix i s1
  assume i: "bs_handles (abs s) i = None" and s1: "ok s1" "frame s s1"
    "abs s1 = (abs s)\<lparr>bs_handles := (bs_handles (abs s))(i \<mapsto> t)\<rparr>"
  show "is_done (andthen (rd f) (\<lambda>j. andthen (get j) (\<lambda>d. andthen (put i d) (\<lambda>_. andthen (wr i)
      (\<lambda>_. andthen (rl j) (\<lambda>_. rl i))))) s1)
    (\<lambda>_ s'. ok s' \<and> frame s s' \<and> abs s' = written t (bs_view (abs s) f) (abs s))"
  proof (rule rd_step[OF s1(1)])
    show "f < length (bs_disk (abs s1))" "f \<notin> ran (bs_handles (abs s1))"
      using f ne s1(3) i by auto
    show "card (insert f (ran (bs_handles (abs s1)) \<union> bs_pinned (abs s1))) \<le> cap"
      using room s1(3) i by (simp add: insert_commute)
    fix j s2
    assume j: "bs_handles (abs s1) j = None" and s2: "ok s2" "frame s1 s2"
      "abs s2 = (abs s1)\<lparr>bs_handles := (bs_handles (abs s1))(j \<mapsto> f)\<rparr>"
    have ij: "i \<noteq> j" and j': "bs_handles (abs s) j = None" using j s1(3) by (auto split: if_splits)
    have "is_done (andthen (get j) (\<lambda>d. andthen (put i d) (\<lambda>_. andthen (wr i) (\<lambda>_. andthen (rl j) (\<lambda>_. rl i)))) s2)
      (\<lambda>_ s'. ok s' \<and> frame s2 s' \<and> abs s' = (written t (bs_view (abs s2) f) (abs s2))
       \<lparr>bs_handles := (bs_handles (abs s2))(j := None, i := None)\<rparr>)"
      by (rule copy_tail[OF s2(1) _ _ ne]) (use s1(3) s2(3) ij coherent[OF ok f] in auto)
    then show "is_done (andthen (get j) (\<lambda>d. andthen (put i d) (\<lambda>_. andthen (wr i) (\<lambda>_. andthen (rl j) (\<lambda>_. rl i)))) s2)
      (\<lambda>_ s'. ok s' \<and> frame s s' \<and> abs s' = written t (bs_view (abs s) f) (abs s))"
      using s1 s2 i j' ij frame_trans[OF frame_trans[OF s1(2) s2(2)]]
      by (auto simp: is_done_iff written_def drop_two fun_upd_twist)
  qed
qed

lemma copy_in_ok:
  assumes ok: "ok s" and t: "t < length (bs_disk (abs s))" "t \<notin> ran (bs_handles (abs s))"
    and f: "f < length (bs_disk (abs s))" "f \<notin> ran (bs_handles (abs s))" and ne: "t \<noteq> f"
    and room: "card (insert t (insert f (ran (bs_handles (abs s)) \<union> bs_pinned (abs s)))) \<le> cap"
  shows "is_done (copy_in rd get put wr rl t f s)
    (\<lambda>_ s'. ok s' \<and> frame s s' \<and> abs s' = written t (bs_view (abs s) f) (abs s))"
  unfolding copy_in_def
proof (rule rd_step[OF ok f])
  have fin: "finite (insert t (insert f (ran (bs_handles (abs s)) \<union> bs_pinned (abs s))))"
    using finite_store[OF ok] by simp
  show "card (insert f (ran (bs_handles (abs s)) \<union> bs_pinned (abs s))) \<le> cap"
    by (rule le_trans[OF card_mono[OF fin] room]) auto
  fix j s1
  assume j: "bs_handles (abs s) j = None" and s1: "ok s1" "frame s s1"
    "abs s1 = (abs s)\<lparr>bs_handles := (bs_handles (abs s))(j \<mapsto> f)\<rparr>"
  show "is_done (andthen (rd t) (\<lambda>i. andthen (get j) (\<lambda>d. andthen (put i d) (\<lambda>_. andthen (wr i)
      (\<lambda>_. andthen (rl j) (\<lambda>_. rl i))))) s1)
    (\<lambda>_ s'. ok s' \<and> frame s s' \<and> abs s' = written t (bs_view (abs s) f) (abs s))"
  proof (rule rd_step[OF s1(1)])
    show "t < length (bs_disk (abs s1))" "t \<notin> ran (bs_handles (abs s1))"
      using t ne s1(3) j by auto
    show "card (insert t (ran (bs_handles (abs s1)) \<union> bs_pinned (abs s1))) \<le> cap"
      using room s1(3) j by simp
    fix i s2
    assume i: "bs_handles (abs s1) i = None" and s2: "ok s2" "frame s1 s2"
      "abs s2 = (abs s1)\<lparr>bs_handles := (bs_handles (abs s1))(i \<mapsto> t)\<rparr>"
    have ij: "i \<noteq> j" and i': "bs_handles (abs s) i = None" using i s1(3) by (auto split: if_splits)
    have "is_done (andthen (get j) (\<lambda>d. andthen (put i d) (\<lambda>_. andthen (wr i) (\<lambda>_. andthen (rl j) (\<lambda>_. rl i)))) s2)
      (\<lambda>_ s'. ok s' \<and> frame s2 s' \<and> abs s' = (written t (bs_view (abs s2) f) (abs s2))
       \<lparr>bs_handles := (bs_handles (abs s2))(j := None, i := None)\<rparr>)"
      by (rule copy_tail[OF s2(1) _ _ ne]) (use s1(3) s2(3) ij coherent[OF ok f] in auto)
    then show "is_done (andthen (get j) (\<lambda>d. andthen (put i d) (\<lambda>_. andthen (wr i) (\<lambda>_. andthen (rl j) (\<lambda>_. rl i)))) s2)
      (\<lambda>_ s'. ok s' \<and> frame s s' \<and> abs s' = written t (bs_view (abs s) f) (abs s))"
      using s1 s2 j i' ij frame_trans[OF frame_trans[OF s1(2) s2(2)]]
      by (auto simp: is_done_iff written_def drop_two fun_upd_twist)
  qed
qed

end

section \<open>Initialisation\<close>

definition fresh_buf :: "buf \<Rightarrow> bool" where
  "fresh_buf r \<longleftrightarrow> \<not> b_busy r \<and> \<not> b_valid r \<and> \<not> b_dirty r \<and> length (b_data r) = BSIZE"

definition binit_inv :: "'a bio_scheme \<Rightarrow> nat \<Rightarrow> 'a bio_scheme \<Rightarrow> bool" where
  "binit_inv s0 k s \<longleftrightarrow> quiet s \<and> cpu s = cpu s0 \<and> procs s = procs s0 \<and> memdisk s = memdisk s0 \<and> length (bufs s) = Suc NBUF \<and>
     (\<forall>i<Suc NBUF. fresh_buf (bufs s ! i)) \<and> (\<forall>i<k. b_dev (bufs s ! i) = NODEV) \<and>
     seg (nxs (bufs s)) (pvs (bufs s)) HEAD (rev [0..<k]) HEAD"

lemma binit_step:
  assumes inv: "binit_inv s0 k s" and k: "k < NBUF"
  shows "is_done (
       andthen (with_buf HEAD (\<lambda>h. upd_buf k (\<lambda>r. r\<lparr>b_next := b_next h\<rparr>))) (\<lambda>_.
       andthen (upd_buf k (\<lambda>r. r\<lparr>b_prev := HEAD\<rparr>)) (\<lambda>_.
       andthen (upd_buf k (\<lambda>r. r\<lparr>b_dev := NODEV\<rparr>)) (\<lambda>_.
       andthen (with_buf HEAD (\<lambda>h. upd_buf (b_next h) (\<lambda>r. r\<lparr>b_prev := k\<rparr>))) (\<lambda>_.
       upd_buf HEAD (\<lambda>h. h\<lparr>b_next := k\<rparr>))))) s) (\<lambda>_. binit_inv s0 (Suc k))"
proof -
  define bs where "bs = bufs s"
  have len: "length bs = Suc NBUF" and sg: "seg (nxs bs) (pvs bs) HEAD (rev [0..<k]) HEAD"
    and fr: "\<And>i. i < Suc NBUF \<Longrightarrow> fresh_buf (bs ! i)" and dv: "\<And>i. i < k \<Longrightarrow> b_dev (bs ! i) = NODEV"
    using inv by (auto simp: binit_inv_def bs_def)
  have h: "HEAD < length bs" and kl: "k < length bs" and kh: "k \<noteq> HEAD"
    using len k by (auto simp: HEAD_def)
  define m where "m = b_next (bs ! HEAD)"
  have m: "m \<in> insert HEAD (set (rev [0..<k]))"
    using seg_next[OF sg] by (cases "rev [0..<k]") (auto simp: m_def nxs_def)
  then have ml: "m < length bs" and mk: "m \<noteq> k" using len k kh by (auto simp: HEAD_def)
  define r where "r = (bs ! k)\<lparr>b_next := m, b_prev := HEAD, b_dev := NODEV\<rparr>"
  define bs1 where "bs1 = bs[k := r]"
  define bs2 where "bs2 = bs1[m := (bs1 ! m)\<lparr>b_prev := k\<rparr>]"
  define bs3 where "bs3 = bs2[HEAD := (bs2 ! HEAD)\<lparr>b_next := k\<rparr>]"
  have l: "length bs1 = length bs" "length bs2 = length bs" "length bs3 = length bs"
    by (simp_all add: bs1_def bs2_def bs3_def)
  have m1: "b_next (bs1 ! HEAD) = m" using kh by (simp add: bs1_def m_def)
  have f3: "nxs bs3 = (nxs bs)(k := m, HEAD := k)" "pvs bs3 = (pvs bs)(k := HEAD, m := k)"
  proof -
    have n1: "nxs bs1 = (nxs bs)(k := m)" "pvs bs1 = (pvs bs)(k := HEAD)"
      using kl by (simp_all add: bs1_def r_def)
    have n2: "nxs bs2 = nxs bs1" "pvs bs2 = (pvs bs1)(m := k)"
      using ml by (simp_all add: bs2_def l fun_upd_same nxs_def)
    have n3: "nxs bs3 = (nxs bs2)(HEAD := k)" "pvs bs3 = pvs bs2"
      using h by (simp_all add: bs3_def l fun_upd_same pvs_def)
    show "nxs bs3 = (nxs bs)(k := m, HEAD := k)" "pvs bs3 = (pvs bs)(k := HEAD, m := k)"
      by (simp_all add: n1 n2 n3)
  qed
  have "seg (nxs bs3) (pvs bs3) HEAD (k # rev [0..<k]) HEAD"
    using seg_push[OF sg, of k] k kh unfolding f3 by (simp add: m_def nxs_def HEAD_def)
  moreover have "fresh_buf (bs3 ! i)" if "i < Suc NBUF" for i
    using fr[OF that] fr[of k] fr[of m] fr[of HEAD] that kl ml h len l k
    by (auto simp: bs3_def bs2_def bs1_def nth_list_update fresh_buf_def r_def HEAD_def)
  moreover have "b_dev (bs3 ! i) = NODEV" if "i < Suc k" for i
    using dv[of i] that kl ml h l mk kh k
    by (auto simp: bs3_def bs2_def bs1_def nth_list_update r_def HEAD_def less_Suc_eq)
  ultimately have "binit_inv s0 (Suc k) (s\<lparr>bufs := bs3\<rparr>)"
    using inv len l by (simp add: binit_inv_def)
  moreover have "with_buf HEAD (\<lambda>h. upd_buf k (\<lambda>r. r\<lparr>b_next := b_next h\<rparr>)) s
      = Done () (s\<lparr>bufs := bs[k := (bs ! k)\<lparr>b_next := m\<rparr>]\<rparr>)"
    using h kl by (simp add: bs_def m_def)
  moreover have "upd_buf k (\<lambda>r. r\<lparr>b_prev := HEAD\<rparr>) (s\<lparr>bufs := bs[k := (bs ! k)\<lparr>b_next := m\<rparr>]\<rparr>)
      = Done () (s\<lparr>bufs := bs[k := (bs ! k)\<lparr>b_next := m, b_prev := HEAD\<rparr>]\<rparr>)"
    using kl by simp
  moreover have "upd_buf k (\<lambda>r. r\<lparr>b_dev := NODEV\<rparr>) (s\<lparr>bufs := bs[k := (bs ! k)\<lparr>b_next := m, b_prev := HEAD\<rparr>]\<rparr>)
      = Done () (s\<lparr>bufs := bs1\<rparr>)"
    using kl by (simp add: bs1_def r_def)
  moreover have "with_buf HEAD (\<lambda>h. upd_buf (b_next h) (\<lambda>r. r\<lparr>b_prev := k\<rparr>)) (s\<lparr>bufs := bs1\<rparr>)
      = Done () (s\<lparr>bufs := bs2\<rparr>)"
    using h ml l m1 by (simp add: bs2_def)
  moreover have "upd_buf HEAD (\<lambda>h. h\<lparr>b_next := k\<rparr>) (s\<lparr>bufs := bs2\<rparr>) = Done () (s\<lparr>bufs := bs3\<rparr>)"
    using h l by (simp add: bs3_def)
  ultimately show ?thesis by (simp only: andthen_Done is_done.simps)
qed

lemma binit_ok:
  assumes "quiet s" and "length (bufs s) = Suc NBUF" and "\<forall>i<Suc NBUF. fresh_buf (bufs s ! i)"
    and "\<forall>d\<in>set (memdisk s). length d = BSIZE"
  shows "is_done (binit s) (\<lambda>_ s'. lru (bufs s') (rev [0..<NBUF]) \<and> bio_ok s' \<and> memdisk s' = memdisk s \<and>
    chandles (bufs s') = (\<lambda>_. None) \<and> cpinned (bufs s') = {} \<and> (\<forall>i<NBUF. b_dev (bufs s' ! i) = NODEV) \<and>
    cpu s' = cpu s \<and> procs s' = procs s)"
proof -
  have il: "initlock BcacheLk s = Done () s"
    using assms(1) by (simp add: initlock_def quiet_def fun_upd_same)
  have h: "HEAD < length (bufs s)" using assms(2) by (simp add: HEAD_def)
  define t where "t = s\<lparr>bufs := (bufs s)[HEAD := (bufs s ! HEAD)\<lparr>b_prev := HEAD, b_next := HEAD\<rparr>]\<rparr>"
  have t: "binit_inv s 0 t"
    using assms h by (auto simp: binit_inv_def t_def nth_list_update fresh_buf_def nxs_def pvs_def)
  let ?body = "\<lambda>b. andthen (with_buf HEAD (\<lambda>h. upd_buf b (\<lambda>r. r\<lparr>b_next := b_next h\<rparr>))) (\<lambda>_.
       andthen (upd_buf b (\<lambda>r. r\<lparr>b_prev := HEAD\<rparr>)) (\<lambda>_.
       andthen (upd_buf b (\<lambda>r. r\<lparr>b_dev := NODEV\<rparr>)) (\<lambda>_.
       andthen (with_buf HEAD (\<lambda>h. upd_buf (b_next h) (\<lambda>r. r\<lparr>b_prev := b\<rparr>))) (\<lambda>_.
       upd_buf HEAD (\<lambda>h. h\<lparr>b_next := b\<rparr>)))))"
  have "is_done (for_each [0..<NBUF] ?body t) (\<lambda>_. binit_inv s NBUF)"
    by (rule for_each_upt_rule[where I = "binit_inv s", OF t]) (use binit_step[of s] in auto)
  moreover have "binit s = for_each [0..<NBUF] ?body t"
    using il h by (simp add: binit_def t_def)
  moreover have "lru (bufs s') (rev [0..<NBUF]) \<and> bio_ok s' \<and> memdisk s' = memdisk s \<and>
    chandles (bufs s') = (\<lambda>_. None) \<and> cpinned (bufs s') = {} \<and> (\<forall>i<NBUF. b_dev (bufs s' ! i) = NODEV) \<and>
    cpu s' = cpu s \<and> procs s' = procs s" if b: "binit_inv s NBUF s'" for s'
  proof -
    have l: "lru (bufs s') (rev [0..<NBUF])" using b by (auto simp: binit_inv_def lru_def)
    have f: "fresh_buf (bufs s' ! i)" "b_dev (bufs s' ! i) = NODEV" if "i < NBUF" for i
      using b that by (auto simp: binit_inv_def)
    then have "cache_ok (bufs s') (memdisk s')"
      using l b assms(4) unfolding cache_ok_def
      by (auto simp: fresh_buf_def NODEV_def binit_inv_def)
    then show ?thesis
      using l b f by (auto simp: bio_ok_def binit_inv_def chandles_def cpinned_def fresh_buf_def)
  qed
  ultimately show ?thesis by (auto simp: is_done_iff)
qed

section \<open>Properties\<close>

text \<open>A client that reads and overwrites blocks, on the cache and on a plain array of blocks.\<close>

datatype bop = ReadB nat | WriteB nat bytes

fun cached_run :: "bop list \<Rightarrow> (bytes list, 'a bio_scheme) kop" where
  "cached_run [] = ret []"
| "cached_run (ReadB b # ops) =
     andthen (read_blk (bread 1) get_data brelse b) (\<lambda>d.
     andthen (cached_run ops) (\<lambda>ds. ret (d # ds)))"
| "cached_run (WriteB b d # ops) =
     andthen (write_blk (bread 1) set_data bwrite brelse b d) (\<lambda>_. cached_run ops)"

fun plain_run :: "bop list \<Rightarrow> bytes list \<Rightarrow> bytes list \<times> bytes list" where
  "plain_run [] dk = ([], dk)"
| "plain_run (ReadB b # ops) dk = (let (ds, dk') = plain_run ops dk in (dk ! b # ds, dk'))"
| "plain_run (WriteB b d # ops) dk = plain_run ops (dk[b := d])"

fun bop_ok :: "nat \<Rightarrow> bop \<Rightarrow> bool" where
  "bop_ok n (ReadB b) = (b < n)"
| "bop_ok n (WriteB b d) = (b < n \<and> length d = BSIZE)"

text \<open>
  C2: the cache is transparent.  Starting with no buffer busy or dirty, any sequence of block reads and
  block writes through \<open>bread\<close>, \<open>bwrite\<close> and \<open>brelse\<close> runs without panic, sleep or endless loop, returns
  exactly what the same sequence returns on a plain array of blocks, and leaves the disk as that array.
\<close>

theorem cache_transparent:
  assumes "bio_ok s" and "chandles (bufs s) = (\<lambda>_. None)" and "cpinned (bufs s) = {}"
    and "\<forall>p\<in>set ops. bop_ok (length (memdisk s)) p"
  shows "\<exists>s'. cached_run ops s = Done (fst (plain_run ops (memdisk s))) s' \<and>
     memdisk s' = snd (plain_run ops (memdisk s)) \<and> bio_ok s'"
  using assms
proof (induction ops arbitrary: s)
  case Nil
  then show ?case by simp
next
  case (Cons p ops)
  have ab: "bs_handles (bstore_of s) = (\<lambda>_. None)" "bs_pinned (bstore_of s) = {}" "bs_disk (bstore_of s) = memdisk s"
    using Cons.prems by (simp_all add: bstore_of_def)
  have room: "card (insert b (ran (bs_handles (bstore_of s)) \<union> bs_pinned (bstore_of s))) \<le> NBUF" for b
    using ab by (simp add: NBUF_def MAXOPBLOCKS_def ran_def)
  have nr: "b \<notin> ran (bs_handles (bstore_of s))" for b using ab by (simp add: ran_def)
  show ?case
  proof (cases p)
    case (ReadB b)
    have b: "b < length (bs_disk (bstore_of s))" using Cons.prems(4) ReadB ab by simp
    have "bs_view (bstore_of s) b = memdisk s ! b"
      using bc.coherent[OF Cons.prems(1) b nr] ab by simp
    then obtain s1 where s1: "read_blk (bread 1) get_data brelse b s = Done (memdisk s ! b) s1" "bio_ok s1"
      "bstore_of s1 = bstore_of s"
      using bc.read_ok[OF Cons.prems(1) b nr room] by (auto simp: is_done_iff)
    then have "chandles (bufs s1) = (\<lambda>_. None)" "cpinned (bufs s1) = {}" "memdisk s1 = memdisk s"
      using Cons.prems by (simp_all add: bstore_of_def)
    then show ?thesis
      using Cons.IH[OF s1(2)] Cons.prems(4) s1(1) ReadB by (auto simp: split_beta)
  next
    case (WriteB b d)
    have b: "b < length (bs_disk (bstore_of s))" and d: "length d = BSIZE" using Cons.prems(4) WriteB ab by auto
    obtain s1 where s1: "write_blk (bread 1) set_data bwrite brelse b d s = Done () s1" "bio_ok s1"
      "bstore_of s1 = written b d (bstore_of s)"
      using bc.write_ok[OF Cons.prems(1) b nr room d] by (auto simp: is_done_iff)
    then have "chandles (bufs s1) = (\<lambda>_. None)" "cpinned (bufs s1) = {}" "memdisk s1 = (memdisk s)[b := d]"
      using Cons.prems by (simp_all add: bstore_of_def written_def)
    then show ?thesis
      using Cons.IH[OF s1(2)] Cons.prems(4) s1(1) WriteB by auto
  qed
qed

definition buf0 :: buf where
  "buf0 = \<lparr>b_busy = False, b_valid = False, b_dirty = False, b_dev = 0, b_blockno = 0, b_prev = 0,
     b_next = 0, b_data = replicate BSIZE 0\<rparr>"

definition bio_demo :: bio where
  "bio_demo = kmem.extend kmem_demo
     (bio.fields (replicate (Suc NBUF) buf0) (replicate 50 (replicate BSIZE 0)) [])"

lemma bio_demo_sel [simp]:
  "bufs bio_demo = replicate (Suc NBUF) buf0" "memdisk bio_demo = replicate 50 (replicate BSIZE 0)"
  "dtrace bio_demo = []" "quiet bio_demo" "cpu bio_demo = cpu ptab_demo" "procs bio_demo = procs ptab_demo"
  by (simp_all add: bio_demo_def kmem.defs bio.defs quiet_def kmem_demo_def ptab.defs ptab_demo_def)

text \<open>The state after booting with that disk.\<close>

definition bio_booted :: bio where
  "bio_booted = (case binit bio_demo of Done _ s \<Rightarrow> s | _ \<Rightarrow> bio_demo)"

lemma bio_booted_ok:
  "bio_ok bio_booted" "memdisk bio_booted = replicate 50 (replicate BSIZE 0)"
  "chandles (bufs bio_booted) = (\<lambda>_. None)" "cpinned (bufs bio_booted) = {}"
  "lru (bufs bio_booted) (rev [0..<NBUF])" "\<And>i. i < NBUF \<Longrightarrow> b_dev (bufs bio_booted ! i) = NODEV"
  "cpu bio_booted = cpu bio_demo" "procs bio_booted = procs bio_demo"
proof -
  have "is_done (binit bio_demo) (\<lambda>_ s'. lru (bufs s') (rev [0..<NBUF]) \<and> bio_ok s' \<and>
      memdisk s' = memdisk bio_demo \<and> chandles (bufs s') = (\<lambda>_. None) \<and> cpinned (bufs s') = {} \<and>
      (\<forall>i<NBUF. b_dev (bufs s' ! i) = NODEV) \<and> cpu s' = cpu bio_demo \<and> procs s' = procs bio_demo)"
    by (rule binit_ok) (auto simp: fresh_buf_def buf0_def simp del: replicate_Suc)
  then show "bio_ok bio_booted" "memdisk bio_booted = replicate 50 (replicate BSIZE 0)"
    "chandles (bufs bio_booted) = (\<lambda>_. None)" "cpinned (bufs bio_booted) = {}"
    "lru (bufs bio_booted) (rev [0..<NBUF])" "\<And>i. i < NBUF \<Longrightarrow> b_dev (bufs bio_booted ! i) = NODEV"
    "cpu bio_booted = cpu bio_demo" "procs bio_booted = procs bio_demo"
    by (auto simp: is_done_iff bio_booted_def)
qed

theorem cache_transparent_witness:
  "\<exists>s'. cached_run [WriteB 3 (replicate BSIZE 7), ReadB 3, ReadB 4] bio_booted =
     Done [replicate BSIZE 7, replicate BSIZE 0] s'"
  using cache_transparent[of bio_booted "[WriteB 3 (replicate BSIZE 7), ReadB 3, ReadB 4]"] bio_booted_ok
  by auto

lemma find_rev_split:
  "find P (rev xs) = Some i \<Longrightarrow> \<exists>us vs. xs = us @ i # vs \<and> P i \<and> (\<forall>j\<in>set vs. \<not> P j)"
proof (induction xs rule: rev_induct)
  case (snoc x xs)
  show ?case
  proof (cases "P x")
    case True
    then have "xs @ [x] = xs @ i # [] \<and> P i \<and> (\<forall>j\<in>set []. \<not> P j)" using snoc.prems by simp
    then show ?thesis by blast
  next
    case False
    then obtain us vs where "xs = us @ i # vs" "P i" "\<forall>j\<in>set vs. \<not> P j"
      using snoc by auto
    then have "xs @ [x] = us @ i # (vs @ [x]) \<and> P i \<and> (\<forall>j\<in>set (vs @ [x]). \<not> P j)"
      using False by simp
    then show ?thesis by blast
  qed
qed simp



end
