(* ===== verification/Crash.thy ===== *)
theory Crash
  imports Log
begin

text \<open>
  Correctness of the log of \<^verbatim>\<open>log.c\<close> under crashes.

  The effect of \<open>write_log\<close>, \<open>write_head\<close>, \<open>install_trans\<close> and \<open>commit\<close> on the block store is a sequence of
  block writes (\<open>bwrites\<close>); \<open>commit_ok\<close> gives the sequence of a whole commit, \<open>recover_ok\<close> and
  \<open>initlog_ok\<close> that of recovery from any header that fits.  \<open>prefix_disk\<close> computes the disk after every
  prefix of the writes of a commit, and \<open>commit_crash_atomic\<close> puts them together.
\<close>

section \<open>Header encoding\<close>

lemma s32_u32: "0 \<le> i \<Longrightarrow> i < 2 ^ 31 \<Longrightarrow> s32 (u32 i) = i"
  by (simp add: s32_def u32_def)

lemma u32_less: "u32 i < 2 ^ 32"
  by (simp add: u32_def nat_less_iff)

lemma fold_wr32:
  assumes "n \<le> m"
  shows "length (fold (\<lambda>i d. wr32 d (4 + 4 * i) (f i)) [0..<n] d) = length d"
    and "4 + 4 * m \<le> length d \<Longrightarrow> k < n \<Longrightarrow>
      rd32 (fold (\<lambda>i d. wr32 d (4 + 4 * i) (f i)) [0..<n] d) (4 + 4 * k) = f k mod 2 ^ 32"
    and "rd32 (fold (\<lambda>i d. wr32 d (4 + 4 * i) (f i)) [0..<n] d) 0 = rd32 d 0"
proof -
  show len: "length (fold (\<lambda>i d. wr32 d (4 + 4 * i) (f i)) [0..<n] d) = length d" for n
    by (induction n) simp_all
  show "rd32 (fold (\<lambda>i d. wr32 d (4 + 4 * i) (f i)) [0..<n] d) 0 = rd32 d 0"
    by (induction n) (simp_all add: rd_wr)
  show "rd32 (fold (\<lambda>i d. wr32 d (4 + 4 * i) (f i)) [0..<n] d) (4 + 4 * k) = f k mod 2 ^ 32"
    if "4 + 4 * m \<le> length d" "k < n"
    using assms that(2)
  proof (induction n)
    case 0
    then show ?case by simp
  next
    case (Suc n)
    show ?case
    proof (cases "k = n")
      case True
      then show ?thesis using Suc.prems that(1) by (simp add: rd32_wr32 len)
    next
      case False
      then have "k < n" using Suc.prems(2) by simp
      then show ?thesis using Suc.IH Suc.prems(1) by (simp add: rd32_wr32_other)
    qed
  qed
qed

lemma enc_head_length [simp]: "length (enc_head n bl d) = length d"
  by (simp add: enc_head_def fold_wr32(1)[OF order_refl])

text \<open>What \<open>read_head\<close> decodes from a header block.\<close>

definition dec_n :: "bytes \<Rightarrow> int" where "dec_n d = s32 (rd32 d 0)"

definition dec_blocks :: "bytes \<Rightarrow> nat list" where
  "dec_blocks d = map (\<lambda>k. rd32 d (4 + 4 * k)) [0..<nat (dec_n d)]"

lemma dec_enc_head:
  assumes "length d = BSIZE" and "0 \<le> n" and "nat n \<le> LOGSIZE" and "nat n \<le> length bl"
    and "\<forall>b\<in>set (take (nat n) bl). b < 2 ^ 32"
  shows "dec_n (enc_head n bl d) = n" and "dec_blocks (enc_head n bl d) = take (nat n) bl"
proof -
  have l: "LOGSIZE = 30" "BSIZE = 512" by (simp_all add: LOGSIZE_def MAXOPBLOCKS_def BSIZE_def)
  have len: "4 + 4 * nat n \<le> length (wr32 d 0 (u32 n))" using assms(1,3) l by simp
  have "rd32 (enc_head n bl d) 0 = u32 n"
    using assms(1) l u32_less[of n] by (simp add: enc_head_def fold_wr32(3)[OF order_refl] rd32_wr32)
  then show n: "dec_n (enc_head n bl d) = n"
    using assms(2,3) l s32_u32[of n] by (simp add: dec_n_def)
  show "dec_blocks (enc_head n bl d) = take (nat n) bl"
  proof (rule nth_equalityI)
    show "length (dec_blocks (enc_head n bl d)) = length (take (nat n) bl)"
      using assms(4) by (simp add: dec_blocks_def n)
    fix k assume "k < length (dec_blocks (enc_head n bl d))"
    then have k: "k < nat n" by (simp add: dec_blocks_def n)
    then have "bl ! k \<in> set (take (nat n) bl)" using assms(4) by (metis in_set_conv_nth length_take min.absorb2 nth_take)
    then have "bl ! k mod 2 ^ 32 = bl ! k" using assms(5) by simp
    then show "dec_blocks (enc_head n bl d) ! k = take (nat n) bl ! k"
      using k fold_wr32(2)[OF order_refl len k, of "\<lambda>i. bl ! i"]
      by (simp add: dec_blocks_def n) (simp add: enc_head_def)
  qed
qed

section \<open>Sequences of block writes\<close>

definition apply_writes :: "(nat \<times> bytes) list \<Rightarrow> bytes list \<Rightarrow> bytes list" where
  "apply_writes ws dk = fold (\<lambda>(b, d) dk. dk[b := d]) ws dk"

definition bwrites :: "(nat \<times> bytes) list \<Rightarrow> bstore \<Rightarrow> bstore" where
  "bwrites ws a = fold (\<lambda>(b, d). written b d) ws a"

lemma apply_writes_simps [simp]:
  "apply_writes [] dk = dk" "apply_writes (w # ws) dk = apply_writes ws (dk[fst w := snd w])"
  "apply_writes (ws @ ws') dk = apply_writes ws' (apply_writes ws dk)"
  "length (apply_writes ws dk) = length dk"
proof -
  show "apply_writes [] dk = dk" "apply_writes (w # ws) dk = apply_writes ws (dk[fst w := snd w])"
    "apply_writes (ws @ ws') dk = apply_writes ws' (apply_writes ws dk)"
    by (simp_all add: apply_writes_def split_beta)
  show "length (apply_writes ws dk) = length dk"
    by (induction ws arbitrary: dk) (auto simp: apply_writes_def split_beta)
qed

lemma apply_writes_other:
  "b \<notin> fst ` set ws \<Longrightarrow> apply_writes ws dk ! b = dk ! b"
  by (induction ws arbitrary: dk) auto

lemma apply_writes_last:
  "b < length dk \<Longrightarrow> b \<notin> fst ` set ws' \<Longrightarrow> apply_writes (ws @ (b, d) # ws') dk ! b = d"
  by (simp add: apply_writes_other)

text \<open>Writes to different blocks: each block ends with its own data.\<close>

lemma apply_writes_distinct:
  "distinct (map fst ws) \<Longrightarrow> (b, d) \<in> set ws \<Longrightarrow> b < length dk \<Longrightarrow> apply_writes ws dk ! b = d"
proof (induction ws arbitrary: dk)
  case Nil
  then show ?case by simp
next
  case (Cons w ws)
  then show ?case by (cases "w = (b, d)") (auto simp: apply_writes_other)
qed

lemma bwrites_simps [simp]:
  "bwrites [] a = a" "bwrites (w # ws) a = bwrites ws (written (fst w) (snd w) a)"
  "bwrites (ws @ ws') a = bwrites ws' (bwrites ws a)"
  by (simp_all add: bwrites_def split_beta)

lemma bwrites_sel [simp]:
  "bs_handles (bwrites ws a) = bs_handles a" "bs_disk (bwrites ws a) = apply_writes ws (bs_disk a)"
  "bs_trace (bwrites ws a) = bs_trace a @ ws" "bs_pinned (bwrites ws a) = bs_pinned a - fst ` set ws"
  by (induction ws arbitrary: a) (auto simp: written_def)

lemma bwrites_view_other: "b \<notin> fst ` set ws \<Longrightarrow> bs_view (bwrites ws a) b = bs_view a b"
  by (induction ws arbitrary: a) (auto simp: written_def)

lemma bwrites_view_last: "b \<notin> fst ` set ws' \<Longrightarrow> bs_view (bwrites (ws @ (b, d) # ws') a) b = d"
  by (simp add: bwrites_view_other) (simp add: written_def)

lemma bwrites_view_distinct:
  "distinct (map fst ws) \<Longrightarrow> (b, d) \<in> set ws \<Longrightarrow> bs_view (bwrites ws a) b = d"
proof (induction ws arbitrary: a)
  case Nil
  then show ?case by simp
next
  case (Cons w ws)
  then show ?case by (cases "w = (b, d)") (auto simp: bwrites_view_other written_def)
qed

section \<open>The steps of a commit\<close>

lemma bio_frame_log:
  assumes "bio_frame s (s' :: 'a log_scheme)"
  shows "log_start s' = log_start s" "log_size s' = log_size s" "log_outstanding s' = log_outstanding s"
    "log_committing s' = log_committing s" "log_dev s' = log_dev s" "lh_n s' = lh_n s" "lh_block s' = lh_block s"
proof -
  have e: "s' = s\<lparr>procs := procs s', bufs := bufs s', memdisk := memdisk s', dtrace := dtrace s'\<rparr>"
    using assms by (simp add: bio_frame_def)
  show "log_start s' = log_start s" "log_size s' = log_size s" "log_outstanding s' = log_outstanding s"
    "log_committing s' = log_committing s" "log_dev s' = log_dev s" "lh_n s' = lh_n s" "lh_block s' = lh_block s"
    by (subst e, simp)+
qed

lemma log_upd_bio [simp]:
  "bio_ok (s\<lparr>lh_n := n\<rparr>) = bio_ok s" "bio_ok (s\<lparr>lh_block := bl\<rparr>) = bio_ok s"
  "bio_ok (s\<lparr>log_start := x\<rparr>) = bio_ok s" "bio_ok (s\<lparr>log_size := x\<rparr>) = bio_ok s" "bio_ok (s\<lparr>log_dev := x\<rparr>) = bio_ok s"
  "bstore_of (s\<lparr>lh_n := n\<rparr>) = bstore_of s" "bstore_of (s\<lparr>lh_block := bl\<rparr>) = bstore_of s"
  "bstore_of (s\<lparr>log_start := x\<rparr>) = bstore_of s" "bstore_of (s\<lparr>log_size := x\<rparr>) = bstore_of s"
  "bstore_of (s\<lparr>log_dev := x\<rparr>) = bstore_of s"
  "bio_ok (s\<lparr>log_outstanding := o'\<rparr>) = bio_ok s" "bio_ok (s\<lparr>log_committing := c\<rparr>) = bio_ok s"
  "bstore_of (s\<lparr>log_outstanding := o'\<rparr>) = bstore_of s" "bstore_of (s\<lparr>log_committing := c\<rparr>) = bstore_of s"
  by (simp_all add: bio_ok_def bstore_of_def)

text \<open>The logged blocks.\<close>

definition logged :: "'a log_scheme \<Rightarrow> nat list" where
  "logged s = take (nat (lh_n s)) (lh_block s)"

text \<open>
  \<open>copy_ready s\<close>: this process holds no buffer, the \<open>n\<close> logged blocks and the first \<open>n\<close> blocks of the log
  area are different blocks of the disk, and the cache has a free buffer for a copy.
\<close>

definition copy_ready :: "'a log_scheme \<Rightarrow> bool" where
  "copy_ready s \<longleftrightarrow> bio_ok s \<and> log_dev s = 1 \<and> chandles (bufs s) = (\<lambda>_. None) \<and>
     nat (lh_n s) \<le> length (lh_block s) \<and>
     log_start s + nat (lh_n s) < length (memdisk s) \<and>
     (\<forall>b\<in>set (logged s). b < length (memdisk s) \<and> (b < log_start s \<or> log_start s + nat (lh_n s) < b)) \<and>
     card (cpinned (bufs s)) < NBUF \<and> (\<forall>b\<in>set (logged s). card (insert b (cpinned (bufs s))) < NBUF)"

definition log_copies :: "'a log_scheme \<Rightarrow> (nat \<times> bytes) list" where
  "log_copies s = map (\<lambda>i. (log_start s + i + 1, bs_view (bstore_of s) (lh_block s ! i))) [0..<nat (lh_n s)]"

definition home_copies :: "'a log_scheme \<Rightarrow> (nat \<times> bytes) list" where
  "home_copies s = map (\<lambda>i. (lh_block s ! i, bs_view (bstore_of s) (log_start s + i + 1))) [0..<nat (lh_n s)]"

lemma copy_readyD:
  assumes "copy_ready s" and "i < nat (lh_n s)"
  shows "i < length (lh_block s)" "lh_block s ! i \<in> set (logged s)" "lh_block s ! i < length (memdisk s)"
    "j < nat (lh_n s) \<Longrightarrow> lh_block s ! i \<noteq> log_start s + j + 1" "lh_block s ! i \<noteq> log_start s"
    "log_start s + i + 1 < length (memdisk s)"
proof -
  show il: "i < length (lh_block s)" using assms by (simp add: copy_ready_def)
  then have "i < length (logged s)" "logged s ! i = lh_block s ! i" using assms(2) by (simp_all add: logged_def)
  then show m: "lh_block s ! i \<in> set (logged s)" using nth_mem by metis
  then show "lh_block s ! i < length (memdisk s)" using assms(1) by (simp add: copy_ready_def)
  have d: "lh_block s ! i < log_start s \<or> log_start s + nat (lh_n s) < lh_block s ! i"
    using assms(1) m by (simp add: copy_ready_def)
  show "lh_block s ! i \<noteq> log_start s + j + 1" if "j < nat (lh_n s)" using that d by auto
  show "lh_block s ! i \<noteq> log_start s" using d by auto
  show "log_start s + i + 1 < length (memdisk s)" using assms by (simp add: copy_ready_def)
qed

lemma copy_room:
  assumes "copy_ready s" and "i < nat (lh_n s)" and "P \<subseteq> cpinned (bufs s)"
  shows "card (insert (lh_block s ! i) (insert f P)) \<le> NBUF"
proof -
  let ?b = "lh_block s ! i"
  have fin: "finite (insert ?b (cpinned (bufs s)))"
    using finite_cache[of "bufs s"] by simp
  have "card (insert ?b (insert f P)) \<le> card (insert f (insert ?b (cpinned (bufs s))))"
    by (rule card_mono) (use fin assms(3) in auto)
  also have "\<dots> \<le> Suc (card (insert ?b (cpinned (bufs s))))"
    using card_insert_if[OF fin] by simp
  also have "\<dots> \<le> NBUF" using assms(1) copy_readyD(2)[OF assms(1,2)] by (simp add: copy_ready_def Suc_le_eq)
  finally show ?thesis .
qed

lemma fst_map_upt: "fst ` set (map (\<lambda>i. (f i, g i)) [0..<k]) = f ` {..<k}"
  by (auto simp: image_image)

lemma write_log_ok:
  assumes r: "copy_ready s"
  shows "is_done (write_log s) (\<lambda>_ s'. bio_ok s' \<and> bio_frame s s' \<and>
     bstore_of s' = bwrites (log_copies s) (bstore_of s))"
proof -
  let ?n = "nat (lh_n s)" and ?V = "bs_view (bstore_of s)"
  let ?ws = "\<lambda>k. map (\<lambda>i. (log_start s + i + 1, ?V (lh_block s ! i))) [0..<k]"
  define I where "I k s' \<longleftrightarrow> bio_ok s' \<and> bio_frame s s' \<and> bstore_of s' = bwrites (?ws k) (bstore_of s)" for k s'
  have nh: "bs_handles (bstore_of s) = (\<lambda>_. None)" using r by (simp add: copy_ready_def bstore_of_def)
  have "is_done (for_each [0..<?n] (\<lambda>tail s. if tail < length (lh_block s)
       then copy_out (bread (log_dev s)) get_data set_data bwrite brelse (log_start s + tail + 1) (lh_block s ! tail) s
       else Fault) s) (\<lambda>_. I ?n)"
  proof (rule for_each_upt_rule)
    show "I 0 s" using r by (simp add: I_def copy_ready_def bio_frame_refl)
    fix k s1 assume I: "I k s1" and k: "k < ?n"
    note fr = bio_frame_log[of s s1] and b = copy_readyD[OF r k]
    have s1: "bio_ok s1" "bio_frame s s1" "bstore_of s1 = bwrites (?ws k) (bstore_of s)"
      using I by (auto simp: I_def)
    have dl: "length (bs_disk (bstore_of s1)) = length (memdisk s)" using s1(3) by (simp add: bstore_of_def)
    have nh1: "bs_handles (bstore_of s1) = (\<lambda>_. None)" using s1(3) nh by simp
    have ne: "lh_block s ! k \<notin> (\<lambda>i. log_start s + i + 1) ` {..<k}"
    proof
      assume "lh_block s ! k \<in> (\<lambda>i. log_start s + i + 1) ` {..<k}"
      then obtain i where "i < k" "lh_block s ! k = log_start s + i + 1" by blast
      then show False using b(4)[of i] k by simp
    qed
    have v: "bs_view (bstore_of s1) (lh_block s ! k) = ?V (lh_block s ! k)"
      unfolding s1(3) by (rule bwrites_view_other) (simp only: fst_map_upt ne not_False_eq_True)
    have "is_done (copy_out (bread 1) get_data set_data bwrite brelse (log_start s + k + 1) (lh_block s ! k) s1)
      (\<lambda>_ s'. bio_ok s' \<and> bio_frame s1 s' \<and>
        bstore_of s' = written (log_start s + k + 1) (bs_view (bstore_of s1) (lh_block s ! k)) (bstore_of s1))"
    proof (rule bc.copy_out_ok[OF s1(1)])
      have "bs_pinned (bstore_of s1) \<subseteq> cpinned (bufs s)" unfolding s1(3) by (auto simp: bstore_of_def)
      then show "card (insert (log_start s + k + 1) (insert (lh_block s ! k)
          (ran (bs_handles (bstore_of s1)) \<union> bs_pinned (bstore_of s1)))) \<le> NBUF"
        unfolding insert_commute[of "log_start s + k + 1"] using copy_room[OF r k] nh1 by simp
    qed (use b dl nh1 b(4)[OF k] in \<open>auto simp del: add_Suc_right\<close>)
    then show "is_done (if k < length (lh_block s1)
       then copy_out (bread (log_dev s1)) get_data set_data bwrite brelse (log_start s1 + k + 1) (lh_block s1 ! k) s1
       else Fault) (\<lambda>_. I (Suc k))"
      using fr[OF s1(2)] b(1) r s1(3) v bio_frame_trans[OF s1(2)]
      by (auto simp: I_def is_done_iff copy_ready_def)
  qed simp
  then show ?thesis by (simp add: write_log_def I_def[abs_def] log_copies_def)
qed

lemma install_trans_ok:
  assumes r: "copy_ready s"
  shows "is_done (install_trans s) (\<lambda>_ s'. bio_ok s' \<and> bio_frame s s' \<and>
     bstore_of s' = bwrites (home_copies s) (bstore_of s))"
proof -
  let ?n = "nat (lh_n s)" and ?V = "bs_view (bstore_of s)"
  let ?ws = "\<lambda>k. map (\<lambda>i. (lh_block s ! i, ?V (log_start s + i + 1))) [0..<k]"
  define I where "I k s' \<longleftrightarrow> bio_ok s' \<and> bio_frame s s' \<and> bstore_of s' = bwrites (?ws k) (bstore_of s)" for k s'
  have nh: "bs_handles (bstore_of s) = (\<lambda>_. None)" using r by (simp add: copy_ready_def bstore_of_def)
  have "is_done (for_each [0..<?n] (\<lambda>tail s. if tail < length (lh_block s)
       then copy_in (bread (log_dev s)) get_data set_data bwrite brelse (lh_block s ! tail) (log_start s + tail + 1) s
       else Fault) s) (\<lambda>_. I ?n)"
  proof (rule for_each_upt_rule)
    show "I 0 s" using r by (simp add: I_def copy_ready_def bio_frame_refl)
    fix k s1 assume I: "I k s1" and k: "k < ?n"
    note fr = bio_frame_log[of s s1] and b = copy_readyD[OF r k]
    have s1: "bio_ok s1" "bio_frame s s1" "bstore_of s1 = bwrites (?ws k) (bstore_of s)"
      using I by (auto simp: I_def)
    have dl: "length (bs_disk (bstore_of s1)) = length (memdisk s)" using s1(3) by (simp add: bstore_of_def)
    have nh1: "bs_handles (bstore_of s1) = (\<lambda>_. None)" using s1(3) nh by simp
    have ne: "log_start s + k + 1 \<notin> (\<lambda>i. lh_block s ! i) ` {..<k}"
    proof
      assume "log_start s + k + 1 \<in> (\<lambda>i. lh_block s ! i) ` {..<k}"
      then obtain i where "i < k" "log_start s + k + 1 = lh_block s ! i" by blast
      then show False using copy_readyD(4)[OF r, of i k] k by simp
    qed
    have v: "bs_view (bstore_of s1) (log_start s + k + 1) = ?V (log_start s + k + 1)"
      unfolding s1(3) by (rule bwrites_view_other) (simp only: fst_map_upt ne not_False_eq_True)
    have "is_done (copy_in (bread 1) get_data set_data bwrite brelse (lh_block s ! k) (log_start s + k + 1) s1)
      (\<lambda>_ s'. bio_ok s' \<and> bio_frame s1 s' \<and>
        bstore_of s' = written (lh_block s ! k) (bs_view (bstore_of s1) (log_start s + k + 1)) (bstore_of s1))"
    proof (rule bc.copy_in_ok[OF s1(1)])
      have "bs_pinned (bstore_of s1) \<subseteq> cpinned (bufs s)" unfolding s1(3) by (auto simp: bstore_of_def)
      then show "card (insert (lh_block s ! k) (insert (log_start s + k + 1)
          (ran (bs_handles (bstore_of s1)) \<union> bs_pinned (bstore_of s1)))) \<le> NBUF"
        using copy_room[OF r k] nh1 by simp
    qed (use b dl nh1 b(4)[OF k] in \<open>auto simp del: add_Suc_right\<close>)
    then show "is_done (if k < length (lh_block s1)
       then copy_in (bread (log_dev s1)) get_data set_data bwrite brelse (lh_block s1 ! k) (log_start s1 + k + 1) s1
       else Fault) (\<lambda>_. I (Suc k))"
      using fr[OF s1(2)] b(1) r s1(3) v bio_frame_trans[OF s1(2)]
      by (auto simp: I_def is_done_iff copy_ready_def)
  qed simp
  then show ?thesis by (simp add: install_trans_def I_def[abs_def] home_copies_def)
qed

lemma write_head_ok:
  assumes ok: "bio_ok s" "log_dev s = 1" "chandles (bufs s) = (\<lambda>_. None)" "log_start s < length (memdisk s)"
    and room: "card (insert (log_start s) (cpinned (bufs s))) \<le> NBUF"
  shows "is_done (write_head s) (\<lambda>_ s'. bio_ok s' \<and> bio_frame s s' \<and>
     bstore_of s' = written (log_start s) (enc_head (lh_n s) (lh_block s) (bs_view (bstore_of s) (log_start s))) (bstore_of s))"
proof -
  let ?h = "bs_handles (bstore_of s)" and ?b = "log_start s"
  let ?d = "enc_head (lh_n s) (lh_block s) (bs_view (bstore_of s) ?b)"
  have nh: "?h = (\<lambda>_. None)" using ok(3) by (simp add: bstore_of_def)
  have dl: "?b < length (bs_disk (bstore_of s))" using ok(4) by (simp add: bstore_of_def)
  have w: "is_done (write_blk (bread 1) set_data bwrite brelse ?b ?d s)
      (\<lambda>_ s'. bio_ok s' \<and> bio_frame s s' \<and> bstore_of s' = written ?b ?d (bstore_of s))"
    by (rule bc.write_ok[OF ok(1) dl]) (use nh room bc.view_length[OF ok(1) dl] in \<open>auto simp: bstore_of_def\<close>)
  have g: "get_data i s1 = Done (bs_view (bstore_of s) ?b) s1" if "bread 1 ?b s = Done i s1" for i s1
  proof -
    have "is_done (bread 1 ?b s) (\<lambda>i s'. ?h i = None \<and> bio_ok s' \<and> bio_frame s s' \<and>
        bstore_of s' = (bstore_of s)\<lparr>bs_handles := ?h(i \<mapsto> ?b)\<rparr>)"
      by (rule bc.rd_ok[OF ok(1) dl]) (use nh room bc.ok_card[OF ok(1), of ?b] in \<open>auto simp: bstore_of_def\<close>)
    then show ?thesis using that bc.get_ok[of s1 i ?b] by simp
  qed
  have "write_head s = write_blk (bread 1) set_data bwrite brelse ?b ?d s"
    unfolding write_head_def write_blk_def ok(2) using g
    by (auto simp: andthen_def split: outcome.splits)
  then show ?thesis using w by simp
qed

lemma apply_writes_fun:
  "\<forall>w\<in>set ws. snd w = v (fst w) \<Longrightarrow> b < length dk \<Longrightarrow>
   apply_writes ws dk ! b = (if b \<in> fst ` set ws then v b else dk ! b)"
  by (induction ws arbitrary: dk) (auto simp: nth_list_update)

lemma frame_log_upd:
  assumes "bio_frame s t"
  shows "bio_frame (s\<lparr>lh_n := n\<rparr>) (t\<lparr>lh_n := n\<rparr>)" "bio_frame (s\<lparr>lh_block := bl\<rparr>) (t\<lparr>lh_block := bl\<rparr>)"
    "bio_frame (s\<lparr>log_outstanding := z\<rparr>) (t\<lparr>log_outstanding := z\<rparr>)"
proof -
  have e: "t = s\<lparr>procs := procs t, bufs := bufs t, memdisk := memdisk t, dtrace := dtrace t\<rparr>"
    and w: "list_all2 woken (procs s) (procs t)"
    using assms by (auto simp: bio_frame_def)
  have c: "s\<lparr>procs := p, bufs := b, memdisk := m, dtrace := d, lh_n := n\<rparr> =
      s\<lparr>lh_n := n, procs := p, bufs := b, memdisk := m, dtrace := d\<rparr>"
    "s\<lparr>procs := p, bufs := b, memdisk := m, dtrace := d, lh_block := bl\<rparr> =
      s\<lparr>lh_block := bl, procs := p, bufs := b, memdisk := m, dtrace := d\<rparr>"
    "s\<lparr>procs := p, bufs := b, memdisk := m, dtrace := d, log_outstanding := z\<rparr> =
      s\<lparr>log_outstanding := z, procs := p, bufs := b, memdisk := m, dtrace := d\<rparr>" for p b m d
    by (rule log.equality; simp)+
  have "t\<lparr>lh_n := n\<rparr> = s\<lparr>lh_n := n, procs := procs t, bufs := bufs t, memdisk := memdisk t, dtrace := dtrace t\<rparr>"
    "t\<lparr>lh_block := bl\<rparr> = s\<lparr>lh_block := bl, procs := procs t, bufs := bufs t, memdisk := memdisk t, dtrace := dtrace t\<rparr>"
    "t\<lparr>log_outstanding := z\<rparr> = s\<lparr>log_outstanding := z, procs := procs t, bufs := bufs t, memdisk := memdisk t, dtrace := dtrace t\<rparr>"
    unfolding c[symmetric] by (subst e, rule refl)+
  then show "bio_frame (s\<lparr>lh_n := n\<rparr>) (t\<lparr>lh_n := n\<rparr>)" "bio_frame (s\<lparr>lh_block := bl\<rparr>) (t\<lparr>lh_block := bl\<rparr>)"
    "bio_frame (s\<lparr>log_outstanding := z\<rparr>) (t\<lparr>log_outstanding := z\<rparr>)"
    using w by (simp_all add: bio_frame_def)
qed

lemma copy_ready_step:
  assumes r: "copy_ready s" and s': "bio_ok s'" "bio_frame s s'"
    and h: "bs_handles (bstore_of s') = bs_handles (bstore_of s)"
    and p: "bs_pinned (bstore_of s') \<subseteq> bs_pinned (bstore_of s)"
    and l: "length (bs_disk (bstore_of s')) = length (bs_disk (bstore_of s))"
  shows "copy_ready s'"
proof -
  have fr: "logged s' = logged s" "log_start s' = log_start s" "log_dev s' = log_dev s" "lh_n s' = lh_n s"
    "lh_block s' = lh_block s"
    using bio_frame_log[OF s'(2)] by (simp_all add: logged_def)
  have sub: "cpinned (bufs s') \<subseteq> cpinned (bufs s)" using p by (simp add: bstore_of_def)
  have c: "card (insert b (cpinned (bufs s'))) \<le> card (insert b (cpinned (bufs s)))"
    "card (cpinned (bufs s')) \<le> card (cpinned (bufs s))" for b
    by (rule card_mono; use sub finite_cache[of "bufs s"] in auto)+
  show ?thesis
    using r s'(1) h l le_less_trans[OF c(1)] le_less_trans[OF c(2)]
    unfolding copy_ready_def fr by (auto simp: bstore_of_def)
qed

lemma head_room: "copy_ready s \<Longrightarrow> card (insert x (cpinned (bufs s))) \<le> NBUF"
proof -
  assume r: "copy_ready s"
  have "card (insert x (cpinned (bufs s))) \<le> Suc (card (cpinned (bufs s)))"
    using finite_cache[of "bufs s"] by (simp add: card_insert_if)
  then show ?thesis using r by (simp add: copy_ready_def)
qed

text \<open>The header blocks a commit writes, and all its writes in order.\<close>

definition head_new :: "'a log_scheme \<Rightarrow> bytes" where
  "head_new s = enc_head (lh_n s) (lh_block s) (bs_view (bstore_of s) (log_start s))"

definition head_clear :: "'a log_scheme \<Rightarrow> bytes" where
  "head_clear s = enc_head 0 (lh_block s) (head_new s)"

definition home_writes :: "'a log_scheme \<Rightarrow> (nat \<times> bytes) list" where
  "home_writes s = map (\<lambda>b. (b, bs_view (bstore_of s) b)) (logged s)"

definition commit_writes :: "'a log_scheme \<Rightarrow> (nat \<times> bytes) list" where
  "commit_writes s = log_copies s @ [(log_start s, head_new s)] @ home_writes s @ [(log_start s, head_clear s)]"

lemma log_area_image: "log_start s \<notin> fst ` set (log_copies s)"
  "b < log_start s \<or> log_start s + nat (lh_n s) < b \<Longrightarrow> b \<notin> fst ` set (log_copies s)"
  by (auto simp: log_copies_def)

lemma home_image: "copy_ready s \<Longrightarrow> log_start s \<notin> fst ` set (home_writes s)"
  by (auto simp: home_writes_def copy_ready_def)

lemma bwrites_log_copy:
  assumes "i < nat (lh_n s)"
  shows "bs_view (bwrites (log_copies s) a) (log_start s + i + 1) = bs_view (bstore_of s) (lh_block s ! i)"
  by (rule bwrites_view_distinct)
    (use assms in \<open>auto simp: log_copies_def comp_def distinct_map inj_on_def\<close>)

lemma commit_ok:
  assumes r: "copy_ready s" and n: "0 < lh_n s"
  shows "is_done (commit s) (\<lambda>_ s'. bio_ok s' \<and> bio_frame (s\<lparr>lh_n := 0\<rparr>) s' \<and>
     bstore_of s' = bwrites (commit_writes s) (bstore_of s))"
proof -
  let ?a = "bstore_of s" and ?st = "log_start s"
  have "is_done (andthen write_log (\<lambda>_. andthen write_head (\<lambda>_. andthen install_trans (\<lambda>_.
      andthen (modify (\<lambda>s. s\<lparr>lh_n := 0\<rparr>)) (\<lambda>_. write_head)))) s) (\<lambda>_ s'. bio_ok s' \<and>
      bio_frame (s\<lparr>lh_n := 0\<rparr>) s' \<and> bstore_of s' = bwrites (commit_writes s) ?a)" (is "is_done _ ?Q")
  proof (rule is_done_andthen, rule write_log_ok[OF r], elim conjE)
    fix x s1 assume s1: "bio_ok s1" "bio_frame s s1" "bstore_of s1 = bwrites (log_copies s) ?a"
    note f1 = bio_frame_log[OF s1(2)]
    have r1: "copy_ready s1"
      by (rule copy_ready_step[OF r s1(1,2)]) (auto simp: s1(3))
    have v1: "bs_view (bstore_of s1) ?st = bs_view ?a ?st"
      unfolding s1(3) by (rule bwrites_view_other) (rule log_area_image)
    show "is_done (andthen write_head (\<lambda>_. andthen install_trans (\<lambda>_.
      andthen (modify (\<lambda>s. s\<lparr>lh_n := 0\<rparr>)) (\<lambda>_. write_head))) s1) ?Q"
    proof (rule is_done_andthen, rule write_head_ok, goal_cases)
      case (6 x s2)
      then have s2: "bio_ok s2" "bio_frame s1 s2" "bstore_of s2 = written ?st (head_new s) (bstore_of s1)"
        by (auto simp: f1 v1 head_new_def)
      note f2 = bio_frame_log[OF s2(2)]
      have r2: "copy_ready s2"
        by (rule copy_ready_step[OF r1 s2(1,2)]) (auto simp: s2(3) written_def)
      have hc: "home_copies s2 = home_writes s"
      proof (rule nth_equalityI)
        show "length (home_copies s2) = length (home_writes s)"
          using r by (simp add: home_copies_def home_writes_def logged_def f1 f2 copy_ready_def)
        fix i assume "i < length (home_copies s2)"
        then have i: "i < nat (lh_n s)" by (simp add: home_copies_def f1 f2)
        have "bs_view (bstore_of s2) (?st + i + 1) = bs_view ?a (lh_block s ! i)"
          using bwrites_log_copy[OF i, of ?a] by (simp add: s2(3) s1(3) written_def)
        then show "home_copies s2 ! i = home_writes s ! i"
          using i copy_readyD(1)[OF r i] by (simp add: home_copies_def home_writes_def logged_def f1 f2)
      qed
      show ?case
      proof (rule is_done_andthen, rule install_trans_ok[OF r2], elim conjE)
        fix x s3 assume s3: "bio_ok s3" "bio_frame s2 s3" "bstore_of s3 = bwrites (home_copies s2) (bstore_of s2)"
        note f3 = bio_frame_log[OF s3(2)]
        have r3: "copy_ready s3"
          by (rule copy_ready_step[OF r2 s3(1,2)]) (auto simp: s3(3))
        have v3: "bs_view (bstore_of s3) ?st = head_new s"
          unfolding s3(3) hc by (subst bwrites_view_other) (use home_image[OF r] in \<open>simp_all add: s2(3) written_def\<close>)
        have fr: "bio_frame (s\<lparr>lh_n := 0\<rparr>) (s3\<lparr>lh_n := 0\<rparr>)"
          by (rule frame_log_upd(1)) (use bio_frame_trans s1(2) s2(2) s3(2) in blast)
        have "is_done (write_head (s3\<lparr>lh_n := 0\<rparr>)) (\<lambda>_ s'. bio_ok s' \<and> bio_frame (s3\<lparr>lh_n := 0\<rparr>) s' \<and>
          bstore_of s' = written (log_start (s3\<lparr>lh_n := 0\<rparr>)) (enc_head (lh_n (s3\<lparr>lh_n := 0\<rparr>)) (lh_block (s3\<lparr>lh_n := 0\<rparr>))
            (bs_view (bstore_of (s3\<lparr>lh_n := 0\<rparr>)) (log_start (s3\<lparr>lh_n := 0\<rparr>)))) (bstore_of (s3\<lparr>lh_n := 0\<rparr>)))"
          by (rule write_head_ok) (use r3 head_room[OF r3] in \<open>auto simp: copy_ready_def\<close>)
        then show "is_done (andthen (modify (\<lambda>s. s\<lparr>lh_n := 0\<rparr>)) (\<lambda>_. write_head) s3) ?Q"
          using bio_frame_trans[OF fr] v3
          by (auto simp: is_done_iff f1 f2 f3 s3(3) hc s2(3) s1(3) commit_writes_def head_clear_def)
      qed
    qed (use r1 head_room[OF r1] in \<open>auto simp: copy_ready_def\<close>)
  qed
  then show ?thesis using n by (simp add: commit_def)
qed

section \<open>Recovery\<close>

lemma read_head_ok:
  assumes ok: "bio_ok s" "log_dev s = 1" "chandles (bufs s) = (\<lambda>_. None)" "cpinned (bufs s) = {}"
    "log_start s < length (memdisk s)"
    and n: "nat (dec_n (memdisk s ! log_start s)) \<le> LOGSIZE"
  shows "is_done (read_head s) (\<lambda>_ s'. bio_ok s' \<and> bstore_of s' = bstore_of s \<and>
     (\<exists>n bl. n = dec_n (memdisk s ! log_start s) \<and>
       bl = dec_blocks (memdisk s ! log_start s) @ drop (nat n) (lh_block s) \<and>
       bio_frame (s\<lparr>lh_n := n, lh_block := bl\<rparr>) s'))"
proof -
  let ?b = "log_start s" and ?d = "memdisk s ! log_start s"
  have nh: "bs_handles (bstore_of s) = (\<lambda>_. None)" "bs_pinned (bstore_of s) = {}"
    "bs_disk (bstore_of s) = memdisk s" using ok by (simp_all add: bstore_of_def)
  have dl: "?b < length (bs_disk (bstore_of s))" "?b \<notin> ran (bs_handles (bstore_of s))"
    using ok(5) nh by (simp_all add: ran_def)
  have v: "bs_view (bstore_of s) ?b = ?d" using bc.coherent[OF ok(1) dl] nh by simp
  show ?thesis
    unfolding read_head_def ok(2)
  proof (rule bc.rd_step[OF ok(1) dl])
    show "card (insert ?b (ran (bs_handles (bstore_of s)) \<union> bs_pinned (bstore_of s))) \<le> NBUF"
      using nh by (simp add: NBUF_def MAXOPBLOCKS_def ran_def)
    fix i s1
    assume i: "bs_handles (bstore_of s) i = None" and s1: "bio_ok s1" "bio_frame s s1"
      "bstore_of s1 = (bstore_of s)\<lparr>bs_handles := (bs_handles (bstore_of s))(i \<mapsto> ?b)\<rparr>"
    have g: "get_data i s1 = Done ?d s1"
      using bc.get_ok[OF s1(1), of i ?b] s1(3) v by simp
    define n where "n = dec_n ?d"
    define bl where "bl = dec_blocks ?d @ drop (nat n) (lh_block s)"
    have lb: "lh_block s1 = lh_block s" using bio_frame_log[OF s1(2)] by simp
    let ?s2 = "s1\<lparr>lh_n := n, lh_block := bl\<rparr>"
    have fr: "bio_frame (s\<lparr>lh_n := n, lh_block := bl\<rparr>) ?s2"
      by (intro frame_log_upd s1(2))
    have "is_done (brelse i ?s2) (\<lambda>_ s'. bio_ok s' \<and> bio_frame ?s2 s' \<and>
        bstore_of s' = (bstore_of ?s2)\<lparr>bs_handles := (bs_handles (bstore_of ?s2))(i := None)\<rparr>)"
      by (rule bc.rl_ok) (use s1 v nh in auto)
    then show "is_done (andthen (get_data i) (\<lambda>d. let n = s32 (rd32 d 0) in
       andthen (modify (\<lambda>s. s\<lparr>lh_n := n\<rparr>)) (\<lambda>_.
       andthen (if LOGSIZE < nat n then fault
              else modify (\<lambda>s. s\<lparr>lh_block := map (\<lambda>k. rd32 d (4 + 4 * k)) [0..<nat n] @ drop (nat n) (lh_block s)\<rparr>)) (\<lambda>_.
       brelse i))) s1) (\<lambda>_ s'. bio_ok s' \<and> bstore_of s' = bstore_of s \<and>
     (\<exists>n bl. n = dec_n (memdisk s ! log_start s) \<and>
       bl = dec_blocks (memdisk s ! log_start s) @ drop (nat n) (lh_block s) \<and>
       bio_frame (s\<lparr>lh_n := n, lh_block := bl\<rparr>) s'))"
      using n s1(3) i bio_frame_trans[OF fr]
      by (auto simp: g is_done_iff Let_def dec_n_def[symmetric] n_def[symmetric] lb
          dec_blocks_def[of ?d, folded n_def, symmetric] bl_def[symmetric] bc.drop_handle not_less)
  qed
qed

text \<open>\<open>log_fits dk st\<close>: the header in block \<open>st\<close> of the disk describes a log that fits: its entries are
  blocks of the disk outside the log blocks they are paired with.\<close>

definition log_fits :: "bytes list \<Rightarrow> nat \<Rightarrow> bool" where
  "log_fits dk st \<longleftrightarrow> (let n = nat (dec_n (dk ! st)) in
     n \<le> LOGSIZE \<and> st + n < length dk \<and>
     (\<forall>b\<in>set (dec_blocks (dk ! st)). b < length dk \<and> (b < st \<or> st + n < b)))"

definition replay_writes :: "bytes list \<Rightarrow> nat \<Rightarrow> (nat \<times> bytes) list" where
  "replay_writes dk st = map (\<lambda>i. (dec_blocks (dk ! st) ! i, dk ! (st + i + 1))) [0..<nat (dec_n (dk ! st))]"

text \<open>\<open>idle s\<close>: no buffer is busy or dirty.\<close>

definition idle :: "'a bio_scheme \<Rightarrow> bool" where
  "idle s \<longleftrightarrow> bio_ok s \<and> chandles (bufs s) = (\<lambda>_. None) \<and> cpinned (bufs s) = {}"

lemma idle_view: "idle s \<Longrightarrow> b < length (memdisk s) \<Longrightarrow> bs_view (bstore_of s) b = memdisk s ! b"
  using bc.coherent[of s b] by (simp add: idle_def bstore_of_def ran_def)

lemma recover_ok:
  assumes r: "idle s" "log_dev s = 1" "length (lh_block s) = LOGSIZE"
    and fits: "log_fits (memdisk s) (log_start s)"
  shows "is_done (recover_from_log s) (\<lambda>_ s'. bio_ok s' \<and> lh_n s' = 0 \<and> log_start s' = log_start s \<and>
     log_size s' = log_size s \<and> log_dev s' = 1 \<and> (\<exists>bl. bstore_of s' = bwrites (replay_writes (memdisk s) (log_start s) @
        [(log_start s, enc_head 0 bl (memdisk s ! log_start s))]) (bstore_of s)))"
proof -
  let ?d = "memdisk s ! log_start s" and ?st = "log_start s" and ?a = "bstore_of s"
  let ?Q = "\<lambda>_ s'. bio_ok s' \<and> lh_n s' = 0 \<and> log_start s' = log_start s \<and>
     log_size s' = log_size s \<and> log_dev s' = 1 \<and> (\<exists>bl. bstore_of s' = bwrites (replay_writes (memdisk s) ?st @
        [(?st, enc_head 0 bl ?d)]) ?a)"
  define n where "n = dec_n ?d"
  define B where "B = dec_blocks ?d"
  have lB: "length B = nat n" by (simp add: B_def n_def dec_blocks_def)
  have f: "nat n \<le> LOGSIZE" "?st + nat n < length (memdisk s)"
    "\<And>b. b \<in> set B \<Longrightarrow> b < length (memdisk s) \<and> (b < ?st \<or> ?st + nat n < b)"
    using fits by (auto simp: log_fits_def Let_def n_def B_def)
  have ok: "bio_ok s" "chandles (bufs s) = (\<lambda>_. None)" "cpinned (bufs s) = {}" using r(1) by (auto simp: idle_def)
  show ?thesis
    unfolding recover_from_log_def
  proof (rule is_done_andthen, rule read_head_ok[OF ok(1) r(2) ok(2,3)], goal_cases)
    case 1
    then show ?case using f(2) by simp
  next
    case 2
    then show ?case using f(1) by (simp add: n_def)
  next
    case (3 x s1)
    define bl where "bl = B @ drop (nat n) (lh_block s)"
    have s1: "bio_ok s1" "bstore_of s1 = ?a" "bio_frame (s\<lparr>lh_n := n, lh_block := bl\<rparr>) s1"
      using 3 by (auto simp: n_def B_def bl_def)
    note f1 = bio_frame_log[OF s1(3)]
    have md1: "memdisk s1 = memdisk s" "chandles (bufs s1) = (\<lambda>_. None)" "cpinned (bufs s1) = {}"
      using s1(2) ok by (simp_all add: bstore_of_def)
    have lg: "logged s1 = B" using f1 lB f(1) by (simp add: logged_def bl_def)
    have len: "length bl = LOGSIZE" using lB f(1) r(3) by (simp add: bl_def)
    have r1: "copy_ready s1"
      using s1(1) f1 r(2) md1 lg len f lB
      by (auto simp: copy_ready_def NBUF_def MAXOPBLOCKS_def LOGSIZE_def)
    have hc: "home_copies s1 = replay_writes (memdisk s) ?st"
    proof -
      have "bl ! i = B ! i \<and> bs_view ?a (?st + i + 1) = memdisk s ! (?st + i + 1)" if "i < nat n" for i
        using that lB f(2) idle_view[OF r(1), of "?st + i + 1"] by (simp add: bl_def nth_append)
      then show ?thesis
        by (auto simp: home_copies_def replay_writes_def f1 s1(2) n_def[symmetric] B_def[symmetric])
    qed
    have st: "?st \<notin> fst ` set (replay_writes (memdisk s) ?st)"
      using f(3) lB nth_mem[of _ B] unfolding replay_writes_def n_def[symmetric] B_def[symmetric]
      by (force simp: image_image)
    show ?case
    proof (rule is_done_andthen, rule install_trans_ok[OF r1], elim conjE)
      fix x s2 assume s2: "bio_ok s2" "bio_frame s1 s2" "bstore_of s2 = bwrites (home_copies s1) (bstore_of s1)"
      note f2 = bio_frame_log[OF s2(2)]
      have r2: "copy_ready s2" by (rule copy_ready_step[OF r1 s2(1,2)]) (auto simp: s2(3))
      let ?t = "s2\<lparr>lh_n := 0\<rparr>"
      have v: "bs_view (bstore_of s2) ?st = ?d"
        unfolding s2(3) hc s1(2) by (subst bwrites_view_other[OF st]) (use idle_view[OF r(1)] f(2) in simp)
      have "is_done (write_head ?t) (\<lambda>_ s'. bio_ok s' \<and> bio_frame ?t s' \<and>
          bstore_of s' = written (log_start ?t) (enc_head (lh_n ?t) (lh_block ?t)
            (bs_view (bstore_of ?t) (log_start ?t))) (bstore_of ?t))"
        by (rule write_head_ok) (use r2 head_room[OF r2] in \<open>auto simp: copy_ready_def\<close>)
      then show "is_done (andthen (modify (\<lambda>s. s\<lparr>lh_n := 0\<rparr>)) (\<lambda>_. write_head) s2) ?Q"
        using v f1 f2 r(2) bio_frame_log[of ?t]
        by (auto simp: is_done_iff s2(3) s1(2) hc)
    qed
  qed
qed

lemma read_block_ok:
  assumes "bio_ok s" and "b < length (memdisk s)" and "b \<notin> ran (chandles (bufs s))"
    and "card (insert b (ran (chandles (bufs s)) \<union> cpinned (bufs s))) \<le> NBUF"
  shows "is_done (read_block 1 b s) (\<lambda>d s'. d = bs_view (bstore_of s) b \<and> bio_ok s' \<and> bio_frame s s' \<and>
    bstore_of s' = bstore_of s)"
  using bc.read_ok[of s b] assms unfolding read_block_def by (simp add: bstore_of_def)

lemma initlog_ok:
  assumes r: "idle s" "length (lh_block s) = LOGSIZE" "1 < length (memdisk s)"
    and st: "sb_logstart (dec_sb (memdisk s ! 1)) = st" and fits: "log_fits (memdisk s) st"
  shows "is_done (initlog 1 s) (\<lambda>_ s'. bio_ok s' \<and> lh_n s' = 0 \<and> log_start s' = st \<and>
     log_size s' = sb_nlog (dec_sb (memdisk s ! 1)) \<and> log_dev s' = 1 \<and>
     (\<exists>bl. bstore_of s' = bwrites (replay_writes (memdisk s) st @ [(st, enc_head 0 bl (memdisk s ! st))]) (bstore_of s)))"
proof -
  have ok: "bio_ok s" "chandles (bufs s) = (\<lambda>_. None)" "cpinned (bufs s) = {}" using r(1) by (auto simp: idle_def)
  have il: "initlock LogLk s = Done () s"
    using ok(1) by (simp add: initlock_def bio_ok_def quiet_def fun_upd_same)
  have "is_done (read_block 1 1 s) (\<lambda>d s'. d = bs_view (bstore_of s) 1 \<and> bio_ok s' \<and> bio_frame s s' \<and>
    bstore_of s' = bstore_of s)"
    by (rule read_block_ok) (use ok r(3) in \<open>simp_all add: ran_def NBUF_def MAXOPBLOCKS_def\<close>)
  then obtain s1 where s1: "read_block 1 1 s = Done (memdisk s ! 1) s1" "bio_ok s1" "bio_frame s s1"
    "bstore_of s1 = bstore_of s"
    using idle_view[OF r(1,3)] by (auto simp: is_done_iff)
  let ?sb = "dec_sb (memdisk s ! 1)"
  let ?t = "s1\<lparr>log_start := sb_logstart ?sb, log_size := sb_nlog ?sb, log_dev := 1\<rparr>"
  have md: "memdisk s1 = memdisk s" "chandles (bufs s1) = (\<lambda>_. None)" "cpinned (bufs s1) = {}"
    using s1(4) ok by (simp_all add: bstore_of_def)
  have "is_done (recover_from_log ?t) (\<lambda>_ s'. bio_ok s' \<and> lh_n s' = 0 \<and> log_start s' = log_start ?t \<and>
     log_size s' = log_size ?t \<and> log_dev s' = 1 \<and> (\<exists>bl. bstore_of s' = bwrites (replay_writes (memdisk ?t) (log_start ?t) @
        [(log_start ?t, enc_head 0 bl (memdisk ?t ! log_start ?t))]) (bstore_of ?t)))"
    by (rule recover_ok) (use s1(2) md r(2) bio_frame_log[OF s1(3)] fits st in \<open>simp_all add: idle_def\<close>)
  then show ?thesis
    using st by (simp add: initlog_def il readsb_def s1(1) md s1(4) BSIZE_def LOGSIZE_def MAXOPBLOCKS_def del: One_nat_def)
qed

section \<open>Crash atomicity\<close>

text \<open>
  \<open>transaction s\<close>: the state in which the last \<open>end_op\<close> commits.  The dirty blocks are exactly the
  logged ones, the log area (header included) lies inside the disk behind the superblock, and the
  header on the disk is clear.
\<close>

definition transaction :: "'a log_scheme \<Rightarrow> bool" where
  "transaction s \<longleftrightarrow> copy_ready s \<and> 0 < lh_n s \<and> nat (lh_n s) \<le> LOGSIZE \<and>
     cpinned (bufs s) = set (logged s) \<and> length (memdisk s) \<le> 2 ^ 32 \<and>
     1 < log_start s \<and> 1 \<notin> set (logged s) \<and>
     sb_logstart (dec_sb (memdisk s ! 1)) = log_start s \<and> nat (dec_n (memdisk s ! log_start s)) = 0"

text \<open>\<open>crashed r dk\<close>: the machine has rebooted with the disk \<open>dk\<close>; the cache is empty.\<close>

definition crashed :: "'a log_scheme \<Rightarrow> bytes list \<Rightarrow> bool" where
  "crashed r dk \<longleftrightarrow> idle r \<and> memdisk r = dk \<and> length (lh_block r) = LOGSIZE"

lemma dec_clear: "length d = BSIZE \<Longrightarrow> dec_n (enc_head 0 bl d) = 0"
  using dec_enc_head(1)[of d 0 bl] by simp

lemma transaction_disk:
  assumes t: "transaction s" and b: "b < length (memdisk s)" "b \<notin> set (logged s)"
  shows "bs_view (bstore_of s) b = memdisk s ! b"
  using bc.coherent[of s b] t b by (simp add: transaction_def copy_ready_def bstore_of_def ran_def)

lemma transaction_head:
  assumes t: "transaction s"
  shows "length (head_new s) = BSIZE" "dec_n (head_new s) = lh_n s" "dec_blocks (head_new s) = logged s"
    "length (head_clear s) = BSIZE" "dec_n (head_clear s) = 0"
proof -
  have r: "copy_ready s" using t by (simp add: transaction_def)
  have "log_start s < length (bs_disk (bstore_of s))" using r by (simp add: copy_ready_def bstore_of_def)
  then have v: "length (bs_view (bstore_of s) (log_start s)) = BSIZE"
    using bc.view_length[of s] r by (simp add: copy_ready_def)
  then show l: "length (head_new s) = BSIZE" by (simp add: head_new_def)
  have "\<forall>b\<in>set (logged s). b < 2 ^ 32" using t by (auto simp: transaction_def copy_ready_def)
  then show "dec_n (head_new s) = lh_n s" "dec_blocks (head_new s) = logged s"
    using dec_enc_head[OF v, of "lh_n s" "lh_block s"] t
    by (auto simp: head_new_def transaction_def copy_ready_def logged_def)
  show "length (head_clear s) = BSIZE" "dec_n (head_clear s) = 0"
    using l dec_clear by (simp_all add: head_clear_def)
qed

lemma logged_length: "copy_ready s \<Longrightarrow> length (logged s) = nat (lh_n s)"
  by (simp add: copy_ready_def logged_def)

lemma home_writes_fst: "fst ` set (home_writes s) = set (logged s)"
  by (force simp: home_writes_def)

text \<open>The three kinds of prefixes of the writes of a commit.\<close>

lemma commit_prefix_cases:
  assumes "copy_ready s" and "k \<le> length (commit_writes s)"
  obtains (before) "k \<le> nat (lh_n s)" "take k (commit_writes s) = take k (log_copies s)"
  | (committed) j where "nat (lh_n s) < k"
      "take k (commit_writes s) = log_copies s @ (log_start s, head_new s) # take j (home_writes s)"
  | (cleared) "nat (lh_n s) < k" "take k (commit_writes s) = commit_writes s"
proof -
  let ?n = "nat (lh_n s)"
  have l: "length (log_copies s) = ?n" "length (home_writes s) = ?n"
    using logged_length[OF assms(1)] by (simp_all add: log_copies_def home_writes_def)
  consider "k \<le> ?n" | "?n < k" "k \<le> 2 * ?n + 1" | "k = 2 * ?n + 2"
    using assms(2) l by (fastforce simp: commit_writes_def)
  then show ?thesis
  proof cases
    case 1
    then show ?thesis using before l by (simp add: commit_writes_def)
  next
    case 2
    then have "take k (commit_writes s) = log_copies s @ (log_start s, head_new s) # take (k - ?n - 1) (home_writes s)"
      using l by (simp add: commit_writes_def take_Cons')
    then show ?thesis using committed 2 by blast
  next
    case 3
    then show ?thesis using cleared l by (simp add: commit_writes_def)
  qed
qed

lemma prefix_disk:
  assumes t: "transaction s" and k: "k \<le> length (commit_writes s)"
    and dk: "dk = apply_writes (take k (commit_writes s)) (memdisk s)"
  shows "log_fits dk (log_start s)" and "dk ! 1 = memdisk s ! 1"
    and "b < length (memdisk s) \<Longrightarrow> b < log_start s \<or> log_start s + nat (lh_n s) < b \<Longrightarrow>
      apply_writes (replay_writes dk (log_start s)) dk ! b =
        (if k \<le> nat (lh_n s) then memdisk s ! b else bs_view (bstore_of s) b)"
proof -
  let ?n = "nat (lh_n s)" and ?st = "log_start s" and ?V = "bs_view (bstore_of s)" and ?D = "memdisk s"
  have r: "copy_ready s" and L: "?n \<le> LOGSIZE" and one: "1 < ?st" "1 \<notin> set (logged s)"
    and h0: "nat (dec_n (?D ! ?st)) = 0"
    using t by (auto simp: transaction_def)
  have stn: "?st + ?n < length ?D" using r by (simp add: copy_ready_def)
  have len: "length dk = length ?D" using dk by simp
  have lc: "b \<notin> fst ` set (take j (log_copies s))" if "b \<le> ?st \<or> ?st + ?n < b" for b j
    using that set_take_subset[of j "log_copies s"] by (fastforce simp: log_copies_def)
  have hw: "b \<notin> fst ` set (take j (home_writes s))" if "b \<notin> set (logged s)" for b j
    using that set_take_subset[of j "home_writes s"] home_writes_fst[of s] by blast
  have st: "?st \<notin> set (logged s)" using r by (auto simp: copy_ready_def)
  have hv: "\<forall>w\<in>set (take j (home_writes s)). snd w = ?V (fst w)" for j
    using set_take_subset[of j "home_writes s"] by (force simp: home_writes_def)
  have "log_fits dk ?st \<and> dk ! 1 = ?D ! 1 \<and> (\<forall>b<length ?D. b < ?st \<or> ?st + ?n < b \<longrightarrow>
      apply_writes (replay_writes dk ?st) dk ! b = (if k \<le> ?n then ?D ! b else ?V b))"
    using r k
  proof (cases rule: commit_prefix_cases)
    case before
    have e: "dk ! b = ?D ! b" if "b \<le> ?st \<or> ?st + ?n < b" for b
      using lc[OF that] unfolding dk before(2) by (rule apply_writes_other)
    have "nat (dec_n (dk ! ?st)) = 0" using e[of ?st] h0 by simp
    then have "log_fits dk ?st" "replay_writes dk ?st = []"
      using stn len by (simp_all add: log_fits_def replay_writes_def dec_blocks_def)
    then show ?thesis using e one before(1) by auto
  next
    case (committed j)
    let ?d1 = "apply_writes (log_copies s) ?D"
    have dk': "dk = apply_writes (take j (home_writes s)) (?d1[?st := head_new s])"
      using dk committed(2) by simp
    have hd: "dk ! ?st = head_new s"
      using dk' hw[OF st] stn by (simp add: apply_writes_other)
    have cp: "dk ! (?st + i + 1) = ?V (lh_block s ! i)" if "i < ?n" for i
    proof -
      have "?st + i + 1 \<notin> set (logged s)" using r that by (fastforce simp: copy_ready_def)
      then have "dk ! (?st + i + 1) = ?d1 ! (?st + i + 1)" using dk' hw by (simp add: apply_writes_other)
      also have "\<dots> = ?V (lh_block s ! i)"
        by (rule apply_writes_distinct)
          (use that stn in \<open>auto simp: log_copies_def comp_def distinct_map inj_on_def\<close>)
      finally show ?thesis .
    qed
    have ot: "dk ! b = ?D ! b" if "b < length ?D" "b < ?st \<or> ?st + ?n < b" "b \<notin> set (logged s)" for b
      using dk' hw[OF that(3)] lc[of b "length (log_copies s)"] that(2) by (auto simp: apply_writes_other)
    have rp: "replay_writes dk ?st = home_writes s"
      using transaction_head[OF t] logged_length[OF r] cp
      by (auto simp: replay_writes_def home_writes_def hd logged_def intro!: nth_equalityI)
    have "log_fits dk ?st"
      using transaction_head[OF t] L stn len r unfolding log_fits_def hd by (simp add: copy_ready_def Let_def)
    moreover have "dk ! 1 = ?D ! 1" using ot[of 1] one stn by simp
    moreover have "apply_writes (home_writes s) dk ! b = ?V b"
      if "b < length ?D" "b < ?st \<or> ?st + ?n < b" for b
      using apply_writes_fun[OF hv[of "length (home_writes s)"], of b dk] that ot[OF that]
        transaction_disk[OF t that(1)] len by (simp add: home_writes_fst)
    ultimately show ?thesis using committed(1) rp by simp
  next
    case cleared
    let ?d1 = "(apply_writes (log_copies s) ?D)[?st := head_new s]"
    have dk': "dk = (apply_writes (home_writes s) ?d1)[?st := head_clear s]"
      unfolding dk cleared(2) by (simp add: commit_writes_def)
    have hd: "dk ! ?st = head_clear s" using dk' stn by simp
    have ot: "dk ! b = ?V b" if "b < length ?D" "b < ?st \<or> ?st + ?n < b" for b
    proof -
      have "dk ! b = apply_writes (home_writes s) ?d1 ! b" using dk' that by auto
      also have "\<dots> = (if b \<in> set (logged s) then ?V b else ?d1 ! b)"
        using apply_writes_fun[OF hv[of "length (home_writes s)"], of b ?d1] that by (simp add: home_writes_fst)
      also have "?d1 ! b = ?D ! b"
        using lc[of b "length (log_copies s)"] that by (auto simp: apply_writes_other)
      finally show ?thesis using transaction_disk[OF t that(1)] by simp
    qed
    have "replay_writes dk ?st = []" "log_fits dk ?st"
      using transaction_head(5)[OF t] stn len by (simp_all add: replay_writes_def log_fits_def hd dec_blocks_def)
    moreover have "dk ! 1 = ?D ! 1"
      using ot[of 1] transaction_disk[OF t, of 1] one stn by simp
    ultimately show ?thesis using ot cleared(1) by simp
  qed
  then show "log_fits dk ?st" "dk ! 1 = ?D ! 1"
    "b < length ?D \<Longrightarrow> b < ?st \<or> ?st + ?n < b \<Longrightarrow>
      apply_writes (replay_writes dk ?st) dk ! b = (if k \<le> ?n then ?D ! b else ?V b)"
    by auto
qed

text \<open>
  C1: a transaction is atomic with respect to crashes.  Let the log hold a transaction and let \<open>commit\<close>
  run.  It returns, and it makes a sequence \<open>ws\<close> of block writes (each logged block twice, the header twice).  If the machine stops after any number
  \<open>k\<close> of them and reboots with the disk as it is then, \<open>initlog\<close> returns (no panic, no access outside the
  log header), clears the header, and every block outside the log area then has its content from
  before the transaction, for all blocks at once (when the header was not yet written, \<open>k\<close> at most the
  number of logged blocks), or its content after it, for all blocks at once.
\<close>

theorem commit_crash_atomic:
  assumes "transaction s"
  shows "\<exists>s' ws. commit s = Done () s' \<and> bio_ok s' \<and> lh_n s' = 0 \<and>
     dtrace s' = dtrace s @ ws \<and> memdisk s' = apply_writes ws (memdisk s) \<and> length ws = 2 * nat (lh_n s) + 2 \<and>
     (\<forall>k\<le>length ws. \<forall>r :: 'a log_scheme. crashed r (apply_writes (take k ws) (memdisk s)) \<longrightarrow>
       (\<exists>r'. initlog 1 r = Done () r' \<and> bio_ok r' \<and> dec_n (memdisk r' ! log_start s) = 0 \<and>
          (\<forall>b<length (memdisk s). b < log_start s \<or> log_start s + nat (lh_n s) < b \<longrightarrow>
             memdisk r' ! b = (if k \<le> nat (lh_n s) then memdisk s ! b else bs_view (bstore_of s) b))))"
proof -
  let ?st = "log_start s" and ?ws = "commit_writes s"
  have r: "copy_ready s" "0 < lh_n s" using assms by (auto simp: transaction_def)
  obtain s' where s': "commit s = Done () s'" "bio_frame (s\<lparr>lh_n := 0\<rparr>) s'"
    "bstore_of s' = bwrites ?ws (bstore_of s)" "bio_ok s'"
    using commit_ok[OF r] by (auto simp: is_done_iff)
  have "dtrace s' = dtrace s @ ?ws" using arg_cong[OF s'(3), of bs_trace] by (simp add: bstore_of_def)
  moreover have "memdisk s' = apply_writes ?ws (memdisk s)"
    using arg_cong[OF s'(3), of bs_disk] bwrites_sel(2)[of ?ws "bstore_of s"] unfolding bstore_of_def by simp
  moreover have "length ?ws = 2 * nat (lh_n s) + 2"
    using logged_length[OF r(1)] by (simp add: commit_writes_def log_copies_def home_writes_def)
  moreover have "lh_n s' = 0" using bio_frame_log(6)[OF s'(2)] by simp
  moreover have "\<exists>r'. initlog 1 r = Done () r' \<and> bio_ok r' \<and> dec_n (memdisk r' ! ?st) = 0 \<and>
        (\<forall>b<length (memdisk s). b < ?st \<or> ?st + nat (lh_n s) < b \<longrightarrow>
           memdisk r' ! b = (if k \<le> nat (lh_n s) then memdisk s ! b else bs_view (bstore_of s) b))"
    if k: "k \<le> length ?ws" and c: "crashed r (apply_writes (take k ?ws) (memdisk s))" for k and r :: "'a log_scheme"
  proof -
    define dk where "dk = apply_writes (take k ?ws) (memdisk s)"
    have r: "idle r" "memdisk r = dk" "length (lh_block r) = LOGSIZE"
      using c by (auto simp: crashed_def dk_def)
    note p = prefix_disk[OF assms k dk_def]
    have len: "length dk = length (memdisk s)" by (simp add: dk_def)
    have stl: "?st < length dk" "1 < ?st" using assms len by (auto simp: transaction_def copy_ready_def)
    have "is_done (initlog 1 r) (\<lambda>_ s'. bio_ok s' \<and> lh_n s' = 0 \<and> log_start s' = ?st \<and>
     log_size s' = sb_nlog (dec_sb (memdisk r ! 1)) \<and> log_dev s' = 1 \<and>
     (\<exists>bl. bstore_of s' = bwrites (replay_writes (memdisk r) ?st @ [(?st, enc_head 0 bl (memdisk r ! ?st))]) (bstore_of r)))"
      by (rule initlog_ok) (use r p(1,2) stl assms in \<open>auto simp: transaction_def\<close>)
    then obtain r' bl where r': "initlog 1 r = Done () r'" "bio_ok r'"
      "bstore_of r' = bwrites (replay_writes dk ?st @ [(?st, enc_head 0 bl (dk ! ?st))]) (bstore_of r)"
      using r(2) by (auto simp: is_done_iff)
    have md: "memdisk r' = (apply_writes (replay_writes dk ?st) dk)[?st := enc_head 0 bl (dk ! ?st)]"
      using arg_cong[OF r'(3), of bs_disk] r(2) by (simp add: bstore_of_def written_def)
    have "length (dk ! ?st) = BSIZE"
      using r(1,2) stl(1) cache_ok_disk by (auto simp: idle_def bio_ok_def)
    then have "dec_n (memdisk r' ! ?st) = 0" using stl by (simp add: md dec_clear)
    moreover have "memdisk r' ! b = (if k \<le> nat (lh_n s) then memdisk s ! b else bs_view (bstore_of s) b)"
      if "b < length (memdisk s)" "b < ?st \<or> ?st + nat (lh_n s) < b" for b
      using p(3)[OF that] that(2) by (auto simp: md)
    ultimately show ?thesis using r' by blast
  qed
  ultimately show ?thesis using s'(1,4) by blast
qed

end
