(* ===== verification/Logstore.thy ===== *)
theory Logstore
  imports Crash
begin

text \<open>
  The log as the file system uses it: a block store in which blocks are read with \<open>read_block\<close> and
  changed with \<open>update_block\<close> (\<open>bread\<close>, change, \<open>log_write\<close>, \<open>brelse\<close>) inside a transaction.

  \<open>log_inv\<close> is the invariant of the log between operations.  \<open>log_room\<close> counts the blocks that can still
  be added to the transaction.  The locale \<open>logged_store\<close> is the contract the file system is proved
  against; it is interpreted on these operations.
\<close>

section \<open>Changing a block in a transaction\<close>

definition update_block :: "nat \<Rightarrow> nat \<Rightarrow> (bytes \<Rightarrow> bytes) \<Rightarrow> (unit, 'a log_scheme) kop" where
  "update_block dev b f =
     andthen (bread dev b) (\<lambda>i.
     andthen (get_data i) (\<lambda>d.
     andthen (set_data i (f d)) (\<lambda>_.
     andthen (log_write i) (\<lambda>_.
     brelse i))))"

section \<open>The invariant\<close>

text \<open>The blocks file-system code may log: all but the superblock and the log itself.\<close>

definition fs_block :: "'a log_scheme \<Rightarrow> nat \<Rightarrow> bool" where
  "fs_block s b \<longleftrightarrow> b < length (memdisk s) \<and> b \<noteq> 1 \<and> (b < log_start s \<or> log_start s + log_size s \<le> b)"

definition log_inv :: "'a log_scheme \<Rightarrow> bool" where
  "log_inv s \<longleftrightarrow> bio_ok s \<and> log_dev s = 1 \<and> length (lh_block s) = LOGSIZE \<and>
     0 \<le> lh_n s \<and> lh_n s < int (log_size s) \<and> log_size s \<le> LOGSIZE \<and>
     1 < log_start s \<and> log_start s + log_size s \<le> length (memdisk s) \<and> length (memdisk s) \<le> 2 ^ 32 \<and>
     distinct (logged s) \<and> set (logged s) = cpinned (bufs s) \<and> (\<forall>b\<in>set (logged s). fs_block s b) \<and>
     sb_logstart (dec_sb (memdisk s ! 1)) = log_start s \<and> nat (dec_n (memdisk s ! log_start s)) = 0"

text \<open>How many more blocks the transaction can take.\<close>

definition log_room :: "'a log_scheme \<Rightarrow> nat" where
  "log_room s = log_size s - 1 - nat (lh_n s)"

definition log_frame :: "'a log_scheme \<Rightarrow> 'a log_scheme \<Rightarrow> bool" where
  "log_frame s s' \<longleftrightarrow> bio_frame (s\<lparr>lh_n := lh_n s', lh_block := lh_block s'\<rparr>) s'"

lemma lh_upd_upd:
  "s\<lparr>lh_n := n, lh_block := bl, lh_n := n'\<rparr> = s\<lparr>lh_n := n', lh_block := bl\<rparr>"
  by (rule log.equality) simp_all

lemma log_frame_refl: "log_frame s s"
  by (simp add: log_frame_def bio_frame_refl)

lemma log_frame_trans: "log_frame s t \<Longrightarrow> log_frame t u \<Longrightarrow> log_frame s u"
proof -
  assume a: "log_frame s t" "log_frame t u"
  have "bio_frame (s\<lparr>lh_n := lh_n t, lh_block := lh_block t\<rparr>\<lparr>lh_n := lh_n u\<rparr>\<lparr>lh_block := lh_block u\<rparr>)
      (t\<lparr>lh_n := lh_n u\<rparr>\<lparr>lh_block := lh_block u\<rparr>)"
    by (intro frame_log_upd) (use a(1) in \<open>simp add: log_frame_def\<close>)
  then have "bio_frame (s\<lparr>lh_n := lh_n u, lh_block := lh_block u\<rparr>) (t\<lparr>lh_n := lh_n u, lh_block := lh_block u\<rparr>)"
    by (simp add: lh_upd_upd)
  then show ?thesis
    using a(2) bio_frame_trans unfolding log_frame_def by blast
qed

lemma bio_log_frame: "bio_frame s t \<Longrightarrow> log_frame s t"
  using bio_frame_log[of s t] by (simp add: log_frame_def)

lemma log_frame_log:
  assumes "log_frame s s'"
  shows "log_start s' = log_start s" "log_size s' = log_size s" "log_outstanding s' = log_outstanding s"
    "log_committing s' = log_committing s" "log_dev s' = log_dev s"
  using bio_frame_log[of "s\<lparr>lh_n := lh_n s', lh_block := lh_block s'\<rparr>" s'] assms by (simp_all add: log_frame_def)

lemma nbuf_logsize: "NBUF = 30" "LOGSIZE = 30"
  by (simp_all add: NBUF_def LOGSIZE_def MAXOPBLOCKS_def)

lemma log_inv_card:
  assumes "log_inv s"
  shows "card (cpinned (bufs s)) = nat (lh_n s)"
proof -
  have "length (logged s) = nat (lh_n s)" using assms by (auto simp: log_inv_def logged_def nbuf_logsize)
  then show ?thesis using assms distinct_card[of "logged s"] by (simp add: log_inv_def)
qed

text \<open>While this process holds at most \<open>log_room\<close> buffers, there is a buffer for one more block.\<close>

lemma log_inv_room:
  assumes inv: "log_inv s" and c: "card (ran (chandles (bufs s))) \<le> log_room s"
  shows "card (insert b (ran (chandles (bufs s)) \<union> cpinned (bufs s))) \<le> NBUF"
proof -
  have fin: "finite (ran (chandles (bufs s)) \<union> cpinned (bufs s))" by (rule finite_cache)
  have "card (ran (chandles (bufs s)) \<union> cpinned (bufs s)) \<le> card (ran (chandles (bufs s))) + nat (lh_n s)"
    using card_Un_le[of "ran (chandles (bufs s))" "cpinned (bufs s)"] log_inv_card[OF inv] by simp
  moreover have "nat (lh_n s) + log_room s < NBUF"
    using inv by (auto simp: log_inv_def log_room_def nbuf_logsize)
  ultimately show ?thesis using c card_insert_if[OF fin, of b] by (auto split: if_splits)
qed

lemma log_inv_transaction:
  assumes inv: "log_inv s" and h: "chandles (bufs s) = (\<lambda>_. None)" and n: "0 < lh_n s"
  shows "transaction s"
proof -
  have c: "card (cpinned (bufs s)) < NBUF" and i: "\<forall>b\<in>set (logged s). card (insert b (cpinned (bufs s))) < NBUF"
    using log_inv_card[OF inv] inv by (auto simp: log_inv_def nbuf_logsize insert_absorb)
  have b: "b < length (memdisk s) \<and> (b < log_start s \<or> log_start s + nat (lh_n s) < b)"
    if "b \<in> set (logged s)" for b
  proof -
    have "fs_block s b" "nat (lh_n s) < log_size s" using inv that n by (auto simp: log_inv_def)
    then show ?thesis by (auto simp: fs_block_def)
  qed
  have "copy_ready s"
    using inv h c i b n by (auto simp: copy_ready_def log_inv_def nbuf_logsize)
  moreover have "1 \<notin> set (logged s)" using inv by (auto simp: log_inv_def fs_block_def)
  ultimately show ?thesis using inv n by (auto simp: transaction_def log_inv_def)
qed

section \<open>log\_write\<close>

text \<open>The in-memory header after \<open>log_write\<close>: a block that is already logged is absorbed.\<close>

lemma log_scan:
  fixes bl :: "nat list" and b :: nat
  assumes n: "n < length bl" and d: "distinct (take n bl)"
  defines "i \<equiv> first_idx (\<lambda>x. x = b) (take n bl)"
  shows "b \<in> set (take n bl) \<Longrightarrow> i < n \<and> bl[i := b] = bl"
    and "b \<notin> set (take n bl) \<Longrightarrow> i = n \<and> take (Suc n) (bl[i := b]) = take n bl @ [b]"
proof -
  show "i < n \<and> bl[i := b] = bl" if m: "b \<in> set (take n bl)"
  proof -
    have lt: "i < length (take n bl)" unfolding i_def using first_idx_less[of "take n bl" "\<lambda>x. x = b"] m by auto
    have "take n bl ! i = b" unfolding i_def using first_idx_holds[of "take n bl" "\<lambda>x. x = b"] m by auto
    then show ?thesis using lt n by auto
  qed
  show "i = n \<and> take (Suc n) (bl[i := b]) = take n bl @ [b]" if m: "b \<notin> set (take n bl)"
  proof -
    have "i = n" unfolding i_def using first_idx_none[of "take n bl" "\<lambda>x. x = b"] m n by auto
    then show ?thesis using n by (simp add: take_Suc_conv_app_nth)
  qed
qed

lemma log_write_eq:
  assumes q: "quiet s" and i: "i < length (bufs s)" and n: "lh_n s < int LOGSIZE" "lh_n s < int (log_size s) - 1"
    and o: "1 \<le> log_outstanding s"
  shows "log_write i s = (let b = b_blockno (bufs s ! i);
       k = first_idx (\<lambda>x. x = b) (take (nat (lh_n s)) (lh_block s)) in
     set_dirty i (s\<lparr>lh_block := (lh_block s)[k := b], lh_n := (if int k = lh_n s then lh_n s + 1 else lh_n s)\<rparr>))"
  using assms by (simp add: log_write_def lock_simps Let_def set_dirty_def)

lemma log_write_ok:
  assumes inv: "log_inv s" and h: "chandles (bufs s) i = Some b" and b: "fs_block s b"
    and o: "1 \<le> log_outstanding s" and room: "0 < log_room s"
  shows "is_done (log_write i s) (\<lambda>_ s'. log_inv s' \<and> log_frame s s' \<and>
     bstore_of s' = (bstore_of s)\<lparr>bs_pinned := insert b (cpinned (bufs s))\<rparr> \<and>
     logged s' = (if b \<in> set (logged s) then logged s else logged s @ [b]) \<and> log_room s - 1 \<le> log_room s')"
proof -
  have ok: "bio_ok s" and q: "quiet s" and c: "cache_ok (bufs s) (memdisk s)"
    using inv by (auto simp: log_inv_def bio_ok_def)
  note hb = handle_buf[OF c h]
  have n: "0 \<le> lh_n s" "lh_n s < int (log_size s) - 1" "log_size s \<le> LOGSIZE" "length (lh_block s) = LOGSIZE"
    using inv room by (auto simp: log_inv_def log_room_def)
  have nl: "nat (lh_n s) < length (lh_block s)" using n by linarith
  define k where "k = first_idx (\<lambda>x. x = b) (take (nat (lh_n s)) (lh_block s))"
  define t where "t = s\<lparr>lh_block := (lh_block s)[k := b], lh_n := (if int k = lh_n s then lh_n s + 1 else lh_n s)\<rparr>"
  have run: "log_write i s = set_dirty i t"
    using log_write_eq[OF q hb(2) _ n(2) o] n hb(6) by (simp add: Let_def t_def k_def)
  have d: "distinct (take (nat (lh_n s)) (lh_block s))" using inv by (simp add: log_inv_def logged_def)
  note sc = log_scan[OF nl d, of b, folded k_def, folded logged_def]
  have lg: "logged t = (if b \<in> set (logged s) then logged s else logged s @ [b])"
  proof (cases "b \<in> set (logged s)")
    case True
    then have "int k \<noteq> lh_n s" using sc(1) n(1) by auto
    then show ?thesis using sc(1)[OF True] True by (simp add: t_def logged_def)
  next
    case False
    then have "int k = lh_n s" using sc(2) n(1) by auto
    then show ?thesis using sc(2)[OF False] False n(1) by (auto simp: t_def logged_def nat_add_distrib)
  qed
  have nt: "lh_n s \<le> lh_n t" "lh_n t \<le> lh_n s + 1" by (auto simp: t_def)
  have t: "bio_ok t" "bstore_of t = bstore_of s" "bufs t = bufs s" "memdisk t = memdisk s"
    using ok by (simp_all add: t_def)
  have fr: "log_frame s t"
  proof -
    have "s\<lparr>lh_n := lh_n t, lh_block := lh_block t\<rparr> = t" unfolding t_def by (rule log.equality) simp_all
    then show ?thesis by (simp add: log_frame_def bio_frame_refl)
  qed
  have "is_done (set_dirty i t) (\<lambda>_ s'. bio_ok s' \<and> bio_frame t s' \<and>
      bstore_of s' = (bstore_of t)\<lparr>bs_pinned := insert b (cpinned (bufs t))\<rparr>)"
    by (rule set_dirty_ok) (use t h in auto)
  then obtain s' where s': "set_dirty i t = Done () s'" "bio_ok s'" "bio_frame t s'"
    "bstore_of s' = (bstore_of s)\<lparr>bs_pinned := insert b (cpinned (bufs s))\<rparr>"
    using t by (auto simp: is_done_iff)
  note f = bio_frame_log[OF s'(3)]
  have lg': "logged s' = logged t" using f by (simp add: logged_def)
  have md: "memdisk s' = memdisk s" "cpinned (bufs s') = insert b (cpinned (bufs s))"
    using arg_cong[OF s'(4), of bs_disk] arg_cong[OF s'(4), of bs_pinned] by (simp_all add: bstore_of_def)
  have fb: "fs_block s' x \<longleftrightarrow> fs_block s x" for x
    using f md by (simp add: fs_block_def t_def)
  have "log_inv s'"
    using inv s'(2) f lg lg' md b nt n hb(7) unfolding log_inv_def fb
    by (auto simp: t_def)
  moreover have "log_room s - 1 \<le> log_room s'"
    using f nt n(1) by (simp add: log_room_def t_def)
  ultimately show ?thesis
    using run s' lg lg' log_frame_trans[OF fr bio_log_frame[OF s'(3)]] by simp
qed

text \<open>What the file system sees: the content of blocks, the blocks it holds, the room left.\<close>

abbreviation lview :: "'a bio_scheme \<Rightarrow> nat \<Rightarrow> bytes" where
  "lview s \<equiv> bs_view (bstore_of s)"

abbreviation held :: "'a bio_scheme \<Rightarrow> nat set" where
  "held s \<equiv> ran (chandles (bufs s))"

definition fs_ok :: "'a log_scheme \<Rightarrow> bool" where
  "fs_ok s \<longleftrightarrow> log_inv s \<and> 1 \<le> log_outstanding s"

lemma log_inv_frame:
  assumes inv: "log_inv s" and s': "bio_ok s'" "bio_frame s s'"
    and "memdisk s' = memdisk s" "cpinned (bufs s') = cpinned (bufs s)"
  shows "log_inv s'" "logged s' = logged s" "log_room s' = log_room s" "fs_block s' = fs_block s"
proof -
  note f = bio_frame_log[OF s'(2)]
  show lg: "logged s' = logged s" using f by (simp add: logged_def)
  show "log_room s' = log_room s" using f by (simp add: log_room_def)
  show fb: "fs_block s' = fs_block s" using f assms(4) by (simp add: fs_block_def fun_eq_iff)
  show "log_inv s'" using inv s'(1) assms(4,5) unfolding log_inv_def fb lg f by simp
qed

lemma bstore_fields [simp]:
  "bs_handles (bstore_of s) = chandles (bufs s)" "bs_disk (bstore_of s) = memdisk s"
  "bs_trace (bstore_of s) = dtrace s" "bs_pinned (bstore_of s) = cpinned (bufs s)"
  by (simp_all add: bstore_of_def)

lemma bstore_eq_fields:
  assumes "bstore_of s' = a"
  shows "chandles (bufs s') = bs_handles a" "memdisk s' = bs_disk a" "cpinned (bufs s') = bs_pinned a"
    "lview s' = bs_view a"
  using assms by (auto simp: bstore_of_def)

lemma read_block_log:
  assumes ok: "fs_ok s" and b: "b < length (memdisk s)" "b \<notin> held s" and room: "card (held s) \<le> log_room s"
  shows "is_done (read_block 1 b s) (\<lambda>d s'. d = lview s b \<and> fs_ok s' \<and> log_frame s s' \<and>
     bstore_of s' = bstore_of s \<and> log_room s' = log_room s)"
proof -
  have inv: "log_inv s" "bio_ok s" using ok by (auto simp: fs_ok_def log_inv_def)
  have "is_done (read_block 1 b s) (\<lambda>d s'. d = lview s b \<and> bio_ok s' \<and> bio_frame s s' \<and> bstore_of s' = bstore_of s)"
    by (rule read_block_ok[OF inv(2) b log_inv_room[OF inv(1) room]])
  then obtain s' where s': "read_block 1 b s = Done (lview s b) s'" "bio_ok s'" "bio_frame s s'" "bstore_of s' = bstore_of s"
    by (auto simp: is_done_iff)
  note e = bstore_eq_fields[OF s'(4), unfolded bstore_fields]
  have "fs_ok s'" "log_room s' = log_room s"
    using log_inv_frame[OF inv(1) s'(2,3) e(2,3)] bio_frame_log[OF s'(3)] ok by (auto simp: fs_ok_def)
  then show ?thesis using s' bio_log_frame[OF s'(3)] by simp
qed

text \<open>Opening a block, changing it and releasing it, in a transaction.\<close>

lemma bread_log:
  assumes ok: "fs_ok s" and b: "b < length (memdisk s)" "b \<notin> held s" and room: "card (held s) \<le> log_room s"
    and k: "\<And>i s'. chandles (bufs s) i = None \<Longrightarrow> fs_ok s' \<Longrightarrow> log_frame s s' \<Longrightarrow> log_room s' = log_room s \<Longrightarrow>
      bstore_of s' = (bstore_of s)\<lparr>bs_handles := (chandles (bufs s))(i \<mapsto> b)\<rparr> \<Longrightarrow> is_done (f i s') Q"
  shows "is_done (andthen (bread 1 b) f s) Q"
proof (rule bc.rd_step, goal_cases)
  case 5
  have inv: "log_inv s" using ok by (simp add: fs_ok_def)
  have e: "bio_ok s'" "bio_frame s s'" "memdisk s' = memdisk s" "cpinned (bufs s') = cpinned (bufs s)"
    if "bio_ok s'" "bio_frame s s'" "bstore_of s' = (bstore_of s)\<lparr>bs_handles := h\<rparr>" for s' h
    using that bstore_eq_fields[OF that(3)] by (simp_all add: bstore_fields)
  show ?case
    by (rule k) (use 5 log_inv_frame[OF inv e[OF 5(2-4)]] bio_frame_log[OF 5(3)] ok bio_log_frame
        in \<open>auto simp: fs_ok_def bstore_fields\<close>)
qed (use ok b log_inv_room[OF _ room] in \<open>auto simp: fs_ok_def log_inv_def bstore_fields\<close>)

lemma set_data_log:
  assumes ok: "fs_ok s" and h: "chandles (bufs s) i = Some b" and d: "length d = BSIZE"
  shows "is_done (set_data i d s) (\<lambda>_ s'. fs_ok s' \<and> log_frame s s' \<and> log_room s' = log_room s \<and>
     bstore_of s' = (bstore_of s)\<lparr>bs_view := (lview s)(b := d)\<rparr>)"
proof -
  have inv: "log_inv s" "bio_ok s" using ok by (auto simp: fs_ok_def log_inv_def)
  obtain s' where s': "set_data i d s = Done () s'" "bio_ok s'" "bio_frame s s'"
    "bstore_of s' = (bstore_of s)\<lparr>bs_view := (lview s)(b := d)\<rparr>"
    using set_data_ok[OF inv(2) h d] by (auto simp: is_done_iff)
  have "memdisk s' = memdisk s" "cpinned (bufs s') = cpinned (bufs s)"
    using bstore_eq_fields[OF s'(4)] by (simp_all add: bstore_fields)
  then have "log_inv s'" "log_room s' = log_room s"
    using log_inv_frame[OF inv(1) s'(2,3)] by auto
  then show ?thesis
    using s' ok bio_frame_log[OF s'(3)] bio_log_frame[OF s'(3)] by (simp add: fs_ok_def)
qed

lemma log_write_log:
  assumes ok: "fs_ok s" and h: "chandles (bufs s) i = Some b" and b: "fs_block s b" and room: "0 < log_room s"
  shows "is_done (log_write i s) (\<lambda>_ s'. fs_ok s' \<and> log_frame s s' \<and> log_room s - 1 \<le> log_room s' \<and>
     bstore_of s' = (bstore_of s)\<lparr>bs_pinned := insert b (cpinned (bufs s))\<rparr>)"
proof -
  have o: "log_inv s" "1 \<le> log_outstanding s" using ok by (auto simp: fs_ok_def)
  obtain s' where "log_write i s = Done () s'" "log_inv s'" "log_frame s s'" "log_room s - 1 \<le> log_room s'"
     "bstore_of s' = (bstore_of s)\<lparr>bs_pinned := insert b (cpinned (bufs s))\<rparr>"
    using log_write_ok[OF o(1) h b o(2) room] by (auto simp: is_done_iff)
  then show ?thesis using log_frame_log[of s s'] o by (simp add: fs_ok_def)
qed

lemma brelse_log:
  assumes ok: "fs_ok s" and h: "chandles (bufs s) i = Some b"
    and c: "b \<in> cpinned (bufs s) \<or> lview s b = memdisk s ! b"
  shows "is_done (brelse i s) (\<lambda>_ s'. fs_ok s' \<and> log_frame s s' \<and> log_room s' = log_room s \<and>
     bstore_of s' = (bstore_of s)\<lparr>bs_handles := (chandles (bufs s))(i := None)\<rparr>)"
proof -
  have inv: "log_inv s" "bio_ok s" using ok by (auto simp: fs_ok_def log_inv_def)
  obtain s' where s': "brelse i s = Done () s'" "bio_ok s'" "bio_frame s s'"
    "bstore_of s' = (bstore_of s)\<lparr>bs_handles := (chandles (bufs s))(i := None)\<rparr>"
    using brelse_ok[OF inv(2) h c] by (auto simp: is_done_iff)
  have "memdisk s' = memdisk s" "cpinned (bufs s') = cpinned (bufs s)"
    using bstore_eq_fields[OF s'(4)] by (simp_all add: bstore_fields)
  then have "log_inv s'" "log_room s' = log_room s"
    using log_inv_frame[OF inv(1) s'(2,3)] by auto
  then show ?thesis
    using s' ok bio_frame_log[OF s'(3)] bio_log_frame[OF s'(3)] by (simp add: fs_ok_def)
qed

lemma update_block_log:
  assumes ok: "fs_ok s" and b: "fs_block s b" "b \<notin> held s" and room: "card (held s) < log_room s"
    and len: "length (f (lview s b)) = BSIZE"
  shows "is_done (update_block 1 b f s) (\<lambda>_ s'. fs_ok s' \<and> log_frame s s' \<and> log_room s - 1 \<le> log_room s' \<and>
     bstore_of s' = (bstore_of s)\<lparr>bs_view := (lview s)(b := f (lview s b)), bs_pinned := insert b (cpinned (bufs s))\<rparr>)"
  unfolding update_block_def
proof (rule bread_log[OF ok _ b(2)])
  show "b < length (memdisk s)" using b(1) by (simp add: fs_block_def)
  show "card (held s) \<le> log_room s" using room by simp
  fix i s1
  assume i: "chandles (bufs s) i = None" and s1: "fs_ok s1" "log_frame s s1" "log_room s1 = log_room s"
    "bstore_of s1 = (bstore_of s)\<lparr>bs_handles := (chandles (bufs s))(i \<mapsto> b)\<rparr>"
  note e1 = bstore_eq_fields[OF s1(4), simplified]
  have h1: "chandles (bufs s1) i = Some b" using e1 by simp
  have g: "get_data i s1 = Done (lview s b) s1"
    using bc.get_ok[of s1 i b] s1(1,4) h1 by (simp add: fs_ok_def log_inv_def bstore_fields)
  obtain s2 where s2: "set_data i (f (lview s b)) s1 = Done () s2" "fs_ok s2" "log_frame s1 s2"
    "log_room s2 = log_room s1" "bstore_of s2 = (bstore_of s1)\<lparr>bs_view := (lview s1)(b := f (lview s b))\<rparr>"
    using set_data_log[OF s1(1) h1 len] by (auto simp: is_done_iff)
  note e2 = bstore_eq_fields[OF s2(5), simplified]
  have h2: "chandles (bufs s2) i = Some b" using e2 h1 by simp
  have fb: "fs_block s2 b"
    using b(1) e1 e2 log_frame_log[OF s1(2)] log_frame_log[OF s2(3)] by (simp add: fs_block_def bstore_fields)
  have r2: "0 < log_room s2" using room s1(3) s2(4) by simp
  obtain s3 where s3: "log_write i s2 = Done () s3" "fs_ok s3" "log_frame s2 s3" "log_room s2 - 1 \<le> log_room s3"
    "bstore_of s3 = (bstore_of s2)\<lparr>bs_pinned := insert b (cpinned (bufs s2))\<rparr>"
    using log_write_log[OF s2(2) h2 fb r2] by (auto simp: is_done_iff)
  note e3 = bstore_eq_fields[OF s3(5), simplified]
  have h3: "chandles (bufs s3) i = Some b" using e3 h2 by simp
  have "b \<in> cpinned (bufs s3)" using e3 by simp
  then obtain s4 where s4: "brelse i s3 = Done () s4" "fs_ok s4" "log_frame s3 s4" "log_room s4 = log_room s3"
    "bstore_of s4 = (bstore_of s3)\<lparr>bs_handles := (chandles (bufs s3))(i := None)\<rparr>"
    using brelse_log[OF s3(2) h3] by (auto simp: is_done_iff)
  have "log_frame s s4"
    using s1(2) s2(3) s3(3) s4(3) log_frame_trans by blast
  then show "is_done (andthen (get_data i) (\<lambda>d. andthen (set_data i (f d)) (\<lambda>_. andthen (log_write i)
      (\<lambda>_. brelse i))) s1) (\<lambda>_ s'. fs_ok s' \<and> log_frame s s' \<and> log_room s - 1 \<le> log_room s' \<and>
     bstore_of s' = (bstore_of s)\<lparr>bs_view := (lview s)(b := f (lview s b)), bs_pinned := insert b (cpinned (bufs s))\<rparr>)"
    using g s2(1,4) s3(1,4) s4 s1(3,4) i e1 e2 e3 s2(5) s3(5)
    by (simp add: bstore_fields bc.drop_handle)
qed

section \<open>The contract of the log\<close>

text \<open>
  A block store with transactions.  \<open>rd b\<close> reads a block; \<open>up b f\<close> changes it within the transaction and
  uses up at most one unit of \<open>room\<close>.  \<open>held\<close> are the blocks whose buffers this process holds, which
  must not be opened again.
\<close>

locale logged_store =
  fixes rd :: "nat \<Rightarrow> (bytes, 's) kop" and up :: "nat \<Rightarrow> (bytes \<Rightarrow> bytes) \<Rightarrow> (unit, 's) kop"
    and ok :: "'s \<Rightarrow> bool" and view :: "'s \<Rightarrow> nat \<Rightarrow> bytes" and held :: "'s \<Rightarrow> nat set"
    and room :: "'s \<Rightarrow> nat" and blk :: "'s \<Rightarrow> nat \<Rightarrow> bool" and frame :: "'s \<Rightarrow> 's \<Rightarrow> bool"
  assumes rd_ok: "ok s \<Longrightarrow> blk s b \<Longrightarrow> b \<notin> held s \<Longrightarrow> card (held s) \<le> room s \<Longrightarrow>
      is_done (rd b s) (\<lambda>d s'. d = view s b \<and> ok s' \<and> frame s s' \<and> view s' = view s \<and> held s' = held s \<and>
        room s' = room s \<and> blk s' = blk s)"
    and up_ok: "ok s \<Longrightarrow> blk s b \<Longrightarrow> b \<notin> held s \<Longrightarrow> card (held s) < room s \<Longrightarrow> length (f (view s b)) = BSIZE \<Longrightarrow>
      is_done (up b f s) (\<lambda>_ s'. ok s' \<and> frame s s' \<and> view s' = (view s)(b := f (view s b)) \<and> held s' = held s \<and>
        room s \<le> room s' + 1 \<and> blk s' = blk s)"
    and view_length: "ok s \<Longrightarrow> blk s b \<Longrightarrow> length (view s b) = BSIZE"
    and frame_refl: "frame s s"
    and frame_trans: "frame s t \<Longrightarrow> frame t u \<Longrightarrow> frame s u"

lemma fs_block_frame: "log_frame s s' \<Longrightarrow> memdisk s' = memdisk s \<Longrightarrow> fs_block s' = fs_block s"
  using log_frame_log[of s s'] by (simp add: fs_block_def fun_eq_iff)

interpretation ls: logged_store "read_block 1" "update_block 1" fs_ok lview held log_room fs_block log_frame
proof unfold_locales
  fix s t u :: "'a log_scheme" and b f
  show "is_done (read_block 1 b s) (\<lambda>d s'. d = lview s b \<and> fs_ok s' \<and> log_frame s s' \<and> lview s' = lview s \<and>
        held s' = held s \<and> log_room s' = log_room s \<and> fs_block s' = fs_block s)"
    if a: "fs_ok s" "fs_block s b" "b \<notin> held s" "card (held s) \<le> log_room s"
  proof -
    obtain s' where s': "read_block 1 b s = Done (lview s b) s'" "fs_ok s'" "log_frame s s'"
      "bstore_of s' = bstore_of s" "log_room s' = log_room s"
      using read_block_log[OF a(1) _ a(3,4)] a(2) by (auto simp: is_done_iff fs_block_def)
    note e = bstore_eq_fields[OF s'(4), simplified]
    show ?thesis using s' e fs_block_frame[OF s'(3) e(2)] by simp
  qed
  show "is_done (update_block 1 b f s) (\<lambda>_ s'. fs_ok s' \<and> log_frame s s' \<and> lview s' = (lview s)(b := f (lview s b)) \<and>
        held s' = held s \<and> log_room s \<le> log_room s' + 1 \<and> fs_block s' = fs_block s)"
    if a: "fs_ok s" "fs_block s b" "b \<notin> held s" "card (held s) < log_room s" "length (f (lview s b)) = BSIZE"
  proof -
    obtain s' where s': "update_block 1 b f s = Done () s'" "fs_ok s'" "log_frame s s'" "log_room s - 1 \<le> log_room s'"
     "bstore_of s' = (bstore_of s)\<lparr>bs_view := (lview s)(b := f (lview s b)), bs_pinned := insert b (cpinned (bufs s))\<rparr>"
      using update_block_log[OF a(1-4), of f] a(5) by (auto simp: is_done_iff)
    note e = bstore_eq_fields[OF s'(5), simplified]
    show ?thesis using s' e fs_block_frame[OF s'(3) e(2)] by simp
  qed
  show "length (lview s b) = BSIZE" if "fs_ok s" "fs_block s b"
    using bc.view_length[of s b] that by (auto simp: fs_ok_def log_inv_def fs_block_def)
  show "log_frame s s" by (rule log_frame_refl)
  show "log_frame s u" if "log_frame s t" "log_frame t u" using that by (rule log_frame_trans)
qed

section \<open>Starting and ending an operation\<close>

lemma begin_op_eq:
  assumes "quiet s" and "curproc (cpu s) = Some p" and "p < length (procs s)"
  shows "begin_op s =
    (if log_committing s \<or> int LOGSIZE < lh_n s + (log_outstanding s + 1) * int MAXOPBLOCKS
     then Switch (hold [PtableLk] (s\<lparr>procs := (procs s)[p := (procs s ! p)\<lparr>chan := Some LogChan, pstate := SLEEPING\<rparr>]\<rparr>))
     else Done () (s\<lparr>log_outstanding := log_outstanding s + 1\<rparr>))"
  using assms by (simp add: begin_op_def begin_op_loop_def lock_simps)

section \<open>Properties\<close>

text \<open>
  C5: \<open>log_write\<close> absorbs.  Inside a transaction with room for a block, \<open>log_write\<close> of a held buffer returns;
  its block is logged afterwards, exactly once, even if it was logged before; no other block is added
  or dropped, the order of the log is kept, and at most one unit of room is used.
\<close>

theorem log_write_absorbs:
  assumes "log_inv s" and "chandles (bufs s) i = Some b" and "fs_block s b"
    and "1 \<le> log_outstanding s" and "0 < log_room s"
  shows "\<exists>s'. log_write i s = Done () s' \<and> log_inv s' \<and>
     logged s' = (if b \<in> set (logged s) then logged s else logged s @ [b]) \<and>
     distinct (logged s') \<and> lview s' = lview s \<and> memdisk s' = memdisk s \<and> log_room s \<le> log_room s' + 1"
proof -
  obtain s' where s': "log_write i s = Done () s'" "log_inv s'"
    "bstore_of s' = (bstore_of s)\<lparr>bs_pinned := insert b (cpinned (bufs s))\<rparr>"
    "logged s' = (if b \<in> set (logged s) then logged s else logged s @ [b])" "log_room s - 1 \<le> log_room s'"
    using log_write_ok[OF assms] by (auto simp: is_done_iff)
  have "distinct (logged s')" using s'(2) by (simp add: log_inv_def)
  then show ?thesis using s' bstore_eq_fields[OF s'(3)] by simp
qed


text \<open>A disk with a superblock, and a machine that runs one operation on it.\<close>

definition demo_disk :: "bytes list" where
  "demo_disk = (replicate 50 (replicate BSIZE 0))[1 := wr32 (wr32 (replicate BSIZE 0) 16 2) 12 10]"

definition log_fresh :: "bytes list \<Rightarrow> log" where
  "log_fresh dk = bio.extend (bio_booted\<lparr>memdisk := dk\<rparr>) (log.fields 2 10 1 False 1 0 (replicate LOGSIZE 0))"

lemma log_fresh_sel [simp]:
  "bufs (log_fresh dk) = bufs bio_booted" "memdisk (log_fresh dk) = dk" "log_start (log_fresh dk) = 2"
  "log_size (log_fresh dk) = 10" "log_outstanding (log_fresh dk) = 1" "log_dev (log_fresh dk) = 1"
  "lh_n (log_fresh dk) = 0" "lh_block (log_fresh dk) = replicate LOGSIZE 0"
  by (simp_all add: log_fresh_def bio.defs log.defs)

lemma log_fresh_ok:
  assumes "\<forall>d\<in>set dk. length d = BSIZE"
  shows "idle (log_fresh dk)"
proof -
  have q: "quiet (log_fresh dk)"
    using bio_booted_ok(1) by (simp add: bio_ok_def quiet_def log_fresh_def bio.defs log.defs)
  have c: "cache_ok (bufs bio_booted) (memdisk bio_booted)" using bio_booted_ok(1) by (simp add: bio_ok_def)
  have nv: "\<not> b_valid (bufs bio_booted ! i)" if "i < NBUF" for i
    using cache_okD(2)[OF c that] bio_booted_ok(6)[OF that] by (simp add: NODEV_def)
  have "cache_ok (bufs bio_booted) dk"
    using c nv assms unfolding cache_ok_def by auto
  then show ?thesis using q bio_booted_ok(3,4) by (simp add: idle_def bio_ok_def)
qed

lemma demo_disk_length: "\<forall>d\<in>set demo_disk. length d = BSIZE" "length demo_disk = 50"
  unfolding demo_disk_def using set_update_subset_insert[of "replicate 50 (replicate BSIZE 0)" 1] by fastforce+

lemma log_demo_ok: "fs_ok (log_fresh demo_disk)" "chandles (bufs (log_fresh demo_disk)) = (\<lambda>_. None)"
proof -
  have "sb_logstart (dec_sb (demo_disk ! 1)) = 2"
    by (simp add: demo_disk_def dec_sb_def rd_wr BSIZE_def)
  moreover have "demo_disk ! 2 = replicate BSIZE 0" by (simp add: demo_disk_def)
  moreover have "dec_n (replicate BSIZE 0) = 0"
    by (simp add: dec_n_def s32_def rd32_def rd16_def BSIZE_def)
  moreover have i: "idle (log_fresh demo_disk)" by (rule log_fresh_ok[OF demo_disk_length(1)])
  ultimately show "fs_ok (log_fresh demo_disk)" "chandles (bufs (log_fresh demo_disk)) = (\<lambda>_. None)"
    by (auto simp: fs_ok_def log_inv_def idle_def demo_disk_length logged_def nbuf_logsize)
qed

definition demo_tx :: log where
  "demo_tx = (case update_block 1 20 (\<lambda>_. replicate BSIZE 7) (log_fresh demo_disk) of
     Done _ s \<Rightarrow> s | _ \<Rightarrow> log_fresh demo_disk)"

lemma demo_tx_ok:
  "fs_ok demo_tx" "transaction demo_tx" "lview demo_tx 20 = replicate BSIZE 7" "length (memdisk demo_tx) = 50"
  "log_start demo_tx = 2" "nat (lh_n demo_tx) < 10" "1 \<le> log_room demo_tx" "fs_block demo_tx 20"
  "20 \<in> cpinned (bufs demo_tx)"
proof -
  let ?s = "log_fresh demo_disk"
  have "is_done (update_block 1 20 (\<lambda>_. replicate BSIZE 7) ?s) (\<lambda>_ s'. fs_ok s' \<and> log_frame ?s s' \<and> log_room ?s - 1 \<le> log_room s' \<and>
     bstore_of s' = (bstore_of ?s)\<lparr>bs_view := (lview ?s)(20 := replicate BSIZE 7), bs_pinned := insert 20 (cpinned (bufs ?s))\<rparr>)"
    by (rule update_block_log[OF log_demo_ok(1)])
      (use log_demo_ok(2) in \<open>simp_all add: fs_block_def demo_disk_length log_room_def ran_def bio_booted_ok\<close>)
  then have t: "fs_ok demo_tx" "log_frame ?s demo_tx"
    "bstore_of demo_tx = (bstore_of ?s)\<lparr>bs_view := (lview ?s)(20 := replicate BSIZE 7), bs_pinned := insert 20 (cpinned (bufs ?s))\<rparr>"
    "log_room ?s - 1 \<le> log_room demo_tx"
    by (auto simp: is_done_iff demo_tx_def)
  note e = bstore_eq_fields[OF t(3), simplified]
  have inv: "log_inv demo_tx" using t(1) by (simp add: fs_ok_def)
  have "20 \<in> set (logged demo_tx)" using inv e by (simp add: log_inv_def)
  then have n: "0 < lh_n demo_tx" by (cases "0 < lh_n demo_tx") (auto simp: logged_def)
  show "fs_ok demo_tx" by fact
  show "transaction demo_tx"
    by (rule log_inv_transaction[OF inv _ n]) (use e log_demo_ok(2) in simp)
  show "lview demo_tx 20 = replicate BSIZE 7" "length (memdisk demo_tx) = 50" "log_start demo_tx = 2"
    "nat (lh_n demo_tx) < 10" "1 \<le> log_room demo_tx" "fs_block demo_tx 20" "20 \<in> cpinned (bufs demo_tx)"
    using t(4) e log_frame_log[OF t(2)] inv by (auto simp: demo_disk_length log_inv_def log_room_def fs_block_def)
qed

theorem commit_crash_atomic_witness:
  "\<exists>s' (r :: log) r'. commit demo_tx = Done () s' \<and> crashed r (memdisk s') \<and> initlog 1 r = Done () r' \<and>
     memdisk r' ! 20 = replicate BSIZE 7"
proof -
  obtain s' ws where s': "commit demo_tx = Done () s'" "bio_ok s'" "memdisk s' = apply_writes ws (memdisk demo_tx)"
      "length ws = 2 * nat (lh_n demo_tx) + 2"
    and all: "\<forall>k\<le>length ws. \<forall>r :: log. crashed r (apply_writes (take k ws) (memdisk demo_tx)) \<longrightarrow>
       (\<exists>r'. initlog 1 r = Done () r' \<and> bio_ok r' \<and> dec_n (memdisk r' ! log_start demo_tx) = 0 \<and>
          (\<forall>b<length (memdisk demo_tx). b < log_start demo_tx \<or> log_start demo_tx + nat (lh_n demo_tx) < b \<longrightarrow>
             memdisk r' ! b = (if k \<le> nat (lh_n demo_tx) then memdisk demo_tx ! b else lview demo_tx b)))"
    using commit_crash_atomic[OF demo_tx_ok(2)] by blast
  have "\<forall>d\<in>set (memdisk s'). length d = BSIZE" using s'(2) by (simp add: bio_ok_def cache_ok_def)
  then have c: "crashed (log_fresh (memdisk s')) (memdisk s')"
    using log_fresh_ok by (simp add: crashed_def)
  have "crashed (log_fresh (memdisk s')) (apply_writes (take (length ws) ws) (memdisk demo_tx))"
    using c s'(3) by simp
  from all[rule_format, OF order_refl this] obtain r' where r': "initlog 1 (log_fresh (memdisk s')) = Done () r'"
    "\<forall>b<length (memdisk demo_tx). b < log_start demo_tx \<or> log_start demo_tx + nat (lh_n demo_tx) < b \<longrightarrow>
       memdisk r' ! b = (if length ws \<le> nat (lh_n demo_tx) then memdisk demo_tx ! b else lview demo_tx b)"
    by (elim exE conjE)
  have "memdisk r' ! 20 = lview demo_tx 20"
    using r'(2)[rule_format, of 20] demo_tx_ok(4,5,6) s'(4) by simp
  then show ?thesis using s'(1) c r'(1) demo_tx_ok(3) by auto
qed


definition demo_open :: log where
  "demo_open = (case bread 1 20 demo_tx of Done _ s \<Rightarrow> s | _ \<Rightarrow> demo_tx)"

theorem log_write_absorbs_witness:
  "\<exists>i s'. log_write i demo_open = Done () s' \<and> logged s' = logged demo_open \<and> distinct (logged s')"
proof -
  have ok: "fs_ok demo_tx" "transaction demo_tx" using demo_tx_ok by auto
  have nh: "chandles (bufs demo_tx) = (\<lambda>_. None)" using ok(2) by (simp add: transaction_def copy_ready_def)
  have room: "1 \<le> log_room demo_tx" using demo_tx_ok(7) .
  have "is_done (andthen (bread 1 20) ret demo_tx) (\<lambda>i s'. fs_ok s' \<and> log_frame demo_tx s' \<and>
      log_room s' = log_room demo_tx \<and>
      bstore_of s' = (bstore_of demo_tx)\<lparr>bs_handles := (chandles (bufs demo_tx))(i \<mapsto> 20)\<rparr>)"
    by (rule bread_log[OF ok(1)]) (use nh demo_tx_ok(4) in \<open>simp_all add: ran_def\<close>)
  then obtain i where i: "fs_ok demo_open" "log_frame demo_tx demo_open" "log_room demo_open = log_room demo_tx"
      "bstore_of demo_open = (bstore_of demo_tx)\<lparr>bs_handles := (chandles (bufs demo_tx))(i \<mapsto> 20)\<rparr>"
    by (auto simp: is_done_iff demo_open_def andthen_eq_Done)
  note e = bstore_eq_fields[OF i(4), simplified]
  have fb: "fs_block demo_open 20"
    using fs_block_frame[OF i(2) e(2)] demo_tx_ok(8) by simp
  have h: "chandles (bufs demo_open) i = Some 20" using e by simp
  have p: "20 \<in> cpinned (bufs demo_open)" using e demo_tx_ok(9) by simp
  have "20 \<in> set (logged demo_open)" using i(1) p by (simp add: fs_ok_def log_inv_def)
  then show ?thesis
    using log_write_absorbs[of demo_open i 20] i(1,3) h fb room by (auto simp: fs_ok_def)
qed

end
