(* ===== verification/Kstring.thy ===== *)
theory Kstring
  imports Kalloc
begin

text \<open>
  \<^verbatim>\<open>string.c\<close>: the kernel's memory and string functions.

  An array is the list of its bytes, a pointer into it an index; a string argument is the list of the
  bytes from the pointer to the end of its array.  A read or write outside an array gives \<open>None\<close>.
  \<open>memset\<close> works on the machine's memory, because its two loops differ in the width of their stores.

  Shown: both loops of \<open>memset\<close> fill the same bytes; \<open>memmove\<close> copies correctly between overlapping
  regions; \<open>strncmp\<close> is \<open>0\<close> exactly for strings that agree in their first \<open>n\<close> characters; \<open>strncpy\<close>
  pads with zeros; \<open>safestrcpy\<close> always terminates its result.
\<close>

unbundle bit_operations_syntax

section \<open>Memory\<close>

fun stosb :: "memory \<Rightarrow> uint \<Rightarrow> uchar \<Rightarrow> nat \<Rightarrow> memory" where
  "stosb m a c 0 = m"
| "stosb m a c (Suc n) = stosb (m(a := c)) (a + 1) c n"

fun stosl :: "memory \<Rightarrow> uint \<Rightarrow> uint \<Rightarrow> nat \<Rightarrow> memory" where
  "stosl m a w 0 = m"
| "stosl m a w (Suc n) = stosl (st32 m a w) (a + 4) w n"

definition memset :: "memory \<Rightarrow> uint \<Rightarrow> uint \<Rightarrow> uint \<Rightarrow> memory" where
  "memset m dst c n =
     (if dst mod 4 = 0 \<and> n mod 4 = 0
      then let c = c AND 0xFF
        in stosl m dst (push_bit 24 c OR push_bit 16 c OR push_bit 8 c OR c) (unat n div 4)
      else stosb m dst (ucast c) (unat n))"

fun memcmp :: "bytes \<Rightarrow> bytes \<Rightarrow> nat \<Rightarrow> int option" where
  "memcmp s1 s2 0 = Some 0"
| "memcmp (a # s1) (b # s2) (Suc n) = (if a \<noteq> b then Some (Word.uint a - Word.uint b) else memcmp s1 s2 n)"
| "memcmp s1 s2 (Suc n) = None"

fun move_up :: "bytes \<Rightarrow> nat \<Rightarrow> nat \<Rightarrow> nat \<Rightarrow> bytes option" where
  "move_up b d s 0 = Some b"
| "move_up b d s (Suc n) =
     (if d < length b \<and> s < length b then move_up (b[d := b ! s]) (d + 1) (s + 1) n else None)"

fun move_down :: "bytes \<Rightarrow> nat \<Rightarrow> nat \<Rightarrow> nat \<Rightarrow> bytes option" where
  "move_down b d s 0 = Some b"
| "move_down b d s (Suc n) =
     (if d - 1 < length b \<and> s - 1 < length b then move_down (b[d - 1 := b ! (s - 1)]) (d - 1) (s - 1) n else None)"

text \<open>\<open>memmove b d s n\<close>: within the array \<open>b\<close>, from index \<open>s\<close> to index \<open>d\<close>.\<close>

definition memmove :: "bytes \<Rightarrow> nat \<Rightarrow> nat \<Rightarrow> nat \<Rightarrow> bytes option" where
  "memmove b d s n = (if s < d \<and> d < s + n then move_down b (d + n) (s + n) n else move_up b d s n)"

definition memcpy :: "bytes \<Rightarrow> nat \<Rightarrow> nat \<Rightarrow> nat \<Rightarrow> bytes option" where
  "memcpy b d s n = memmove b d s n"

section \<open>Strings\<close>

fun strncmp :: "bytes \<Rightarrow> bytes \<Rightarrow> nat \<Rightarrow> int option" where
  "strncmp p q 0 = Some 0"
| "strncmp (a # p) (b # q) (Suc n) =
     (if a \<noteq> 0 \<and> a = b then strncmp p q n else Some (Word.uint a - Word.uint b))"
| "strncmp p q (Suc n) = None"

fun zero_fill :: "bytes \<Rightarrow> nat \<Rightarrow> bytes option" where
  "zero_fill s 0 = Some s"
| "zero_fill (x # s) (Suc n) = map_option ((#) 0) (zero_fill s n)"
| "zero_fill [] (Suc n) = None"

text \<open>\<open>strncpy s t n\<close> and \<open>safestrcpy s t n\<close>: the array \<open>s\<close> after the copy, for \<open>n\<close> not negative.\<close>

fun strncpy :: "bytes \<Rightarrow> bytes \<Rightarrow> nat \<Rightarrow> bytes option" where
  "strncpy s t 0 = Some s"
| "strncpy (x # s) (c # t) (Suc n) = map_option ((#) c) (if c \<noteq> 0 then strncpy s t n else zero_fill s n)"
| "strncpy s t (Suc n) = None"

fun safestrcpy :: "bytes \<Rightarrow> bytes \<Rightarrow> nat \<Rightarrow> bytes option" where
  "safestrcpy s t 0 = Some s"
| "safestrcpy (x # s) t (Suc 0) = Some (0 # s)"
| "safestrcpy (x # s) (c # t) (Suc (Suc n)) = map_option ((#) c)
     (if c \<noteq> 0 then safestrcpy s t (Suc n) else case s of [] \<Rightarrow> None | y # s' \<Rightarrow> Some (0 # s'))"
| "safestrcpy s t n = None"

fun strlen :: "bytes \<Rightarrow> nat option" where
  "strlen [] = None"
| "strlen (c # s) = (if c = 0 then Some 0 else map_option Suc (strlen s))"

text \<open>The characters of a C string: those before its first zero byte.\<close>

definition cstr :: "bytes \<Rightarrow> bytes" where
  "cstr s = takeWhile (\<lambda>c. c \<noteq> 0) s"

section \<open>Facts\<close>

lemma cstr_simps [simp]: "cstr [] = []" "cstr (c # s) = (if c = 0 then [] else c # cstr s)"
  by (simp_all add: cstr_def)

lemma move_up_length: "move_up b d s n = Some b' \<Longrightarrow> length b' = length b"
  by (induction b d s n rule: move_up.induct) (auto split: if_splits)

text \<open>Copying upwards is right when the destination is not inside the rest of the source.\<close>

lemma move_up_nth:
  assumes "d \<le> s \<or> s + n \<le> d" "d + n \<le> length b" "s + n \<le> length b"
  shows "\<exists>b'. move_up b d s n = Some b' \<and> length b' = length b \<and>
    (\<forall>i<length b. b' ! i = (if d \<le> i \<and> i < d + n then b ! (s + (i - d)) else b ! i))"
  using assms
proof (induction b d s n rule: move_up.induct)
  case (2 b d s n)
  let ?c = "b[d := b ! s]"
  obtain b' where b': "move_up ?c (d + 1) (s + 1) n = Some b'" "length b' = length b"
    "\<forall>i<length b. b' ! i = (if d + 1 \<le> i \<and> i < d + 1 + n then ?c ! (s + 1 + (i - (d + 1))) else ?c ! i)"
    using 2 by auto
  have "b' ! i = (if d \<le> i \<and> i < d + Suc n then b ! (s + (i - d)) else b ! i)" if "i < length b" for i
    using b'(3)[rule_format, OF that] 2(2-4) that by (cases "i = d") (auto simp: nth_list_update Suc_diff_Suc)
  then show ?case using b' 2(3,4) by auto
qed auto

text \<open>\<open>d\<close> and \<open>s\<close> are the ends of the regions here.\<close>

lemma move_down_nth:
  assumes "s < d" "d \<le> length b" "n \<le> s"
  shows "\<exists>b'. move_down b d s n = Some b' \<and> length b' = length b \<and>
    (\<forall>i<length b. b' ! i = (if d - n \<le> i \<and> i < d then b ! (i - (d - s)) else b ! i))"
  using assms
proof (induction b d s n rule: move_down.induct)
  case (2 b d s n)
  let ?c = "b[d - 1 := b ! (s - 1)]"
  have "d - 1 < length b \<and> s - 1 < length b" "s - 1 < d - 1" "d - 1 \<le> length ?c" "n \<le> s - 1"
    using 2(2-4) by auto
  from 2(1)[OF this] obtain b' where b': "move_down ?c (d - 1) (s - 1) n = Some b'" "length b' = length b"
    "\<forall>i<length b. b' ! i = (if d - 1 - n \<le> i \<and> i < d - 1 then ?c ! (i - (d - 1 - (s - 1))) else ?c ! i)"
    by auto
  have "b' ! i = (if d - Suc n \<le> i \<and> i < d then b ! (i - (d - s)) else b ! i)" if "i < length b" for i
    using b'(3)[rule_format, OF that] 2(2-4) that by (cases "i = d - 1") (auto simp: nth_list_update)
  then show ?case using b' 2(2-4) by auto
qed auto

lemma blit_nthI:
  assumes "length b' = length b" "d + n \<le> length b" "s + n \<le> length b"
    and "\<And>i. i < length b \<Longrightarrow> b' ! i = (if d \<le> i \<and> i < d + n then b ! (s + (i - d)) else b ! i)"
  shows "b' = blit b d (take n (drop s b))"
  using assms by (intro nth_equalityI) (auto simp: nth_blit)

lemma stosb_eq: "n \<le> 2 ^ 32 \<Longrightarrow> stosb m a c n = (\<lambda>x. if unat (x - a) < n then c else m x)"
proof (induction m a c n rule: stosb.induct)
  case (2 m a c n)
  have "unat (x - (a + 1)) = unat (x - a) - 1" if "x \<noteq> a" for x
    using unat_minus_one[of "x - a"] that by (simp add: diff_diff_eq)
  moreover have "unat (x - a) \<noteq> 0" if "x \<noteq> a" for x using that by (simp add: unat_eq_0)
  ultimately show ?case using 2 by (fastforce simp: fun_eq_iff)
qed simp

lemma word_near:
  fixes x a :: uint
  shows "unat (x - a) < 4 \<longleftrightarrow> x = a \<or> x = a + 1 \<or> x = a + 2 \<or> x = a + 3"
proof
  assume "unat (x - a) < 4"
  then have "unat (x - a) \<in> {0, 1, 2, 3}" by auto
  then have "x - a \<in> {0, 1, 2, 3}"
    by (auto simp: word_unat_eq_iff)
  then show "x = a \<or> x = a + 1 \<or> x = a + 2 \<or> x = a + 3" by (auto simp: diff_eq_eq add.commute)
qed auto

lemma st32_fill:
  assumes "\<And>k. k < 4 \<Longrightarrow> ucast (drop_bit (8 * k) w) = c"
  shows "st32 m a w = (\<lambda>x. if unat (x - a) < 4 then c else m x)"
  using assms[of 0] assms[of 1] assms[of 2] assms[of 3] by (auto simp: st32_def fun_eq_iff word_near)

lemma stosl_eq:
  assumes "n < 2 ^ 30" and "\<And>k. k < 4 \<Longrightarrow> ucast (drop_bit (8 * k) w) = c"
  shows "stosl m a w n = (\<lambda>x. if unat (x - a) < 4 * n then c else m x)"
  using assms
proof (induction m a w n rule: stosl.induct)
  case (2 m a w n)
  have "(unat (x - (a + 4)) < 4 * n \<or> unat (x - a) < 4) \<longleftrightarrow> unat (x - a) < 4 * Suc n" for x
  proof (cases "unat (x - a) < 4")
    case False
    then have "4 \<le> x - a" by (simp add: word_le_nat_alt)
    then have "unat (x - (a + 4)) = unat (x - a) - 4"
      using unat_sub[of 4 "x - a"] by (simp add: diff_diff_eq)
    then show ?thesis using False by auto
  qed simp
  moreover have "stosl (st32 m a w) (a + 4) w n = (\<lambda>x. if unat (x - (a + 4)) < 4 * n then c else st32 m a w x)"
    using 2 by simp
  moreover have "st32 m a w x = (if unat (x - a) < 4 then c else m x)" for x
    using st32_fill[of w c m a] 2(3) by simp
  ultimately show ?case by (auto simp only: stosl.simps fun_eq_iff split: if_splits)
qed simp

lemma ucast_quad:
  fixes c :: uint
  assumes "k < 4"
  defines "d \<equiv> c AND 0xFF"
  shows "ucast (drop_bit (8 * k) (push_bit 24 d OR push_bit 16 d OR push_bit 8 d OR d)) = (ucast c :: uchar)"
proof (rule bit_word_eqI)
  fix i assume "i < LENGTH(8)"
  then have i: "i < 8" by simp
  have m: "(0xFF :: uint) = mask 8" by (simp add: mask_eq_exp_minus_1)
  have k: "k = 0 \<or> k = 1 \<or> k = 2 \<or> k = 3" using assms by auto
  have b: "bit d j \<longleftrightarrow> j < 8 \<and> bit c j" for j
    unfolding d_def m by (auto simp: bit_and_iff bit_mask_iff)
  have "bit (push_bit 24 d OR push_bit 16 d OR push_bit 8 d OR d) (8 * k + i) \<longleftrightarrow> bit c i"
    using k i by (auto simp: bit_or_iff bit_push_bit_iff b)
  then show "bit (ucast (drop_bit (8 * k) (push_bit 24 d OR push_bit 16 d OR push_bit 8 d OR d)) :: uchar) i
      \<longleftrightarrow> bit (ucast c :: uchar) i"
    using i by (simp add: bit_ucast_iff bit_drop_bit_eq del: drop_bit_or)
qed

lemma memset_eq: "memset m a c n = mem_fill m a n (ucast c)"
proof (cases "a mod 4 = 0 \<and> n mod 4 = 0")
  case True
  have "unat n mod 4 = 0" using True unat_mod[of n 4] by simp
  then have "4 * (unat n div 4) = unat n" by auto
  moreover have "unat n div 4 < 2 ^ 30" by (rule less_mult_imp_div_less) (use unat_uint_less[of n] in simp)
  ultimately show ?thesis
    using True stosl_eq[where n = "unat n div 4" and m = m and a = a, OF _ ucast_quad[of _ c]]
    by (simp add: memset_def Let_def mem_fill_def word_less_nat_alt)
next
  case False
  then show ?thesis
    using stosb_eq[OF less_imp_le[OF unat_uint_less[of n]], of m a "ucast c"]
    by (auto simp: memset_def mem_fill_def word_less_nat_alt)
qed

text \<open>C strings.\<close>

lemma strlen_eq: "strlen s = (if 0 \<in> set s then Some (length (cstr s)) else None)"
  by (induction s) auto

lemma strncmp_0:
  assumes "n \<le> length p \<or> 0 \<in> set p" "n \<le> length q \<or> 0 \<in> set q"
  shows "\<exists>r. strncmp p q n = Some r \<and> (r = 0 \<longleftrightarrow> take n (cstr p) = take n (cstr q))"
  using assms by (induction p q n rule: strncmp.induct) (auto simp: word_uint_eq_iff)

lemma zero_fill_eq: "n \<le> length s \<Longrightarrow> zero_fill s n = Some (replicate n 0 @ drop n s)"
  by (induction s n rule: zero_fill.induct) auto

lemma strncpy_eq:
  assumes "n \<le> length s" "n \<le> length t \<or> 0 \<in> set t"
  shows "strncpy s t n = Some (take n (cstr t) @ replicate (n - length (cstr t)) 0 @ drop n s)"
  using assms by (induction s t n rule: strncpy.induct) (auto simp: zero_fill_eq)

lemma safestrcpy_eq:
  assumes "0 < n" "n \<le> length s" "n \<le> length t \<or> 0 \<in> set t"
  shows "\<exists>r. safestrcpy s t n = Some r \<and> length r = length s \<and> cstr r = take (n - 1) (cstr t) \<and> drop n r = drop n s"
  using assms by (induction s t n rule: safestrcpy.induct) (auto split: list.splits)

section \<open>Properties\<close>

text \<open>
  C15: \<open>memmove\<close> copies a region onto another one of the same array as if through a temporary copy,
  whether or not the two overlap and in either direction.
\<close>

theorem memmove_overlap:
  assumes "d + n \<le> length b" "s + n \<le> length b"
  shows "memmove b d s n = Some (blit b d (take n (drop s b)))"
proof (cases "s < d \<and> d < s + n")
  case True
  have "s + n < d + n" "n \<le> s + n" using True by auto
  from move_down_nth[OF this(1) assms(1) this(2)] obtain b' where
    b': "move_down b (d + n) (s + n) n = Some b'" "length b' = length b"
      "\<forall>i<length b. b' ! i = (if d \<le> i \<and> i < d + n then b ! (i - (d + n - (s + n))) else b ! i)"
    by auto
  have "b' = blit b d (take n (drop s b))"
    using b' True by (intro blit_nthI assms) (auto intro!: arg_cong[of _ _ "(!) b"])
  then show ?thesis using b' True by (simp add: memmove_def)
next
  case False
  then have "d \<le> s \<or> s + n \<le> d" by auto
  from move_up_nth[OF this assms] obtain b' where
    b': "move_up b d s n = Some b'" "length b' = length b"
      "\<forall>i<length b. b' ! i = (if d \<le> i \<and> i < d + n then b ! (s + (i - d)) else b ! i)"
    by auto
  have "b' = blit b d (take n (drop s b))" using b' by (intro blit_nthI assms) auto
  then show ?thesis using b' False by (auto simp: memmove_def)
qed

theorem memmove_overlap_witness:
  "memmove [1, 2, 3, 4, 5] 1 0 4 = Some [1, 1, 2, 3, 4] \<and> memmove [1, 2, 3, 4, 5] 0 1 4 = Some [2, 3, 4, 5, 5]"
  using memmove_overlap[of 1 4 "[1, 2, 3, 4, 5]" 0] memmove_overlap[of 0 4 "[1, 2, 3, 4, 5]" 1]
  by (simp add: blit_def)

text \<open>
  C16: \<open>memset\<close> sets exactly the \<open>n\<close> bytes from its address to the low byte of its argument and no other,
  whether it stores words (address and length divisible by four) or bytes, also when the region wraps
  around the end of the address space.
\<close>

theorem memset_correct:
  "memset m a c n x = (if unat (x - a) < unat n then ucast c else m x)"
  by (simp add: memset_eq mem_fill_def word_less_nat_alt)

end
