(* ===== verification/Vm.thy ===== *)
theory Vm
  imports Kstring
begin

text \<open>
  \<^verbatim>\<open>vm.c\<close>: page tables.

  The kernel reads and writes page directories and page tables through the addresses at which it maps
  physical memory, so they live in \<open>mem\<close>; a pointer to a page-table entry is its address, and \<open>0\<close> is
  the null pointer.  \<open>loaduvm\<close>, which needs the file system, is in theory \<open>Exec\<close>; \<open>kvmalloc\<close>,
  \<open>switchkvm\<close> and \<open>switchuvm\<close>, which set the page-table register, are in theory \<open>Proc\<close>.

  The loops over the pages of a range have fuel \<open>NPAGES\<close>, the number of pages of the address space;
  running out of it is \<open>Spin\<close>.
\<close>

unbundle bit_operations_syntax

section \<open>Page-table entries\<close>

definition NPDENTRIES :: nat where "NPDENTRIES = 1024"
definition NPTENTRIES :: nat where "NPTENTRIES = 1024"

definition PTE_P :: uint where "PTE_P = 0x001"
definition PTE_W :: uint where "PTE_W = 0x002"
definition PTE_U :: uint where "PTE_U = 0x004"

definition PTE_ADDR :: "uint \<Rightarrow> uint" where "PTE_ADDR pte = pte AND NOT 0xFFF"
definition PTE_FLAGS :: "uint \<Rightarrow> uint" where "PTE_FLAGS pte = pte AND 0xFFF"

definition PDX :: "uint \<Rightarrow> uint" where "PDX va = drop_bit 22 va AND 0x3FF"
definition PTX :: "uint \<Rightarrow> uint" where "PTX va = drop_bit 12 va AND 0x3FF"

definition NPAGES :: nat where "NPAGES = 2 ^ 20"

text \<open>\<open>mem_store m a bs\<close> and \<open>mem_copy m d s n\<close> are \<open>memmove\<close> from an array of the kernel and from
  memory.\<close>

definition mem_store :: "memory \<Rightarrow> uint \<Rightarrow> bytes \<Rightarrow> memory" where
  "mem_store m a bs = (\<lambda>x. if unat (x - a) < length bs then bs ! unat (x - a) else m x)"

definition mem_copy :: "memory \<Rightarrow> uint \<Rightarrow> uint \<Rightarrow> uint \<Rightarrow> memory" where
  "mem_copy m d a n = (\<lambda>x. if x - d < n then m (a + (x - d)) else m x)"

abbreviation set_mem :: "(memory \<Rightarrow> memory) \<Rightarrow> (unit, 'a kmem_scheme) kop" where
  "set_mem f \<equiv> modify (\<lambda>s. s\<lparr>mem := f (mem s)\<rparr>)"

section \<open>Walking and mapping\<close>

definition walkpgdir :: "uint \<Rightarrow> uint \<Rightarrow> bool \<Rightarrow> (uint, 'a kmem_scheme) kop" where
  "walkpgdir pgd va alloc = (\<lambda>s.
     let pde = pgd + 4 * PDX va
     in if ld32 (mem s) pde AND PTE_P \<noteq> 0
     then Done (p2v (PTE_ADDR (ld32 (mem s) pde)) + 4 * PTX va) s
     else if \<not> alloc then Done 0 s
     else andthen kalloc (\<lambda>pgtab.
       if pgtab = 0 then ret 0
       else andthen (set_mem (\<lambda>m. memset m pgtab 0 PGSIZE)) (\<lambda>_.
         andthen (set_mem (\<lambda>m. st32 m pde (v2p pgtab OR PTE_P OR PTE_W OR PTE_U))) (\<lambda>_.
         ret (pgtab + 4 * PTX va)))) s)"

fun mappages_loop :: "nat \<Rightarrow> uint \<Rightarrow> uint \<Rightarrow> uint \<Rightarrow> uint \<Rightarrow> uint \<Rightarrow> (int, 'a kmem_scheme) kop" where
  "mappages_loop 0 pgd a lst pa perm = (\<lambda>s. Spin)"
| "mappages_loop (Suc n) pgd a lst pa perm =
     andthen (walkpgdir pgd a True) (\<lambda>pte s.
       if pte = 0 then Done (- 1) s
       else if ld32 (mem s) pte AND PTE_P \<noteq> 0 then Panic ''remap''
       else andthen (set_mem (\<lambda>m. st32 m pte (pa OR perm OR PTE_P))) (\<lambda>_.
         if a = lst then ret 0
         else mappages_loop n pgd (a + PGSIZE) lst (pa + PGSIZE) perm) s)"

definition mappages :: "uint \<Rightarrow> uint \<Rightarrow> uint \<Rightarrow> uint \<Rightarrow> uint \<Rightarrow> (int, 'a kmem_scheme) kop" where
  "mappages pgd va n pa perm =
     mappages_loop NPAGES pgd (PGROUNDDOWN va) (PGROUNDDOWN (va + n - 1)) pa perm"

record kmap_entry =
  km_virt :: uint
  km_phys_start :: uint
  km_phys_end :: uint
  km_perm :: uint

text \<open>The argument is the address of the linker symbol \<^verbatim>\<open>data\<close>.\<close>

definition kmap :: "uint \<Rightarrow> kmap_entry list" where
  "kmap data =
    [\<lparr>km_virt = KERNBASE, km_phys_start = 0, km_phys_end = EXTMEM, km_perm = PTE_W\<rparr>,
     \<lparr>km_virt = KERNLINK, km_phys_start = v2p KERNLINK, km_phys_end = v2p data, km_perm = 0\<rparr>,
     \<lparr>km_virt = data, km_phys_start = v2p data, km_phys_end = PHYSTOP, km_perm = PTE_W\<rparr>,
     \<lparr>km_virt = DEVSPACE, km_phys_start = DEVSPACE, km_phys_end = 0, km_perm = PTE_W\<rparr>]"

fun kmap_all :: "uint \<Rightarrow> kmap_entry list \<Rightarrow> (uint, 'a kmem_scheme) kop" where
  "kmap_all pgd [] = ret pgd"
| "kmap_all pgd (k # ks) =
     andthen (mappages pgd (km_virt k) (km_phys_end k - km_phys_start k) (km_phys_start k) (km_perm k)) (\<lambda>r.
     if r < 0 then ret 0 else kmap_all pgd ks)"

definition setupkvm :: "(uint, 'a kmem_scheme) kop" where
  "setupkvm =
     andthen kalloc (\<lambda>pgd.
     if pgd = 0 then ret 0
     else andthen (set_mem (\<lambda>m. memset m pgd 0 PGSIZE)) (\<lambda>_ s.
       if DEVSPACE < p2v PHYSTOP then Panic ''PHYSTOP too high''
       else kmap_all pgd (kmap (kdata s)) s))"

definition inituvm :: "uint \<Rightarrow> bytes \<Rightarrow> (unit, 'a kmem_scheme) kop" where
  "inituvm pgd init =
     (if unat PGSIZE \<le> length init then panic ''inituvm: more than a page''
      else andthen kalloc (\<lambda>mem.
        andthen (set_mem (\<lambda>m. memset m mem 0 PGSIZE)) (\<lambda>_.
        andthen (mappages pgd 0 PGSIZE (v2p mem) (PTE_W OR PTE_U)) (\<lambda>_.
        set_mem (\<lambda>m. mem_store m mem init)))))"

section \<open>Growing and shrinking user memory\<close>

fun deallocuvm_loop :: "nat \<Rightarrow> uint \<Rightarrow> uint \<Rightarrow> uint \<Rightarrow> (unit, 'a kmem_scheme) kop" where
  "deallocuvm_loop 0 pgd a oldsz = (\<lambda>s. Spin)"
| "deallocuvm_loop (Suc n) pgd a oldsz =
     (if a < oldsz
      then andthen (walkpgdir pgd a False) (\<lambda>pte s.
        if pte = 0 then deallocuvm_loop n pgd (a + of_nat (NPTENTRIES - 1) * PGSIZE + PGSIZE) oldsz s
        else if ld32 (mem s) pte AND PTE_P \<noteq> 0
        then let pa = PTE_ADDR (ld32 (mem s) pte)
          in if pa = 0 then Panic ''kfree''
          else andthen (kfree (p2v pa)) (\<lambda>_.
            andthen (set_mem (\<lambda>m. st32 m pte 0)) (\<lambda>_.
            deallocuvm_loop n pgd (a + PGSIZE) oldsz)) s
        else deallocuvm_loop n pgd (a + PGSIZE) oldsz s)
      else ret ())"

definition deallocuvm :: "uint \<Rightarrow> uint \<Rightarrow> uint \<Rightarrow> (uint, 'a kmem_scheme) kop" where
  "deallocuvm pgd oldsz newsz =
     (if oldsz \<le> newsz then ret oldsz
      else andthen (deallocuvm_loop NPAGES pgd (PGROUNDUP newsz) oldsz) (\<lambda>_. ret newsz))"

text \<open>The result of \<open>mappages\<close> is ignored, as in the code.\<close>

fun allocuvm_loop :: "nat \<Rightarrow> uint \<Rightarrow> uint \<Rightarrow> uint \<Rightarrow> uint \<Rightarrow> (uint, 'a kmem_scheme) kop" where
  "allocuvm_loop 0 pgd a oldsz newsz = (\<lambda>s. Spin)"
| "allocuvm_loop (Suc n) pgd a oldsz newsz =
     (if a < newsz
      then andthen kalloc (\<lambda>mem.
        if mem = 0
        then andthen (cprintf (''allocuvm out of memory'' @ [CHR 0x0A]) []) (\<lambda>_.
             andthen (deallocuvm pgd newsz oldsz) (\<lambda>_. ret 0))
        else andthen (set_mem (\<lambda>m. memset m mem 0 PGSIZE)) (\<lambda>_.
          andthen (mappages pgd a PGSIZE (v2p mem) (PTE_W OR PTE_U)) (\<lambda>_.
          allocuvm_loop n pgd (a + PGSIZE) oldsz newsz)))
      else ret newsz)"

definition allocuvm :: "uint \<Rightarrow> uint \<Rightarrow> uint \<Rightarrow> (uint, 'a kmem_scheme) kop" where
  "allocuvm pgd oldsz newsz =
     (if KERNBASE \<le> newsz then ret 0
      else if newsz < oldsz then ret oldsz
      else allocuvm_loop NPAGES pgd (PGROUNDUP oldsz) oldsz newsz)"

definition freevm :: "uint \<Rightarrow> (unit, 'a kmem_scheme) kop" where
  "freevm pgd =
     (if pgd = 0 then panic ''freevm: no pgd''
      else andthen (deallocuvm pgd KERNBASE 0) (\<lambda>_.
        andthen (for_each [0..<NPDENTRIES] (\<lambda>i s.
          let pde = ld32 (mem s) (pgd + 4 * of_nat i)
          in if pde AND PTE_P \<noteq> 0 then kfree (p2v (PTE_ADDR pde)) s else Done () s)) (\<lambda>_.
        kfree pgd)))"

definition clearpteu :: "uint \<Rightarrow> uint \<Rightarrow> (unit, 'a kmem_scheme) kop" where
  "clearpteu pgd uva =
     andthen (walkpgdir pgd uva False) (\<lambda>pte.
     if pte = 0 then panic ''clearpteu''
     else set_mem (\<lambda>m. st32 m pte (ld32 m pte AND NOT PTE_U)))"

fun copyuvm_loop :: "nat \<Rightarrow> uint \<Rightarrow> uint \<Rightarrow> uint \<Rightarrow> uint \<Rightarrow> (uint, 'a kmem_scheme) kop" where
  "copyuvm_loop 0 pgd d i usz = (\<lambda>s. Spin)"
| "copyuvm_loop (Suc n) pgd d i usz =
     (if i < usz
      then andthen (walkpgdir pgd i False) (\<lambda>pte s.
        if pte = 0 then Panic ''copyuvm: pte should exist''
        else if ld32 (mem s) pte AND PTE_P = 0 then Panic ''copyuvm: page not present''
        else let pa = PTE_ADDR (ld32 (mem s) pte); flags = PTE_FLAGS (ld32 (mem s) pte)
          in andthen kalloc (\<lambda>mem.
            if mem = 0 then andthen (freevm d) (\<lambda>_. ret 0)
            else andthen (set_mem (\<lambda>m. mem_copy m mem (p2v pa) PGSIZE)) (\<lambda>_.
              andthen (mappages d i PGSIZE (v2p mem) flags) (\<lambda>r.
              if r < 0 then andthen (freevm d) (\<lambda>_. ret 0)
              else copyuvm_loop n pgd d (i + PGSIZE) usz))) s)
      else ret d)"

definition copyuvm :: "uint \<Rightarrow> uint \<Rightarrow> (uint, 'a kmem_scheme) kop" where
  "copyuvm pgd usz =
     andthen setupkvm (\<lambda>d. if d = 0 then ret 0 else copyuvm_loop NPAGES pgd d 0 usz)"

section \<open>Access to user memory\<close>

text \<open>\<open>uva2ka\<close> reads the entry without testing whether \<open>walkpgdir\<close> found one.\<close>

definition uva2ka :: "uint \<Rightarrow> uint \<Rightarrow> (uint, 'a kmem_scheme) kop" where
  "uva2ka pgd uva =
     andthen (walkpgdir pgd uva False) (\<lambda>pte s.
     if pte = 0 then Fault
     else let e = ld32 (mem s) pte
       in if e AND PTE_P = 0 then Done 0 s
       else if e AND PTE_U = 0 then Done 0 s
       else Done (p2v (PTE_ADDR e)) s)"

function copyout :: "uint \<Rightarrow> uint \<Rightarrow> bytes \<Rightarrow> (int, 'a kmem_scheme) kop" where
  "copyout pgd va buf =
     (if buf = [] then ret 0
      else let va0 = PGROUNDDOWN va
        in andthen (uva2ka pgd va0) (\<lambda>pa0.
          if pa0 = 0 then ret (- 1)
          else let n = min (unat (PGSIZE - (va - va0))) (length buf)
            in andthen (set_mem (\<lambda>m. mem_store m (pa0 + (va - va0)) (take n buf))) (\<lambda>_.
              copyout pgd (va0 + PGSIZE) (drop n buf))))"
  by pat_completeness auto

lemma va_offset: "unat (va - PGROUNDDOWN va) = unat va mod 4096"
proof -
  have "PGROUNDDOWN va \<le> va" by (simp add: word_le_nat_alt PGROUNDDOWN_unat)
  then have "unat (va - PGROUNDDOWN va) = unat va - 4096 * (unat va div 4096)"
    using unat_sub[of "PGROUNDDOWN va" va] by (simp add: PGROUNDDOWN_unat)
  then show ?thesis by (simp add: minus_mult_div_eq_mod)
qed

lemma va_rest: "unat (PGSIZE - (va - PGROUNDDOWN va)) = 4096 - unat va mod 4096"
proof -
  have "va - PGROUNDDOWN va \<le> PGSIZE"
    using va_offset[of va] by (simp add: word_le_nat_alt PGSIZE_def)
  then show ?thesis using unat_sub[of "va - PGROUNDDOWN va" PGSIZE] va_offset[of va] by (simp add: PGSIZE_def)
qed

termination copyout
  by (relation "measure (\<lambda>(_, _, buf). length buf)") (auto simp: va_rest)

declare copyout.simps [simp del]

section \<open>Entries of a page\<close>

lemma aligned_bits: "page_aligned y \<longleftrightarrow> (\<forall>n<12. \<not> bit y n)"
proof -
  have "y mod PGSIZE = take_bit 12 y" by (simp add: PGSIZE_def take_bit_eq_mod)
  then show ?thesis by (auto simp: bit_eq_iff bit_take_bit_iff)
qed

lemma aligned_v2p [simp]: "page_aligned (v2p t) \<longleftrightarrow> page_aligned t"
proof -
  have e: "v2p t = t + KERNBASE" by (simp add: v2p_def KERNBASE_def)
  have "unat (t + KERNBASE) = (unat t + 2147483648) mod 4294967296"
    unfolding KERNBASE_def by (subst unat_word_ariths) simp
  moreover have "((unat t + 2147483648) mod 4294967296) mod 4096 = (unat t + 2147483648) mod 4096"
    by (rule mod_mod_cancel) (simp add: dvd_def exI[of _ 1048576])
  moreover have "(unat t + 2147483648) mod 4096 = unat t mod 4096"
    using mod_mult_self1[of "unat t" 524288 4096] by simp
  ultimately show ?thesis unfolding page_aligned_unat e by simp
qed

lemma p2v_v2p [simp]: "p2v (v2p t) = t" "v2p (p2v t) = t"
  by (simp_all add: p2v_def v2p_def)

lemma FFF_mask: "(0xFFF :: uint) = mask 12"
  by (simp add: mask_eq_exp_minus_1)

lemma PTE_ADDR_aligned [simp]: "page_aligned (PTE_ADDR e)"
  by (simp add: aligned_bits PTE_ADDR_def FFF_mask bit_simps)

lemma PTE_ADDR_or:
  assumes "page_aligned y" "f AND NOT 0xFFF = 0"
  shows "PTE_ADDR (y OR f) = y"
proof (rule bit_word_eqI)
  fix n assume n: "n < LENGTH(32)"
  have "bit (f AND NOT 0xFFF) n = False" using assms(2) by simp
  then show "bit (PTE_ADDR (y OR f)) n \<longleftrightarrow> bit y n"
    using assms(1) n by (cases "n < 12") (auto simp: aligned_bits PTE_ADDR_def FFF_mask bit_simps)
qed

text \<open>Word \<open>i\<close> of the page at \<open>p\<close>.\<close>

abbreviation ent :: "uint \<Rightarrow> uint \<Rightarrow> uint" where
  "ent p i \<equiv> p + 4 * i"

lemma unat_4: "i < 1024 \<Longrightarrow> unat (4 * i :: uint) = 4 * unat i"
  by (simp add: word_less_nat_alt unat_word_ariths)

lemma ent_unat: "page_aligned p \<Longrightarrow> i < 1024 \<Longrightarrow> unat (ent p i) = unat p + 4 * unat i"
  using page_add_unat[of p "4 * i"] by (simp add: unat_4 PGSIZE_def word_less_nat_alt)

lemma ent_byte:
  assumes "page_aligned p" "i < 1024" "k < 4"
  shows "unat (ent p i + of_nat k) = unat p + 4 * unat i + k"
proof -
  have i: "unat i < 1024" using assms(2) by (simp add: word_less_nat_alt)
  have "unat p mod 4096 = 0" using assms(1) by (simp add: page_aligned_unat)
  then obtain q where q: "unat p = 4096 * q" by (auto simp: mod_eq_0_iff_dvd)
  then have "q < 1048576" using unat32_less[of p] by linarith
  then have "unat (ent p i) + k < 4294967296" using q i assms(3) ent_unat[OF assms(1,2)] by linarith
  then show ?thesis using unat_add_of_nat[of "ent p i" k] ent_unat[OF assms(1,2)] by simp
qed

lemma ent_in_page:
  assumes "page_aligned p" "i < 1024" "k < 4"
  shows "ent p i + of_nat k - p < PGSIZE"
proof -
  have "unat (4 * i + of_nat k) = 4 * unat i + k"
    using unat_add_of_nat[of "4 * i" k] assms by (simp add: unat_4 word_less_nat_alt)
  moreover have "ent p i + of_nat k - p = 4 * i + of_nat k" by simp
  ultimately show ?thesis using assms by (simp add: PGSIZE_def word_less_nat_alt)
qed

lemma ld32_ent_cong:
  assumes "page_aligned p" "i < 1024" "\<And>x. x - p < PGSIZE \<Longrightarrow> m' x = m x"
  shows "ld32 m' (ent p i) = ld32 m (ent p i)"
  by (rule ld32_cong, rule assms(3), rule ent_in_page[OF assms(1,2)])

lemma ent_inj:
  assumes "page_aligned p" "page_aligned q" "i < 1024" "j < 1024" "k < 4" "l < 4"
    and eq: "ent p i + of_nat k = ent q j + of_nat l"
  shows "p = q \<and> i = j \<and> k = l"
proof -
  have "p = q"
    using page_unique[OF assms(1,2), of "ent p i + of_nat k"] ent_in_page[of p i k] ent_in_page[of q j l] assms
    by simp
  have "4 * unat i + k = 4 * unat j + l"
    using ent_byte[OF assms(1,3,5), unfolded eq] ent_byte[OF assms(2,4,6)] \<open>p = q\<close> by simp
  then have "unat i = unat j" "k = l" using assms(5,6) by arith+
  then show ?thesis using \<open>p = q\<close> by (simp add: word_unat_eq_iff)
qed

lemma st32_other:
  assumes "\<And>k. k < 4 \<Longrightarrow> x \<noteq> a + of_nat k"
  shows "st32 m a v x = m x"
  using assms[of 0] assms[of 1] assms[of 2] assms[of 3] by (simp add: st32_def)

lemma ld32_st32_ent:
  assumes "page_aligned p" "page_aligned q" "i < 1024" "j < 1024"
  shows "ld32 (st32 m (ent p i) v) (ent q j) = (if p = q \<and> i = j then v else ld32 m (ent q j))"
proof (cases "p = q \<and> i = j")
  case False
  have "ld32 (st32 m (ent p i) v) (ent q j) = ld32 m (ent q j)"
  proof (rule ld32_cong, rule st32_other)
    fix k l :: nat assume "k < 4" "l < 4"
    then show "ent q j + of_nat k \<noteq> ent p i + of_nat l"
      using ent_inj[OF assms(2,1,4,3), of k l] False by auto
  qed
  then show ?thesis using False by auto
qed auto

lemma st32_ent_outside:
  assumes "page_aligned p" "i < 1024" "\<not> x - p < PGSIZE"
  shows "st32 m (ent p i) v x = m x"
  by (rule st32_other) (use ent_in_page[OF assms(1,2)] assms(3) in auto)

lemma PDX_PTX_less [simp]: "PDX va < 1024" "PTX va < 1024"
proof -
  have "(x :: uint) AND 0x3FF < 1024" for x
  proof -
    have "x AND 0x3FF = take_bit 10 x" by (simp add: take_bit_eq_mask mask_eq_exp_minus_1)
    also have "\<dots> = x mod 1024" by (simp add: take_bit_eq_mod)
    finally show ?thesis by (simp add: word_less_nat_alt unat_mod)
  qed
  then show "PDX va < 1024" "PTX va < 1024" by (simp_all add: PDX_def PTX_def)
qed


section \<open>Page tables as functions\<close>

text \<open>
  \<open>pte_of m pgd va\<close> is the entry the processor finds for the address \<open>va\<close>, \<open>0\<close> when there is no page
  table for it.  \<open>pt_ok s ps pgd\<close>: the page directory and its page tables are distinct pages, and none of
  them is one of the free pages \<open>ps\<close>.
\<close>

definition present :: "uint \<Rightarrow> bool" where
  "present e \<longleftrightarrow> e AND PTE_P \<noteq> 0"

definition pde_of :: "memory \<Rightarrow> uint \<Rightarrow> uint \<Rightarrow> uint" where
  "pde_of m pgd i = ld32 m (ent pgd i)"

definition pgtab :: "memory \<Rightarrow> uint \<Rightarrow> uint \<Rightarrow> uint" where
  "pgtab m pgd i = p2v (PTE_ADDR (pde_of m pgd i))"

definition pte_of :: "memory \<Rightarrow> uint \<Rightarrow> uint \<Rightarrow> uint" where
  "pte_of m pgd va =
     (if present (pde_of m pgd (PDX va)) then ld32 m (ent (pgtab m pgd (PDX va)) (PTX va)) else 0)"

definition pt_ok :: "'a kmem_scheme \<Rightarrow> uint list \<Rightarrow> uint \<Rightarrow> bool" where
  "pt_ok s ps pgd \<longleftrightarrow> quiet s \<and> kmem_inv s ps \<and> page_ok s pgd \<and> pgd \<notin> set ps \<and>
     (\<forall>i<1024. present (pde_of (mem s) pgd i) \<longrightarrow>
        page_ok s (pgtab (mem s) pgd i) \<and> pgtab (mem s) pgd i \<notin> set ps \<and> pgtab (mem s) pgd i \<noteq> pgd) \<and>
     (\<forall>i<1024. \<forall>j<1024. present (pde_of (mem s) pgd i) \<and> present (pde_of (mem s) pgd j) \<and>
        pgtab (mem s) pgd i = pgtab (mem s) pgd j \<longrightarrow> i = j)"

lemma pt_okD:
  assumes "pt_ok s ps pgd"
  shows "quiet s" "kmem_inv s ps" "page_ok s pgd" "pgd \<notin> set ps" "page_aligned pgd"
    "\<And>i. i < 1024 \<Longrightarrow> present (pde_of (mem s) pgd i) \<Longrightarrow> page_ok s (pgtab (mem s) pgd i) \<and>
       page_aligned (pgtab (mem s) pgd i) \<and> pgtab (mem s) pgd i \<notin> set ps \<and> pgtab (mem s) pgd i \<noteq> pgd"
    "\<And>i j. i < 1024 \<Longrightarrow> j < 1024 \<Longrightarrow> present (pde_of (mem s) pgd i) \<Longrightarrow> present (pde_of (mem s) pgd j) \<Longrightarrow>
       pgtab (mem s) pgd i = pgtab (mem s) pgd j \<Longrightarrow> i = j"
  using assms by (auto simp: pt_ok_def page_ok_def)

lemma ent_nonzero:
  assumes "kend s \<noteq> 0" "page_ok s t" "i < 1024"
  shows "ent t i \<noteq> 0"
proof -
  have "t \<noteq> 0" "page_aligned t" using assms by (auto simp: page_ok_def)
  then have "unat (ent t i) \<noteq> 0" using ent_unat[of t i] assms(3) by (simp add: unat_eq_0)
  then show ?thesis by auto
qed

text \<open>A store into a page that is not free leaves the free list alone.\<close>

lemma kmem_inv_store:
  assumes "kmem_inv s ps" "page_aligned t" "t \<notin> set ps" "\<And>x. \<not> x - t < PGSIZE \<Longrightarrow> m x = mem s x"
  shows "kmem_inv (s\<lparr>mem := m\<rparr>) ps"
proof (rule kmem_inv_frame[OF assms(1)])
  fix p x assume p: "p \<in> set ps" "x - p < PGSIZE"
  then have "page_aligned p" using assms(1) by (auto simp: kmem_inv_def page_ok_def)
  then have "\<not> x - t < PGSIZE" using page_unique[OF assms(2), of p x] p assms(3) by auto
  then show "mem (s\<lparr>mem := m\<rparr>) x = mem s x" using assms(4) by simp
qed simp_all

lemma page_ok_mem [simp]: "page_ok (s\<lparr>mem := m\<rparr>) = page_ok s" "page_ok (s\<lparr>freelist := f\<rparr>) = page_ok s"
  by (simp_all add: page_ok_def fun_eq_iff)

text \<open>Storing an entry.\<close>

lemma pt_store:
  fixes v :: uint and s :: "'a kmem_scheme"
  assumes ok: "pt_ok s ps pgd" and p: "present (pde_of (mem s) pgd (PDX va))"
  defines "m \<equiv> st32 (mem s) (ent (pgtab (mem s) pgd (PDX va)) (PTX va)) v"
  shows "pt_ok (s\<lparr>mem := m\<rparr>) ps pgd"
    and "pte_of m pgd x = (if PDX x = PDX va \<and> PTX x = PTX va then v else pte_of (mem s) pgd x)"
proof -
  note d = pt_okD[OF ok]
  let ?t = "pgtab (mem s) pgd (PDX va)"
  have t: "page_ok s ?t" "page_aligned ?t" "?t \<notin> set ps" "?t \<noteq> pgd" using d(6)[OF _ p] by auto
  have e: "pde_of m pgd i = pde_of (mem s) pgd i" if "i < 1024" for i
    using that t d(5) by (simp add: pde_of_def m_def ld32_st32_ent)
  have g: "pgtab m pgd i = pgtab (mem s) pgd i" if "i < 1024" for i
    using e[OF that] by (simp add: pgtab_def)
  have "kmem_inv (s\<lparr>mem := m\<rparr>) ps"
    by (rule kmem_inv_store[OF d(2) t(2,3)]) (simp add: m_def st32_ent_outside[OF t(2)])
  then show "pt_ok (s\<lparr>mem := m\<rparr>) ps pgd"
    using ok by (simp add: pt_ok_def e g)
  show "pte_of m pgd x = (if PDX x = PDX va \<and> PTX x = PTX va then v else pte_of (mem s) pgd x)"
  proof (cases "present (pde_of (mem s) pgd (PDX x))")
    case True
    have a: "page_aligned (pgtab (mem s) pgd (PDX x))" using d(6)[OF _ True] by simp
    have "?t = pgtab (mem s) pgd (PDX x) \<longleftrightarrow> PDX x = PDX va"
      using d(7)[of "PDX va" "PDX x"] p True by auto
    moreover have "ld32 m (ent (pgtab (mem s) pgd (PDX x)) (PTX x)) =
        (if ?t = pgtab (mem s) pgd (PDX x) \<and> PTX va = PTX x then v
         else ld32 (mem s) (ent (pgtab (mem s) pgd (PDX x)) (PTX x)))"
      unfolding m_def by (rule ld32_st32_ent[OF t(2) a]) simp_all
    ultimately show ?thesis using True by (auto simp: pte_of_def e g)
  next
    case False
    then have "PDX x \<noteq> PDX va" using p by auto
    then show ?thesis using False by (simp add: pte_of_def e)
  qed
qed

text \<open>Walking with allocation.\<close>

lemma ld32_zero_page:
  assumes "page_aligned t" "i < 1024"
  shows "ld32 (mem_fill m t PGSIZE 0) (ent t i) = 0"
proof -
  have "mem_fill m t PGSIZE 0 (ent t i + of_nat k) = 0" if "k < 4" for k
    using ent_in_page[OF assms that] by (simp add: mem_fill_def)
  from this[of 0] this[of 1] this[of 2] this[of 3] show ?thesis by (simp add: ld32_def)
qed

definition new_pde :: "uint \<Rightarrow> uint" where
  "new_pde t = v2p t OR PTE_P OR PTE_W OR PTE_U"

lemma new_pde:
  assumes "page_aligned t"
  shows "present (new_pde t)" "PTE_ADDR (new_pde t) = v2p t"
proof -
  have f: "PTE_P OR PTE_W OR PTE_U = 7" by (simp add: PTE_P_def PTE_W_def PTE_U_def)
  have "bit (new_pde t) 0" unfolding new_pde_def by (simp add: bit_or_iff PTE_P_def)
  then have "bit (new_pde t AND PTE_P) 0" by (simp add: bit_and_iff PTE_P_def)
  then show "present (new_pde t)" by (auto simp: present_def)
  show "PTE_ADDR (new_pde t) = v2p t"
    unfolding new_pde_def f using assms by (intro PTE_ADDR_or) simp_all
qed

lemma pt_new_table:
  fixes s :: "'a kmem_scheme"
  assumes ok: "pt_ok s (t # ps) pgd" and np: "\<not> present (pde_of (mem s) pgd i)" and i: "i < 1024"
  defines "m \<equiv> st32 (mem_fill (mem s) t PGSIZE 0) (ent pgd i) (new_pde t)"
  shows "pt_ok (s\<lparr>freelist := ld32 (mem s) t, mem := m\<rparr>) ps pgd" "pgtab m pgd i = t" "present (pde_of m pgd i)"
    "pte_of m pgd = pte_of (mem s) pgd"
proof -
  note d = pt_okD[OF ok]
  have t: "page_ok s t" "page_aligned t" "t \<notin> set ps" "t \<noteq> pgd"
    using d(2,4) by (auto simp: kmem_inv_def page_ok_def)
  have keep: "ld32 m (ent q j) = ld32 (mem s) (ent q j)"
    if "page_aligned q" "j < 1024" "q \<noteq> t" "\<not> (q = pgd \<and> j = i)" for q j
  proof -
    have "ld32 (mem_fill (mem s) t PGSIZE 0) (ent q j) = ld32 (mem s) (ent q j)"
      by (rule ld32_ent_cong[OF that(1,2)]) (use page_unique[OF t(2) that(1)] that(3) in \<open>auto simp: mem_fill_def\<close>)
    then show ?thesis using that d(5) i by (auto simp: m_def ld32_st32_ent)
  qed
  have e: "pde_of m pgd j = (if j = i then new_pde t else pde_of (mem s) pgd j)" if "j < 1024" for j
    using keep[of pgd j] that t(4) d(5) i by (auto simp: pde_of_def m_def ld32_st32_ent)
  have g: "pgtab m pgd j = (if j = i then t else pgtab (mem s) pgd j)" if "j < 1024" for j
    using e[OF that] new_pde(2)[OF t(2)] by (simp add: pgtab_def)
  show "pgtab m pgd i = t" "present (pde_of m pgd i)" using g[OF i] e[OF i] new_pde(1)[OF t(2)] by simp_all
  have nt: "pgtab (mem s) pgd j \<noteq> t \<and> pgtab (mem s) pgd j \<noteq> pgd \<and> page_aligned (pgtab (mem s) pgd j)"
    if "j < 1024" "present (pde_of (mem s) pgd j)" for j
    using d(6)[OF that] by auto
  show "pte_of m pgd = pte_of (mem s) pgd"
  proof
    fix va
    show "pte_of m pgd va = pte_of (mem s) pgd va"
    proof (cases "PDX va = i")
      case True
      have "ld32 m (ent t (PTX va)) = 0"
        using ld32_zero_page[OF t(2), of "PTX va"] t(4) d(5) i t(2) by (simp add: m_def ld32_st32_ent)
      then show ?thesis using True np e[OF i] g[OF i] by (simp add: pte_of_def)
    next
      case False
      then show ?thesis using nt[of "PDX va"] by (auto simp: pte_of_def e g intro!: keep)
    qed
  qed
  let ?s = "s\<lparr>freelist := ld32 (mem s) t\<rparr>"
  have k: "kmem_inv ?s ps" "freelist s = t" using kmem_inv_Cons[OF d(2)] by auto
  have k1: "kmem_inv (?s\<lparr>mem := mem_fill (mem s) t PGSIZE 0\<rparr>) ps"
    by (rule kmem_inv_store[OF k(1) t(2,3)]) (simp add: mem_fill_def)
  have "kmem_inv (?s\<lparr>mem := mem_fill (mem s) t PGSIZE 0, mem := m\<rparr>) ps"
    by (rule kmem_inv_store[OF k1 d(5)]) (use d(4) i in \<open>auto simp: m_def st32_ent_outside[OF d(5)]\<close>)
  then show "pt_ok (s\<lparr>freelist := ld32 (mem s) t, mem := m\<rparr>) ps pgd"
    using ok t nt unfolding pt_ok_def by (auto simp: e g)
qed

lemma mem_upd_order: "s\<lparr>freelist := f, mem := m\<rparr> = s\<lparr>mem := m, freelist := f\<rparr>"
  by (rule kmem.equality) simp_all

lemma walk_found:
  "present (pde_of (mem s) pgd (PDX va)) \<Longrightarrow>
   walkpgdir pgd va alloc s = Done (ent (pgtab (mem s) pgd (PDX va)) (PTX va)) s"
  by (simp add: walkpgdir_def present_def pde_of_def pgtab_def Let_def)

lemma walk_none: "\<not> present (pde_of (mem s) pgd (PDX va)) \<Longrightarrow> walkpgdir pgd va False s = Done 0 s"
  by (simp add: walkpgdir_def present_def pde_of_def Let_def)

text \<open>What a walk changes: memory and the free list.\<close>

definition mem_frame :: "'a kmem_scheme \<Rightarrow> 'a kmem_scheme \<Rightarrow> bool" where
  "mem_frame s s' \<longleftrightarrow> (\<exists>m f. s' = s\<lparr>mem := m, freelist := f\<rparr>)"

lemma mem_frame_refl: "mem_frame s s"
  unfolding mem_frame_def by (intro exI[of _ "mem s"] exI[of _ "freelist s"]) simp

lemma mem_frame_trans: "mem_frame s t \<Longrightarrow> mem_frame t u \<Longrightarrow> mem_frame s u"
  unfolding mem_frame_def by (clarsimp simp: mem_upd_order) (intro exI, rule refl)

lemma mem_frame_mem: "mem_frame s (s\<lparr>mem := m\<rparr>)"
  unfolding mem_frame_def by (intro exI[of _ m] exI[of _ "freelist s"]) simp

lemma walk_alloc:
  assumes ok: "pt_ok s ps pgd"
  shows "(\<exists>s' ps'. walkpgdir pgd va True s = Done (ent (pgtab (mem s') pgd (PDX va)) (PTX va)) s' \<and>
      pt_ok s' ps' pgd \<and> mem_frame s s' \<and> present (pde_of (mem s') pgd (PDX va)) \<and> pte_of (mem s') pgd = pte_of (mem s) pgd)
    \<or> walkpgdir pgd va True s = Done 0 s \<and> ps = []"
proof (cases "present (pde_of (mem s) pgd (PDX va))")
  case True
  then show ?thesis using ok walk_found mem_frame_refl by blast
next
  case False
  note d = pt_okD[OF ok]
  have np: "ld32 (mem s) (ent pgd (PDX va)) AND PTE_P = 0" using False by (simp add: present_def pde_of_def)
  show ?thesis
  proof (cases ps)
    case Nil
    have "kalloc s = Done 0 s" using kp.alloc_none[of s] d(1,2) Nil by simp
    then show ?thesis using np Nil by (simp add: walkpgdir_def)
  next
    case (Cons t ps')
    have k: "freelist s = t" "t \<noteq> 0" using kmem_inv_Cons[of s t ps'] d(2) Cons by auto
    have ka: "kalloc s = Done t (s\<lparr>freelist := ld32 (mem s) t\<rparr>)" using kalloc_quiet[OF d(1)] k by simp
    let ?m = "st32 (mem_fill (mem s) t PGSIZE 0) (ent pgd (PDX va)) (new_pde t)"
    let ?s = "s\<lparr>freelist := ld32 (mem s) t, mem := ?m\<rparr>"
    have w: "walkpgdir pgd va True s = Done (ent t (PTX va)) ?s"
      using np ka k by (simp add: walkpgdir_def memset_eq new_pde_def)
    note n = pt_new_table[OF ok[unfolded Cons] False]
    have "mem_frame s ?s" unfolding mem_frame_def mem_upd_order by (intro exI, rule refl)
    then show ?thesis using w n by (intro disjI1 exI[of _ ?s] exI[of _ ps']) simp
  qed
qed

text \<open>Pages of addresses.\<close>

lemma unat_PDX: "unat (PDX va) = unat va div 4194304"
proof -
  have "PDX va = take_bit 10 (drop_bit 22 va)"
    by (simp add: PDX_def take_bit_eq_mask mask_eq_exp_minus_1)
  then have "unat (PDX va) = unat va div 4194304 mod 1024"
    by (simp add: take_bit_eq_mod drop_bit_eq_div unat_mod unat_div)
  moreover have "unat va div 4194304 < 1024" using unat_uint_less[of va] by (intro less_mult_imp_div_less) simp
  ultimately show ?thesis by simp
qed

lemma unat_PTX: "unat (PTX va) = unat va div 4096 mod 1024"
proof -
  have "PTX va = take_bit 10 (drop_bit 12 va)"
    by (simp add: PTX_def take_bit_eq_mask mask_eq_exp_minus_1)
  then show ?thesis by (simp add: take_bit_eq_mod drop_bit_eq_div unat_mod unat_div)
qed

lemma same_page: "PDX x = PDX y \<and> PTX x = PTX y \<longleftrightarrow> PGROUNDDOWN x = PGROUNDDOWN y"
proof -
  have "a = b" if "a div 1024 = b div 1024" "a mod 1024 = b mod 1024" for a b :: nat
    by (rule trans[OF div_mult_mod_eq[symmetric, of a 1024]]) (simp only: that div_mult_mod_eq)
  then have "a div 1024 = b div 1024 \<and> a mod 1024 = b mod 1024 \<longleftrightarrow> a = b" for a b :: nat by blast
  from this[of "unat x div 4096" "unat y div 4096"] show ?thesis
    by (simp add: word_unat_eq_iff unat_PDX unat_PTX PGROUNDDOWN_unat div_mult2_eq[symmetric])
qed

lemma PGROUNDDOWN_aligned_id: "page_aligned a \<Longrightarrow> PGROUNDDOWN a = a"
proof -
  assume "page_aligned a"
  then have "unat a mod 4096 = 0" by (simp only: page_aligned_unat)
  then have "unat (PGROUNDDOWN a) = unat a" by (auto simp: PGROUNDDOWN_unat)
  then show ?thesis by (rule unsigned_word_eqI)
qed

section \<open>Mapping a range\<close>

text \<open>\<open>in_pages a k x\<close>: the address \<open>x\<close> is in one of the pages \<open>a\<close>, \<open>a + PGSIZE\<close>, \dots, \<open>a + k * PGSIZE\<close>.\<close>

definition in_pages :: "uint \<Rightarrow> nat \<Rightarrow> uint \<Rightarrow> bool" where
  "in_pages a k x \<longleftrightarrow> (\<exists>j\<le>k. PGROUNDDOWN x = a + of_nat (4096 * j))"

lemma page_Suc: "a + of_nat (4096 * Suc j) = (a + PGSIZE) + of_nat (4096 * j)"
  by (simp add: PGSIZE_def)

lemma in_pages_0: "in_pages a 0 x \<longleftrightarrow> PGROUNDDOWN x = a"
  by (simp add: in_pages_def)

lemma in_pages_Suc: "in_pages a (Suc k) x \<longleftrightarrow> PGROUNDDOWN x = a \<or> in_pages (a + PGSIZE) k x"
proof -
  have "(\<exists>j\<le>Suc k. P j) \<longleftrightarrow> P 0 \<or> (\<exists>j\<le>k. P (Suc j))" for P
    by (metis Suc_le_mono le0 not0_implies_Suc)
  from this[of "\<lambda>j. PGROUNDDOWN x = a + of_nat (4096 * j)"] show ?thesis
    by (simp only: in_pages_def page_Suc) simp
qed

lemma in_pages_distinct:
  assumes "page_aligned a" "unat a + 4096 * Suc k < 4294967296" "in_pages (a + PGSIZE) k x"
  shows "PGROUNDDOWN x \<noteq> a"
proof
  assume "PGROUNDDOWN x = a"
  moreover obtain j where j0: "j \<le> k" "PGROUNDDOWN x = (a + PGSIZE) + of_nat (4096 * j)"
    using assms(3) by (auto simp only: in_pages_def)
  ultimately have j: "j \<le> k" "a = a + of_nat (4096 * Suc j)" by (simp_all only: page_Suc)
  have "unat a = unat (a + of_nat (4096 * Suc j))" using j(2) by (rule arg_cong)
  also have "\<dots> = unat a + 4096 * Suc j" using assms(2) j(1) by (intro unat_add_of_nat) auto
  finally show False by simp
qed

definition mapped :: "uint \<Rightarrow> uint \<Rightarrow> uint \<Rightarrow> uint \<Rightarrow> uint" where
  "mapped a pa perm x = (pa + (PGROUNDDOWN x - a)) OR perm OR PTE_P"

lemma mapped_Suc: "mapped (a + PGSIZE) (pa + PGSIZE) perm x = mapped a pa perm x"
  by (simp add: mapped_def algebra_simps)

lemma map_one:
  fixes s :: "'a kmem_scheme"
  assumes ok: "pt_ok s ps pgd" and a: "page_aligned a" and np: "\<not> present (pte_of (mem s) pgd a)"
  shows "(\<exists>s' ps'. pt_ok s' ps' pgd \<and> mem_frame s s' \<and>
      (\<forall>x. pte_of (mem s') pgd x = (if PGROUNDDOWN x = a then pa OR perm OR PTE_P else pte_of (mem s) pgd x)) \<and>
      (\<forall>n l. mappages_loop (Suc n) pgd a l pa perm s =
         (if a = l then Done 0 s' else mappages_loop n pgd (a + PGSIZE) l (pa + PGSIZE) perm s')))
    \<or> ps = [] \<and> (\<forall>n l. mappages_loop (Suc n) pgd a l pa perm s = Done (- 1) s)"
  using walk_alloc[OF ok, of a]
proof (elim disjE exE conjE)
  fix s1 :: "'a kmem_scheme" and ps1
  let ?e = "ent (pgtab (mem s1) pgd (PDX a)) (PTX a)" and ?v = "pa OR perm OR PTE_P"
  assume w: "walkpgdir pgd a True s = Done ?e s1" and ok1: "pt_ok s1 ps1 pgd" and f: "mem_frame s s1"
    and p1: "present (pde_of (mem s1) pgd (PDX a))" and same: "pte_of (mem s1) pgd = pte_of (mem s) pgd"
  note st = pt_store[OF ok1 p1, of ?v]
  let ?s = "s1\<lparr>mem := st32 (mem s1) ?e ?v\<rparr>"
  note d = pt_okD[OF ok1]
  have e0: "?e \<noteq> 0" using ent_nonzero[of s1] d(2) d(6)[OF _ p1] by (auto simp: kmem_inv_def)
  have v: "pte_of (mem s1) pgd a = ld32 (mem s1) ?e" using p1 by (simp add: pte_of_def)
  then have np1: "ld32 (mem s1) ?e AND PTE_P = 0" using np same by (simp add: present_def)
  have "mappages_loop (Suc n) pgd a l pa perm s =
      (if a = l then Done 0 ?s else mappages_loop n pgd (a + PGSIZE) l (pa + PGSIZE) perm ?s)" for n l
    using w e0 np1 by simp
  moreover have "pte_of (mem ?s) pgd x = (if PGROUNDDOWN x = a then ?v else pte_of (mem s) pgd x)" for x
    using st(2)[of x] same_page[of x a] PGROUNDDOWN_aligned_id[OF a] same by simp
  moreover have "mem_frame s ?s" using f mem_frame_mem by (rule mem_frame_trans)
  ultimately show ?thesis using st(1) by (intro disjI1 exI[of _ ?s] exI[of _ ps1]) simp
qed simp

lemma aligned_add_PGSIZE: "page_aligned a \<Longrightarrow> page_aligned (a + PGSIZE)"
proof -
  assume "page_aligned a"
  moreover have "unat (a + PGSIZE) = (unat a + 4096) mod 4294967296"
    unfolding PGSIZE_def by (subst unat_word_ariths) simp
  moreover have "((unat a + 4096) mod 4294967296) mod 4096 = (unat a + 4096) mod 4096"
    by (rule mod_mod_cancel) (simp add: dvd_def exI[of _ 1048576])
  ultimately show ?thesis unfolding page_aligned_unat by simp
qed

lemma mappages_loop_ok:
  assumes "pt_ok s ps pgd" "page_aligned a" "unat a + 4096 * k < 4294967296" "k < n"
    and "\<And>x. in_pages a k x \<Longrightarrow> \<not> present (pte_of (mem s) pgd x)"
  shows "\<exists>r s' ps'. mappages_loop n pgd a (a + of_nat (4096 * k)) pa perm s = Done r s' \<and> pt_ok s' ps' pgd \<and>
      mem_frame s s' \<and> (\<forall>x. \<not> in_pages a k x \<longrightarrow> pte_of (mem s') pgd x = pte_of (mem s) pgd x) \<and>
      (r = 0 \<and> (\<forall>x. in_pages a k x \<longrightarrow> pte_of (mem s') pgd x = mapped a pa perm x) \<or> r = - 1 \<and> ps' = [])"
  using assms
proof (induction k arbitrary: n s ps a pa)
  case (0 n s ps a pa)
  obtain n' where n: "n = Suc n'" using 0(4) by (cases n) auto
  have "\<not> present (pte_of (mem s) pgd a)" using 0(5)[of a] PGROUNDDOWN_aligned_id[OF 0(2)] by (simp add: in_pages_0)
  from map_one[OF 0(1,2) this, of pa perm] show ?case
  proof (elim disjE exE conjE)
    fix s' ps'
    assume "pt_ok s' ps' pgd" "mem_frame s s'"
      "\<forall>x. pte_of (mem s') pgd x = (if PGROUNDDOWN x = a then pa OR perm OR PTE_P else pte_of (mem s) pgd x)"
      "\<forall>n l. mappages_loop (Suc n) pgd a l pa perm s =
         (if a = l then Done 0 s' else mappages_loop n pgd (a + PGSIZE) l (pa + PGSIZE) perm s')"
    then show ?case unfolding n by (intro exI[of _ 0] exI[of _ s'] exI[of _ ps']) (simp add: in_pages_0 mapped_def)
  next
    assume "ps = []" "\<forall>n l. mappages_loop (Suc n) pgd a l pa perm s = Done (- 1) s"
    then show ?case unfolding n using 0(1) mem_frame_refl
      by (intro exI[of _ "- 1"] exI[of _ s] exI[of _ ps]) simp
  qed
next
  case (Suc k n s ps a pa)
  obtain n' where n: "n = Suc n'" "k < n'" using Suc.prems(4) by (cases n) auto
  let ?l = "a + of_nat (4096 * Suc k)"
  have l: "?l = (a + PGSIZE) + of_nat (4096 * k)" by (rule page_Suc)
  have ul: "unat ?l = unat a + 4096 * Suc k" using Suc.prems(3) by (intro unat_add_of_nat) simp
  then have al: "a \<noteq> ?l" by auto
  have a': "page_aligned (a + PGSIZE)" using Suc.prems(2) by (rule aligned_add_PGSIZE)
  have ua: "unat (a + PGSIZE) = unat a + 4096"
    using unat_add_of_nat[of a 4096] Suc.prems(3) by (simp add: PGSIZE_def)
  have "\<not> present (pte_of (mem s) pgd a)"
    using Suc.prems(5)[of a] PGROUNDDOWN_aligned_id[OF Suc.prems(2)] by (simp add: in_pages_Suc)
  from map_one[OF Suc.prems(1,2) this, of pa perm] show ?case
  proof (elim disjE exE conjE)
    fix s1 ps1
    assume s1: "pt_ok s1 ps1 pgd" "mem_frame s s1"
      and p1: "\<forall>x. pte_of (mem s1) pgd x = (if PGROUNDDOWN x = a then pa OR perm OR PTE_P else pte_of (mem s) pgd x)"
      and run: "\<forall>n l. mappages_loop (Suc n) pgd a l pa perm s =
         (if a = l then Done 0 s1 else mappages_loop n pgd (a + PGSIZE) l (pa + PGSIZE) perm s1)"
    have np: "\<not> present (pte_of (mem s1) pgd x)" if "in_pages (a + PGSIZE) k x" for x
      using that in_pages_distinct[OF Suc.prems(2,3) that] p1 Suc.prems(5)[of x] by (simp add: in_pages_Suc)
    obtain r s' ps' where s': "mappages_loop n' pgd (a + PGSIZE) ?l (pa + PGSIZE) perm s1 = Done r s'"
      "pt_ok s' ps' pgd" "mem_frame s1 s'"
      "\<forall>x. \<not> in_pages (a + PGSIZE) k x \<longrightarrow> pte_of (mem s') pgd x = pte_of (mem s1) pgd x"
      "r = 0 \<and> (\<forall>x. in_pages (a + PGSIZE) k x \<longrightarrow> pte_of (mem s') pgd x = mapped (a + PGSIZE) (pa + PGSIZE) perm x)
       \<or> r = - 1 \<and> ps' = []"
      using Suc.IH[OF s1(1) a' _ n(2) np, of "pa + PGSIZE"] ua Suc.prems(3) unfolding l by auto
    have "mappages_loop n pgd a ?l pa perm s = Done r s'" unfolding n(1) using run al s'(1) by simp
    moreover have "mem_frame s s'" using s1(2) s'(3) by (rule mem_frame_trans)
    moreover have "pte_of (mem s') pgd x = pte_of (mem s) pgd x" if "\<not> in_pages a (Suc k) x" for x
      using that s'(4) p1 by (simp add: in_pages_Suc)
    moreover have "pte_of (mem s') pgd x = mapped a pa perm x" if "r \<noteq> - 1" "in_pages a (Suc k) x" for x
    proof (cases "in_pages (a + PGSIZE) k x")
      case True
      then show ?thesis using s'(5) that(1) by (auto simp: mapped_Suc)
    next
      case False
      then show ?thesis using s'(4) p1 that(2) by (simp add: in_pages_Suc mapped_def)
    qed
    moreover have "r = 0 \<or> r = - 1 \<and> ps' = []" using s'(5) by blast
    ultimately show ?case using s'(2) by (intro exI[of _ r] exI[of _ s'] exI[of _ ps']) auto
  next
    assume "ps = []" "\<forall>n l. mappages_loop (Suc n) pgd a l pa perm s = Done (- 1) s"
    then show ?case unfolding n(1) using Suc.prems(1) mem_frame_refl
      by (intro exI[of _ "- 1"] exI[of _ s] exI[of _ ps]) simp
  qed
qed

section \<open>Properties\<close>

text \<open>
  C14: \<open>mappages\<close> maps what it is asked to map.  Let the page directory be well formed and no page of the
  region from \<open>va\<close> of \<open>n\<close> bytes be mapped.  Then \<open>mappages\<close> returns; it keeps the directory well formed,
  its tables apart from each other and from the free pages; it leaves the entry of every address outside
  the region's pages as it was; and it returns either 0, with the page of each address of the region
  mapped to the page as far from \<open>pa\<close> as the address is from the start of the region and with the
  permissions asked for, or -1, when no free page is left.
\<close>

theorem mappages_correct:
  assumes ok: "pt_ok s ps pgd" and n: "0 < unat n" "unat va + unat n \<le> 2 ^ 32"
    and np: "\<And>x. PGROUNDDOWN va \<le> PGROUNDDOWN x \<Longrightarrow> PGROUNDDOWN x \<le> PGROUNDDOWN (va + n - 1) \<Longrightarrow>
       \<not> present (pte_of (mem s) pgd x)"
  shows "\<exists>r s' ps'. mappages pgd va n pa perm s = Done r s' \<and> pt_ok s' ps' pgd \<and>
    (\<forall>x. \<not> (PGROUNDDOWN va \<le> PGROUNDDOWN x \<and> PGROUNDDOWN x \<le> PGROUNDDOWN (va + n - 1)) \<longrightarrow>
       pte_of (mem s') pgd x = pte_of (mem s) pgd x) \<and>
    (r = 0 \<and> (\<forall>x. PGROUNDDOWN va \<le> PGROUNDDOWN x \<and> PGROUNDDOWN x \<le> PGROUNDDOWN (va + n - 1) \<longrightarrow>
       pte_of (mem s') pgd x = (pa + (PGROUNDDOWN x - PGROUNDDOWN va)) OR perm OR PTE_P) \<or>
     r = - 1 \<and> ps' = [])"
proof -
  let ?a = "PGROUNDDOWN va" and ?l = "PGROUNDDOWN (va + n - 1)"
  have "unat (va + of_nat (unat n - 1)) = unat va + (unat n - 1)"
    using n by (intro unat_add_of_nat) simp
  moreover have "va + of_nat (unat n - 1) = va + n - 1" using n(1) by (simp add: of_nat_diff)
  ultimately have e: "unat (va + n - 1) = unat va + (unat n - 1)" by (simp add: add_diff_eq)
  define k where "k = (unat va + (unat n - 1)) div 4096 - unat va div 4096"
  have le: "unat va div 4096 \<le> (unat va + (unat n - 1)) div 4096" by (intro div_le_mono) simp
  have ul: "unat ?l = unat ?a + 4096 * k" unfolding PGROUNDDOWN_unat e k_def using le by (simp add: algebra_simps)
  have lt: "unat ?a + 4096 * k < 4294967296" using unat32_less[of ?l] unfolding ul .
  then have kN: "k < NPAGES" by (simp add: NPAGES_def)
  have pj: "unat (?a + of_nat (4096 * j)) = unat ?a + 4096 * j" if "j \<le> k" for j
    using lt that by (intro unat_add_of_nat) simp
  have l: "?l = ?a + of_nat (4096 * k)" using ul pj[of k] by (simp add: word_unat_eq_iff)
  have range: "in_pages ?a k x \<longleftrightarrow> ?a \<le> PGROUNDDOWN x \<and> PGROUNDDOWN x \<le> ?l" for x
  proof
    assume "in_pages ?a k x"
    then obtain j where "j \<le> k" "PGROUNDDOWN x = ?a + of_nat (4096 * j)" by (auto simp only: in_pages_def)
    then show "?a \<le> PGROUNDDOWN x \<and> PGROUNDDOWN x \<le> ?l" using pj ul by (simp add: word_le_nat_alt del: of_nat_mult)
  next
    assume "?a \<le> PGROUNDDOWN x \<and> PGROUNDDOWN x \<le> ?l"
    then have b: "4096 * (unat va div 4096) \<le> 4096 * (unat x div 4096)"
        "4096 * (unat x div 4096) \<le> 4096 * (unat va div 4096) + 4096 * k"
      using ul by (simp_all add: word_le_nat_alt PGROUNDDOWN_unat)
    let ?j = "unat x div 4096 - unat va div 4096"
    have j: "?j \<le> k"
        "unat (PGROUNDDOWN x) = unat ?a + 4096 * ?j"
      using b by (simp_all add: PGROUNDDOWN_unat algebra_simps)
    then have "PGROUNDDOWN x = ?a + of_nat (4096 * ?j)" using j(2) pj[OF j(1)] by (simp add: word_unat_eq_iff)
    then show "in_pages ?a k x" unfolding in_pages_def using j(1) by blast
  qed
  obtain r s' ps' where "mappages_loop NPAGES pgd ?a ?l pa perm s = Done r s'" "pt_ok s' ps' pgd"
    "\<forall>x. \<not> in_pages ?a k x \<longrightarrow> pte_of (mem s') pgd x = pte_of (mem s) pgd x"
    "r = 0 \<and> (\<forall>x. in_pages ?a k x \<longrightarrow> pte_of (mem s') pgd x = mapped ?a pa perm x) \<or> r = - 1 \<and> ps' = []"
    using mappages_loop_ok[OF ok PGROUND_aligned(1) lt kN, of pa perm] np unfolding range l[symmetric] by blast
  then show ?thesis unfolding mappages_def range mapped_def by blast
qed

lemma kmem_demo_pt: "pt_ok kmem_demo [0x80200000, 0x80300000] 0x80400000"
  and kmem_demo_pte: "pte_of (mem kmem_demo) 0x80400000 x = 0"
proof -
  have z: "pde_of (mem kmem_demo) 0x80400000 i = 0" if "i < 1024" for i
  proof -
    have al: "page_aligned (0x80400000 :: uint)" "page_aligned (0x80200000 :: uint)" by (simp_all add: PGSIZE_def)
    have "ld32 (st32 (\<lambda>_. 0) 0x80200000 0x80300000) (ent 0x80400000 i) = ld32 (\<lambda>_. 0) (ent 0x80400000 i)"
      by (rule ld32_ent_cong[OF al(1) that], rule st32_outside[OF al(2)]) (use page_unique[OF al] in fastforce)
    then show ?thesis by (simp add: pde_of_def ld32_def)
  qed
  show "pt_ok kmem_demo [0x80200000, 0x80300000] 0x80400000"
    using quiet_kmem_demo kmem_demo_inv z
    by (simp add: pt_ok_def present_def page_ok_def PGSIZE_def v2p_def KERNBASE_def PHYSTOP_def)
  show "pte_of (mem kmem_demo) 0x80400000 x = 0" using z[of "PDX x"] by (simp add: pte_of_def present_def)
qed

theorem mappages_correct_witness:
  "\<exists>r s' ps'. mappages 0x80400000 0x1000 0x2000 0x300000 6 kmem_demo = Done r s' \<and> pt_ok s' ps' 0x80400000 \<and>
     (r = 0 \<or> ps' = [])"
proof -
  have np: "\<not> present (pte_of (mem kmem_demo) 0x80400000 x)" for x unfolding kmem_demo_pte by (simp add: present_def)
  have "0 < unat (0x2000 :: uint)" "unat (0x1000 :: uint) + unat (0x2000 :: uint) \<le> 2 ^ 32" by simp_all
  from mappages_correct[OF kmem_demo_pt this np, of "0x300000" 6] show ?thesis by blast
qed

end
