(* ===== verification/Inode.thy ===== *)
theory Inode
  imports Logstore Kstring
begin

text \<open>
  \<^verbatim>\<open>fs.c\<close>, first half: the allocator of disk blocks, the on-disk inodes and the inode cache.

  A pointer to an in-memory inode is an index into \<^verbatim>\<open>icache.inode\<close>; where the code returns a null
  pointer the model returns \<open>None\<close>.  \<^verbatim>\<open>ip->flags\<close> is the pair of booleans \<open>i_busy\<close>, \<open>i_valid\<close>.  A
  pointer into a buffer's data is an offset into its bytes.
\<close>

unbundle bit_operations_syntax

section \<open>Data\<close>

definition ROOTINO :: nat where "ROOTINO = 1"
definition NDIRECT :: nat where "NDIRECT = 12"
definition NINDIRECT :: nat where "NINDIRECT = BSIZE div 4"
definition MAXFILE :: nat where "MAXFILE = NDIRECT + NINDIRECT"
definition DIRSIZ :: nat where "DIRSIZ = 14"

definition T_DIR :: int where "T_DIR = 1"
definition T_FILE :: int where "T_FILE = 2"
definition T_DEV :: int where "T_DEV = 3"

record dinode =
  d_type :: int
  d_major :: int
  d_minor :: int
  d_nlink :: int
  d_size :: nat
  d_addrs :: "nat list"

text \<open>The size of \<open>struct dinode\<close>: four shorts, the size and \<open>NDIRECT + 1\<close> addresses.\<close>

definition DINODE_SIZE :: nat where "DINODE_SIZE = 4 * 2 + 4 + 4 * (NDIRECT + 1)"
definition IPB :: nat where "IPB = BSIZE div DINODE_SIZE"
definition IBLOCK :: "nat \<Rightarrow> superblock \<Rightarrow> nat" where "IBLOCK i b = i div IPB + sb_inodestart b"
definition BPB :: nat where "BPB = BSIZE * 8"
definition BBLOCK :: "nat \<Rightarrow> superblock \<Rightarrow> nat" where "BBLOCK b sp = b div BPB + sb_bmapstart sp"

record inode =
  i_dev :: nat
  i_inum :: nat
  i_ref :: int
  i_busy :: bool
  i_valid :: bool
  i_type :: int
  i_major :: int
  i_minor :: int
  i_nlink :: int
  i_size :: nat
  i_addrs :: "nat list"

text \<open>The functions a device can have.\<close>

datatype dev_read = Consoleread
datatype dev_write = Consolewrite

record devsw =
  dev_rd :: "dev_read option"
  dev_wr :: "dev_write option"

record fs = log +
  sb :: superblock
  icache :: "inode list"
  devsws :: "devsw list"
  input_buf :: bytes
  input_r :: uint
  input_w :: uint
  input_e :: uint

lemma hold_fs [simp]:
  "sb (hold ls s) = sb s" "icache (hold ls s) = icache s" "devsws (hold ls s) = devsws s"
  "input_buf (hold ls s) = input_buf s" "input_r (hold ls s) = input_r s" "input_w (hold ls s) = input_w s"
  "input_e (hold ls s) = input_e s"
  by (simp_all add: hold_def)

lemma hold_fs_upd [simp]:
  "(hold ls s)\<lparr>sb := a\<rparr> = hold ls (s\<lparr>sb := a\<rparr>)" "(hold ls s)\<lparr>icache := b\<rparr> = hold ls (s\<lparr>icache := b\<rparr>)"
  "(hold ls s)\<lparr>devsws := c\<rparr> = hold ls (s\<lparr>devsws := c\<rparr>)" "(hold ls s)\<lparr>input_buf := d\<rparr> = hold ls (s\<lparr>input_buf := d\<rparr>)"
  "(hold ls s)\<lparr>input_r := e\<rparr> = hold ls (s\<lparr>input_r := e\<rparr>)" "(hold ls s)\<lparr>input_w := e\<rparr> = hold ls (s\<lparr>input_w := e\<rparr>)"
  "(hold ls s)\<lparr>input_e := e\<rparr> = hold ls (s\<lparr>input_e := e\<rparr>)"
  by (rule fs.equality; simp add: hold_def cong: if_cong)+

lemma quiet_fs_upd [simp]:
  "quiet (s\<lparr>sb := a\<rparr>) = quiet s" "quiet (s\<lparr>icache := b\<rparr>) = quiet s" "quiet (s\<lparr>devsws := c\<rparr>) = quiet s"
  "quiet (s\<lparr>input_buf := d\<rparr>) = quiet s" "quiet (s\<lparr>input_r := e\<rparr>) = quiet s" "quiet (s\<lparr>input_w := e\<rparr>) = quiet s"
  "quiet (s\<lparr>input_e := e\<rparr>) = quiet s"
  by (simp_all add: quiet_def)

section \<open>Encoding of inodes\<close>

text \<open>The \<open>short\<close> with the bits of an unsigned 16-bit number, and back.\<close>

definition s16 :: "nat \<Rightarrow> int" where
  "s16 v = (if v < 2 ^ 15 then int v else int v - 2 ^ 16)"

definition u16 :: "int \<Rightarrow> nat" where
  "u16 i = nat (i mod 2 ^ 16)"

definition dec_dinode :: "bytes \<Rightarrow> nat \<Rightarrow> dinode" where
  "dec_dinode d p = \<lparr>d_type = s16 (rd16 d p), d_major = s16 (rd16 d (p + 2)), d_minor = s16 (rd16 d (p + 4)),
     d_nlink = s16 (rd16 d (p + 6)), d_size = rd32 d (p + 8),
     d_addrs = map (\<lambda>k. rd32 d (p + 12 + 4 * k)) [0..<NDIRECT + 1]\<rparr>"

definition enc_dinode :: "dinode \<Rightarrow> nat \<Rightarrow> bytes \<Rightarrow> bytes" where
  "enc_dinode i p d =
     fold (\<lambda>k d. wr32 d (p + 12 + 4 * k) (d_addrs i ! k)) [0..<NDIRECT + 1]
       (wr32 (wr16 (wr16 (wr16 (wr16 d p (u16 (d_type i))) (p + 2) (u16 (d_major i))) (p + 4) (u16 (d_minor i)))
          (p + 6) (u16 (d_nlink i))) (p + 8) (d_size i))"

section \<open>Access to the inode cache\<close>

definition with_inode :: "nat \<Rightarrow> (inode \<Rightarrow> ('b, 'a fs_scheme) kop) \<Rightarrow> ('b, 'a fs_scheme) kop" where
  "with_inode i f = (\<lambda>s. if i < length (icache s) then f (icache s ! i) s else Fault)"

definition upd_inode :: "nat \<Rightarrow> (inode \<Rightarrow> inode) \<Rightarrow> (unit, 'a fs_scheme) kop" where
  "upd_inode i f = (\<lambda>s. if i < length (icache s)
     then Done () (s\<lparr>icache := (icache s)[i := f (icache s ! i)]\<rparr>) else Fault)"

section \<open>Blocks\<close>

definition bzero :: "nat \<Rightarrow> nat \<Rightarrow> (unit, 'a log_scheme) kop" where
  "bzero dev bno = update_block dev bno (\<lambda>_. replicate BSIZE 0)"

text \<open>The test and the update of bit \<open>bi\<close> of a bitmap block.\<close>

definition bit_used :: "bytes \<Rightarrow> nat \<Rightarrow> bool" where
  "bit_used d bi \<longleftrightarrow> d ! (bi div 8) AND push_bit (bi mod 8) 1 \<noteq> 0"

definition set_bit :: "bytes \<Rightarrow> nat \<Rightarrow> bytes" where
  "set_bit d bi = d[bi div 8 := d ! (bi div 8) OR push_bit (bi mod 8) 1]"

definition clear_bit :: "bytes \<Rightarrow> nat \<Rightarrow> bytes" where
  "clear_bit d bi = d[bi div 8 := d ! (bi div 8) AND NOT (push_bit (bi mod 8) 1)]"

text \<open>The loop of \<open>balloc\<close> over the blocks of the bitmap; the argument is the list of the values of \<open>b\<close>.\<close>

fun balloc_scan :: "nat \<Rightarrow> nat list \<Rightarrow> (nat, 'a fs_scheme) kop" where
  "balloc_scan dev [] = panic ''balloc: out of blocks''"
| "balloc_scan dev (b # bs) = (\<lambda>s.
     andthen (bread dev (BBLOCK b (sb s))) (\<lambda>bp.
     andthen (get_data bp) (\<lambda>d.
     case find (\<lambda>bi. \<not> bit_used d bi) [0..<min BPB (sb_size (sb s) - b)] of
       Some bi \<Rightarrow>
         andthen (set_data bp (set_bit d bi)) (\<lambda>_.
         andthen (log_write bp) (\<lambda>_.
         andthen (brelse bp) (\<lambda>_.
         andthen (bzero dev (b + bi)) (\<lambda>_.
         ret (b + bi)))))
     | None \<Rightarrow> andthen (brelse bp) (\<lambda>_. balloc_scan dev bs))) s)"

definition balloc :: "nat \<Rightarrow> (nat, 'a fs_scheme) kop" where
  "balloc dev = (\<lambda>s. balloc_scan dev (map (\<lambda>k. k * BPB) [0..<(sb_size (sb s) + BPB - 1) div BPB]) s)"

definition bfree :: "nat \<Rightarrow> nat \<Rightarrow> (unit, 'a fs_scheme) kop" where
  "bfree dev b =
     andthen (readsb dev) (\<lambda>sp.
     andthen (modify (\<lambda>s. s\<lparr>sb := sp\<rparr>)) (\<lambda>_.
     andthen (bread dev (BBLOCK b sp)) (\<lambda>bp.
     andthen (get_data bp) (\<lambda>d.
     let bi = b mod BPB
     in if \<not> bit_used d bi then panic ''freeing free block''
     else andthen (set_data bp (clear_bit d bi)) (\<lambda>_.
       andthen (log_write bp) (\<lambda>_.
       brelse bp))))))"

section \<open>Inodes\<close>

definition iinit :: "nat \<Rightarrow> (unit, 'a fs_scheme) kop" where
  "iinit dev =
     andthen (initlock IcacheLk) (\<lambda>_.
     andthen (readsb dev) (\<lambda>sp.
     andthen (modify (\<lambda>s. s\<lparr>sb := sp\<rparr>)) (\<lambda>_.
     cprintf (''sb: size %d nblocks %d ninodes %d nlog %d logstart %d inodestart %d bmap start %d'' @ [CHR 0x0A])
       (map (\<lambda>v. IntArg (of_nat v)) [sb_size sp, sb_nblocks sp, sb_ninodes sp, sb_nlog sp, sb_logstart sp,
          sb_inodestart sp, sb_bmapstart sp]))))"

text \<open>\<open>iget\<close>: the entry of the inode if it is cached, otherwise the first unused entry.\<close>

definition iget :: "nat \<Rightarrow> nat \<Rightarrow> (nat, 'a fs_scheme) kop" where
  "iget dev inum =
     andthen (acquire IcacheLk) (\<lambda>_.
     andthen (gets icache) (\<lambda>c.
     case find (\<lambda>i. 0 < i_ref (c ! i) \<and> i_dev (c ! i) = dev \<and> i_inum (c ! i) = inum) [0..<length c] of
       Some i \<Rightarrow>
         andthen (upd_inode i (\<lambda>r. r\<lparr>i_ref := i_ref r + 1\<rparr>)) (\<lambda>_.
         andthen (release IcacheLk) (\<lambda>_. ret i))
     | None \<Rightarrow>
         (case find (\<lambda>i. i_ref (c ! i) = 0) [0..<length c] of
            None \<Rightarrow> panic ''iget: no inodes''
          | Some i \<Rightarrow>
              andthen (upd_inode i (\<lambda>r. r\<lparr>i_dev := dev, i_inum := inum, i_ref := 1, i_busy := False, i_valid := False\<rparr>)) (\<lambda>_.
              andthen (release IcacheLk) (\<lambda>_. ret i)))))"

fun ialloc_scan :: "nat \<Rightarrow> int \<Rightarrow> nat list \<Rightarrow> (nat, 'a fs_scheme) kop" where
  "ialloc_scan dev typ [] = panic ''ialloc: no inodes''"
| "ialloc_scan dev typ (inum # is) = (\<lambda>s.
     andthen (bread dev (IBLOCK inum (sb s))) (\<lambda>bp.
     andthen (get_data bp) (\<lambda>d.
     let p = inum mod IPB * DINODE_SIZE
     in if s16 (rd16 d p) = 0
     then andthen (set_data bp (wr16 (blit d p (replicate DINODE_SIZE 0)) p (u16 typ))) (\<lambda>_.
          andthen (log_write bp) (\<lambda>_.
          andthen (brelse bp) (\<lambda>_.
          iget dev inum)))
     else andthen (brelse bp) (\<lambda>_. ialloc_scan dev typ is))) s)"

definition ialloc :: "nat \<Rightarrow> int \<Rightarrow> (nat, 'a fs_scheme) kop" where
  "ialloc dev typ = (\<lambda>s. ialloc_scan dev typ [1..<sb_ninodes (sb s)] s)"

definition dinode_of :: "inode \<Rightarrow> dinode" where
  "dinode_of r = \<lparr>d_type = i_type r, d_major = i_major r, d_minor = i_minor r, d_nlink = i_nlink r,
     d_size = i_size r, d_addrs = i_addrs r\<rparr>"

definition iupdate :: "nat \<Rightarrow> (unit, 'a fs_scheme) kop" where
  "iupdate ip = with_inode ip (\<lambda>r s.
     update_block (i_dev r) (IBLOCK (i_inum r) (sb s))
       (enc_dinode (dinode_of r) (i_inum r mod IPB * DINODE_SIZE)) s)"

definition idup :: "nat \<Rightarrow> (nat, 'a fs_scheme) kop" where
  "idup ip =
     andthen (acquire IcacheLk) (\<lambda>_.
     andthen (upd_inode ip (\<lambda>r. r\<lparr>i_ref := i_ref r + 1\<rparr>)) (\<lambda>_.
     andthen (release IcacheLk) (\<lambda>_.
     ret ip)))"

text \<open>
  \<open>ilock\<close>: \<open>ilock_load\<close> is what follows the wait; \<open>ilock_resume\<close> goes on after a sleep with the test of
  the loop.
\<close>

definition set_dinode :: "dinode \<Rightarrow> inode \<Rightarrow> inode" where
  "set_dinode d r = r\<lparr>i_type := d_type d, i_major := d_major d, i_minor := d_minor d, i_nlink := d_nlink d,
     i_size := d_size d, i_addrs := d_addrs d\<rparr>"

definition ilock_load :: "nat \<Rightarrow> (unit, 'a fs_scheme) kop" where
  "ilock_load ip = with_inode ip (\<lambda>r s.
     if i_valid r then Done () s
     else andthen (read_block (i_dev r) (IBLOCK (i_inum r) (sb s))) (\<lambda>d.
       andthen (upd_inode ip (set_dinode (dec_dinode d (i_inum r mod IPB * DINODE_SIZE)))) (\<lambda>_.
       andthen (upd_inode ip (\<lambda>r. r\<lparr>i_valid := True\<rparr>)) (\<lambda>_.
       with_inode ip (\<lambda>r. if i_type r = 0 then panic ''ilock: no type'' else ret ())))) s)"

definition ilock_wait :: "nat \<Rightarrow> (unit, 'a fs_scheme) kop" where
  "ilock_wait ip = with_inode ip (\<lambda>r.
     if i_busy r then sleep (InodeChan ip) IcacheLk
     else andthen (upd_inode ip (\<lambda>r. r\<lparr>i_busy := True\<rparr>)) (\<lambda>_.
       andthen (release IcacheLk) (\<lambda>_.
       ilock_load ip)))"

definition ilock :: "nat \<Rightarrow> (unit, 'a fs_scheme) kop" where
  "ilock ip = with_inode ip (\<lambda>r.
     if i_ref r < 1 then panic ''ilock''
     else andthen (acquire IcacheLk) (\<lambda>_. ilock_wait ip))"

definition ilock_resume :: "bool \<Rightarrow> nat \<Rightarrow> (unit, 'a fs_scheme) kop" where
  "ilock_resume ena ip = andthen (sleep_resume ena IcacheLk) (\<lambda>_. ilock_wait ip)"

definition iunlock :: "nat \<Rightarrow> (unit, 'a fs_scheme) kop" where
  "iunlock ip = with_inode ip (\<lambda>r.
     if \<not> i_busy r \<or> i_ref r < 1 then panic ''iunlock''
     else andthen (acquire IcacheLk) (\<lambda>_.
       andthen (upd_inode ip (\<lambda>r. r\<lparr>i_busy := False\<rparr>)) (\<lambda>_.
       andthen (wakeup (InodeChan ip)) (\<lambda>_.
       release IcacheLk))))"

section \<open>The blocks of an inode\<close>

definition bmap :: "nat \<Rightarrow> nat \<Rightarrow> (nat, 'a fs_scheme) kop" where
  "bmap ip bn = with_inode ip (\<lambda>r.
     if bn < NDIRECT
     then let addr = i_addrs r ! bn
       in if addr = 0
       then andthen (balloc (i_dev r)) (\<lambda>addr.
            andthen (upd_inode ip (\<lambda>r. r\<lparr>i_addrs := (i_addrs r)[bn := addr]\<rparr>)) (\<lambda>_. ret addr))
       else ret addr
     else let bn = bn - NDIRECT
       in if bn < NINDIRECT
       then andthen (let addr = i_addrs r ! NDIRECT
              in if addr = 0
              then andthen (balloc (i_dev r)) (\<lambda>addr.
                   andthen (upd_inode ip (\<lambda>r. r\<lparr>i_addrs := (i_addrs r)[NDIRECT := addr]\<rparr>)) (\<lambda>_. ret addr))
              else ret addr) (\<lambda>addr.
            andthen (bread (i_dev r) addr) (\<lambda>bp.
            andthen (get_data bp) (\<lambda>d.
            andthen (let addr = rd32 d (4 * bn)
              in if addr = 0
              then andthen (balloc (i_dev r)) (\<lambda>addr.
                   andthen (get_data bp) (\<lambda>d.
                   andthen (set_data bp (wr32 d (4 * bn) addr)) (\<lambda>_.
                   andthen (log_write bp) (\<lambda>_. ret addr))))
              else ret addr) (\<lambda>addr.
            andthen (brelse bp) (\<lambda>_. ret addr)))))
       else panic ''bmap: out of range'')"

definition itrunc :: "nat \<Rightarrow> (unit, 'a fs_scheme) kop" where
  "itrunc ip =
     andthen (for_each [0..<NDIRECT] (\<lambda>i. with_inode ip (\<lambda>r.
       if i_addrs r ! i \<noteq> 0
       then andthen (bfree (i_dev r) (i_addrs r ! i)) (\<lambda>_.
            upd_inode ip (\<lambda>r. r\<lparr>i_addrs := (i_addrs r)[i := 0]\<rparr>))
       else ret ()))) (\<lambda>_.
     andthen (with_inode ip (\<lambda>r.
       if i_addrs r ! NDIRECT \<noteq> 0
       then andthen (bread (i_dev r) (i_addrs r ! NDIRECT)) (\<lambda>bp.
            andthen (for_each [0..<NINDIRECT] (\<lambda>j.
              andthen (get_data bp) (\<lambda>d.
              if rd32 d (4 * j) \<noteq> 0 then bfree (i_dev r) (rd32 d (4 * j)) else ret ()))) (\<lambda>_.
            andthen (brelse bp) (\<lambda>_.
            andthen (bfree (i_dev r) (i_addrs r ! NDIRECT)) (\<lambda>_.
            upd_inode ip (\<lambda>r. r\<lparr>i_addrs := (i_addrs r)[NDIRECT := 0]\<rparr>)))))
       else ret ())) (\<lambda>_.
     andthen (upd_inode ip (\<lambda>r. r\<lparr>i_size := 0\<rparr>)) (\<lambda>_.
     iupdate ip)))"

definition iput :: "nat \<Rightarrow> (unit, 'a fs_scheme) kop" where
  "iput ip =
     andthen (acquire IcacheLk) (\<lambda>_.
     andthen (with_inode ip (\<lambda>r.
       if i_ref r = 1 \<and> i_valid r \<and> i_nlink r = 0
       then if i_busy r then panic ''iput busy''
         else andthen (upd_inode ip (\<lambda>r. r\<lparr>i_busy := True\<rparr>)) (\<lambda>_.
           andthen (release IcacheLk) (\<lambda>_.
           andthen (itrunc ip) (\<lambda>_.
           andthen (upd_inode ip (\<lambda>r. r\<lparr>i_type := 0\<rparr>)) (\<lambda>_.
           andthen (iupdate ip) (\<lambda>_.
           andthen (acquire IcacheLk) (\<lambda>_.
           andthen (upd_inode ip (\<lambda>r. r\<lparr>i_busy := False, i_valid := False\<rparr>)) (\<lambda>_.
           wakeup (InodeChan ip))))))))
       else ret ())) (\<lambda>_.
     andthen (upd_inode ip (\<lambda>r. r\<lparr>i_ref := i_ref r - 1\<rparr>)) (\<lambda>_.
     release IcacheLk)))"

definition iunlockput :: "nat \<Rightarrow> (unit, 'a fs_scheme) kop" where
  "iunlockput ip = andthen (iunlock ip) (\<lambda>_. iput ip)"

record stat =
  st_type :: int
  st_dev :: int
  st_ino :: nat
  st_nlink :: int
  st_size :: nat

definition stati :: "nat \<Rightarrow> (stat, 'a fs_scheme) kop" where
  "stati ip = with_inode ip (\<lambda>r.
     ret \<lparr>st_type = i_type r, st_dev = int (i_dev r), st_ino = i_inum r, st_nlink = i_nlink r, st_size = i_size r\<rparr>)"

end
