(* ===== verification/Consoleio.thy ===== *)
theory Consoleio
  imports Inode
begin

text \<open>
  \<^verbatim>\<open>console.c\<close>, second half: console input, the console device and \<open>panic\<close>; with \<open>procdump\<close> of
  \<^verbatim>\<open>proc.c\<close> and \<open>getcallerpcs\<close> of \<^verbatim>\<open>spinlock.c\<close>, which it calls.

  The typed characters live in a ring \<open>input_buf\<close> with three free-running 32-bit indices: characters
  from \<open>input_r\<close> to \<open>input_w\<close> are complete lines waiting to be read, those from \<open>input_w\<close> to \<open>input_e\<close>
  the line being edited.  The argument of \<open>consoleintr\<close> is the sequence of characters \<open>getc\<close> delivers
  before it returns a negative number.

  The programming of the interrupt controllers in \<open>consoleinit\<close> is not modelled.
\<close>

section \<open>Call stacks and the process listing\<close>

fun walk_frames :: "memory \<Rightarrow> uint \<Rightarrow> nat \<Rightarrow> uint list" where
  "walk_frames m ebp 0 = []"
| "walk_frames m ebp (Suc n) =
     (if ebp = 0 \<or> ebp < KERNBASE \<or> ebp = 0xffffffff then replicate (Suc n) 0
      else ld32 m (ebp + 4) # walk_frames m (ld32 m ebp) n)"

definition getcallerpcs :: "memory \<Rightarrow> uint \<Rightarrow> uint list" where
  "getcallerpcs m v = walk_frames m (v - 8) 10"

fun state_name :: "procstate \<Rightarrow> string" where
  "state_name UNUSED = ''unused''"
| "state_name EMBRYO = ''embryo''"
| "state_name SLEEPING = ''sleep ''"
| "state_name RUNNABLE = ''runble''"
| "state_name RUNNING = ''run   ''"
| "state_name ZOMBIE = ''zombie''"

definition newline :: string where "newline = [CHR 0x0A]"

definition procdump_one :: "proc \<Rightarrow> (unit, 'a kmem_scheme) kop" where
  "procdump_one p = (\<lambda>s.
     if pstate p = UNUSED then Done () s
     else andthen (cprintf ''%d %s %s'' [IntArg (of_int (pid p)), StrArg (Some (state_name (pstate p))),
             StrArg (Some (pname p))]) (\<lambda>_.
       andthen (if pstate p = SLEEPING
         then for_each (takeWhile (\<lambda>pc. pc \<noteq> 0) (getcallerpcs (mem s) (ctx_ebp (pcontext p) + 8)))
                (\<lambda>pc. cprintf '' %p'' [IntArg pc])
         else ret ()) (\<lambda>_.
       cprintf newline [])) s)"

definition procdump :: "(unit, 'a kmem_scheme) kop" where
  "procdump = andthen (gets procs) (\<lambda>ps. for_each ps procdump_one)"

text \<open>
  \<open>panic\<close>: the state in which the CPU then loops for ever.  The code addresses on the stack are a
  parameter, because the stack of the running code is not part of the state.
\<close>

definition panic_stop :: "uint list \<Rightarrow> string \<Rightarrow> (unit, 'a kmem_scheme) kop" where
  "panic_stop pcs m =
     andthen (modify (\<lambda>s. s\<lparr>cpu := (cpu s)\<lparr>eflags_if := False\<rparr>\<rparr>)) (\<lambda>_.
     andthen (modify (\<lambda>s. s\<lparr>cons_locking := False\<rparr>)) (\<lambda>_.
     andthen (\<lambda>s. cprintf ''cpu%d: panic: '' [IntArg (of_nat (cpu_id (cpu s)))] s) (\<lambda>_.
     andthen (cprintf m []) (\<lambda>_.
     andthen (cprintf newline []) (\<lambda>_.
     andthen (for_each (take 10 pcs) (\<lambda>pc. cprintf '' %p'' [IntArg pc])) (\<lambda>_.
     modify (\<lambda>s. s\<lparr>panicked := True\<rparr>)))))))"

section \<open>Input\<close>

definition INPUT_BUF :: nat where "INPUT_BUF = 128"

text \<open>Control characters: \<open>ctl c = C(c)\<close>.\<close>

definition ctl :: "char \<Rightarrow> int" where
  "ctl c = of_char c - of_char (CHR ''@'')"

definition buf_at :: "'a fs_scheme \<Rightarrow> uint \<Rightarrow> uchar" where
  "buf_at s i = input_buf s ! unat (i mod of_nat INPUT_BUF)"

text \<open>The loop of control-U.\<close>

lemma index_decreases: "e \<noteq> w \<Longrightarrow> unat (e - 1 - w) < unat (e - w)" for e w :: uint
proof -
  assume "e \<noteq> w"
  then have "e - w \<noteq> 0" by simp
  then have "unat (e - w - 1) < unat (e - w)" by (simp add: unat_minus_one unat_gt_0)
  then show ?thesis by (simp add: algebra_simps)
qed

function kill_line :: "uint \<Rightarrow> uint \<Rightarrow> (unit, 'a fs_scheme) kop" where
  "kill_line e w = (\<lambda>s.
     if e \<noteq> w \<and> buf_at s (e - 1) \<noteq> 10
     then andthen (modify (\<lambda>s. s\<lparr>input_e := e - 1\<rparr>)) (\<lambda>_.
          andthen (consputc BACKSPACE) (\<lambda>_.
          kill_line (e - 1) w)) s
     else Done () s)"
  by pat_completeness auto
termination
  by (relation "measure (\<lambda>(e, w). unat (e - w))") (auto simp: index_decreases)

declare kill_line.simps [simp del]

definition consoleintr_char :: "int \<Rightarrow> (unit, 'a fs_scheme) kop" where
  "consoleintr_char c = (\<lambda>s.
     if c = ctl (CHR ''P'') then Done () s
     else if c = ctl (CHR ''U'') then kill_line (input_e s) (input_w s) s
     else if c = ctl (CHR ''H'') \<or> c = 0x7f
     then if input_e s \<noteq> input_w s
       then andthen (modify (\<lambda>s. s\<lparr>input_e := input_e s - 1\<rparr>)) (\<lambda>_. consputc BACKSPACE) s
       else Done () s
     else if c \<noteq> 0 \<and> input_e s - input_r s < of_nat INPUT_BUF
     then let c = (if c = 13 then 10 else c)
       in andthen (modify (\<lambda>s. s\<lparr>input_buf := (input_buf s)[unat (input_e s mod of_nat INPUT_BUF) := of_int c],
                                input_e := input_e s + 1\<rparr>)) (\<lambda>_.
          andthen (consputc c) (\<lambda>_ s.
          if c = 10 \<or> c = ctl (CHR ''D'') \<or> input_e s = input_r s + of_nat INPUT_BUF
          then andthen (modify (\<lambda>s. s\<lparr>input_w := input_e s\<rparr>)) (\<lambda>_. wakeup InputChan) s
          else Done () s)) s
     else Done () s)"

definition consoleintr :: "int list \<Rightarrow> (unit, 'a fs_scheme) kop" where
  "consoleintr cs =
     andthen (acquire ConsLk) (\<lambda>_.
     andthen (for_each cs consoleintr_char) (\<lambda>_.
     andthen (release ConsLk) (\<lambda>_.
     if ctl (CHR ''P'') \<in> set cs then procdump else ret ())))"

section \<open>The console device\<close>

text \<open>\<open>consoleread\<close> returns the number of bytes or -1, and the bytes it has stored at \<open>dst\<close>.\<close>

definition consoleread_end :: "nat \<Rightarrow> nat \<Rightarrow> nat \<Rightarrow> bytes \<Rightarrow> (int \<times> bytes, 'a fs_scheme) kop" where
  "consoleread_end ip target n acc =
     andthen (release ConsLk) (\<lambda>_.
     andthen (ilock ip) (\<lambda>_.
     ret (int target - int n, acc)))"

fun consoleread_loop :: "nat \<Rightarrow> nat \<Rightarrow> nat \<Rightarrow> bytes \<Rightarrow> (int \<times> bytes, 'a fs_scheme) kop" where
  "consoleread_loop ip target 0 acc = consoleread_end ip target 0 acc"
| "consoleread_loop ip target (Suc n) acc = (\<lambda>s.
     if input_r s = input_w s
     then with_proc (\<lambda>p s. if killed (procs s ! p)
            then andthen (release ConsLk) (\<lambda>_. andthen (ilock ip) (\<lambda>_. ret (- 1, acc))) s
            else sleep InputChan ConsLk s) s
     else let c = buf_at s (input_r s)
       in andthen (modify (\<lambda>s. s\<lparr>input_r := input_r s + 1\<rparr>)) (\<lambda>_.
          if c = 4
          then andthen (if Suc n < target then modify (\<lambda>s. s\<lparr>input_r := input_r s - 1\<rparr>) else ret ()) (\<lambda>_.
               consoleread_end ip target (Suc n) acc)
          else if c = 10 then consoleread_end ip target n (acc @ [c])
          else consoleread_loop ip target n (acc @ [c])) s)"

definition consoleread :: "nat \<Rightarrow> int \<Rightarrow> (int \<times> bytes, 'a fs_scheme) kop" where
  "consoleread ip n =
     andthen (iunlock ip) (\<lambda>_.
     andthen (acquire ConsLk) (\<lambda>_.
     consoleread_loop ip (nat n) (nat n) []))"

definition consoleread_resume :: "bool \<Rightarrow> nat \<Rightarrow> nat \<Rightarrow> nat \<Rightarrow> bytes \<Rightarrow> (int \<times> bytes, 'a fs_scheme) kop" where
  "consoleread_resume ena ip target n acc =
     andthen (sleep_resume ena ConsLk) (\<lambda>_. consoleread_loop ip target n acc)"

definition consolewrite :: "nat \<Rightarrow> bytes \<Rightarrow> int \<Rightarrow> (int, 'a fs_scheme) kop" where
  "consolewrite ip buf n =
     andthen (iunlock ip) (\<lambda>_.
     andthen (acquire ConsLk) (\<lambda>_.
     andthen (if length buf < nat n then fault
              else for_each (take (nat n) buf) (\<lambda>c. consputc (Word.uint c))) (\<lambda>_.
     andthen (release ConsLk) (\<lambda>_.
     andthen (ilock ip) (\<lambda>_.
     ret n)))))"

definition CONSOLE :: nat where "CONSOLE = 1"

definition consoleinit :: "(unit, 'a fs_scheme) kop" where
  "consoleinit =
     andthen (initlock ConsLk) (\<lambda>_.
     andthen (modify (\<lambda>s. s\<lparr>devsws := (devsws s)[CONSOLE := \<lparr>dev_rd = Some Consoleread, dev_wr = Some Consolewrite\<rparr>]\<rparr>)) (\<lambda>_.
     modify (\<lambda>s. s\<lparr>cons_locking := True\<rparr>)))"

end
