(* ===== verification/Dir.thy ===== *)
theory Dir
  imports Consoleio
begin

text \<open>
  \<^verbatim>\<open>fs.c\<close>, second half: the content of inodes, directories and path names.

  Offsets, sizes and counts are \<open>uint\<close> in the code and naturals below \<open>2 ^ 32\<close> here, with the
  wrap-around written where it can happen.  \<open>readi\<close> returns the result of the C function together with
  the bytes it has stored at \<open>dst\<close>; \<open>writei\<close> is given the bytes at \<open>src\<close>.  A path is the list of the
  characters before its terminating zero; a file name inside a directory entry is an array of \<open>DIRSIZ\<close>
  bytes.
\<close>

section \<open>Content of inodes\<close>

definition two32 :: nat where "two32 = 4294967296"

function readi_loop :: "nat \<Rightarrow> nat \<Rightarrow> nat \<Rightarrow> nat \<Rightarrow> bytes \<Rightarrow> (bytes, 'a fs_scheme) kop" where
  "readi_loop ip n tot off dst =
     (if tot < n
      then let m = min (n - tot) (BSIZE - off mod BSIZE)
        in andthen (bmap ip (off div BSIZE)) (\<lambda>addr.
           andthen (with_inode ip (\<lambda>r. read_block (i_dev r) addr)) (\<lambda>d.
           readi_loop ip n (tot + m) (off + m) (dst @ take m (drop (off mod BSIZE) d))))
      else ret dst)"
  by pat_completeness auto
termination
  by (relation "measure (\<lambda>(ip, n, tot, off, dst). n - tot)") (auto simp: BSIZE_def)

declare readi_loop.simps [simp del]

definition readi :: "nat \<Rightarrow> nat \<Rightarrow> nat \<Rightarrow> (int \<times> bytes, 'a fs_scheme) kop" where
  "readi ip off n = with_inode ip (\<lambda>r s.
     if i_type r = T_DEV
     then if i_major r < 0 \<or> int NDEV \<le> i_major r \<or> dev_rd (devsws s ! nat (i_major r)) = None then Done (- 1, []) s
       else consoleread ip (s32 n) s
     else if i_size r < off \<or> (off + n) mod two32 < off then Done (- 1, []) s
     else let n = (if i_size r < (off + n) mod two32 then i_size r - off else n)
       in andthen (readi_loop ip n 0 off []) (\<lambda>dst. ret (s32 n, dst)) s)"

function writei_loop :: "nat \<Rightarrow> nat \<Rightarrow> nat \<Rightarrow> nat \<Rightarrow> bytes \<Rightarrow> (nat, 'a fs_scheme) kop" where
  "writei_loop ip n tot off src =
     (if tot < n
      then let m = min (n - tot) (BSIZE - off mod BSIZE)
        in andthen (bmap ip (off div BSIZE)) (\<lambda>addr.
           andthen (with_inode ip (\<lambda>r. update_block (i_dev r) addr (\<lambda>d. blit d (off mod BSIZE) (take m (drop tot src))))) (\<lambda>_.
           writei_loop ip n (tot + m) (off + m) src))
      else ret off)"
  by pat_completeness auto
termination
  by (relation "measure (\<lambda>(ip, n, tot, off, src). n - tot)") (auto simp: BSIZE_def)

declare writei_loop.simps [simp del]

definition writei :: "nat \<Rightarrow> bytes \<Rightarrow> nat \<Rightarrow> nat \<Rightarrow> (int, 'a fs_scheme) kop" where
  "writei ip src off n = with_inode ip (\<lambda>r s.
     if length src < n then Fault
     else if i_type r = T_DEV
     then if i_major r < 0 \<or> int NDEV \<le> i_major r \<or> dev_wr (devsws s ! nat (i_major r)) = None then Done (- 1) s
       else consolewrite ip src (s32 n) s
     else if i_size r < off \<or> (off + n) mod two32 < off then Done (- 1) s
     else if MAXFILE * BSIZE < (off + n) mod two32 then Done (- 1) s
     else andthen (writei_loop ip n 0 off src) (\<lambda>off.
       andthen (with_inode ip (\<lambda>r.
         if 0 < n \<and> i_size r < off
         then andthen (upd_inode ip (\<lambda>r. r\<lparr>i_size := off\<rparr>)) (\<lambda>_. iupdate ip)
         else ret ())) (\<lambda>_.
       ret (s32 n))) s)"

section \<open>Directories\<close>

text \<open>\<open>struct dirent\<close>: a \<open>ushort\<close> and \<open>DIRSIZ\<close> characters.\<close>

definition DIRENT_SIZE :: nat where "DIRENT_SIZE = 2 + DIRSIZ"

definition de_inum :: "bytes \<Rightarrow> nat" where "de_inum de = rd16 de 0"
definition de_name :: "bytes \<Rightarrow> bytes" where "de_name de = take DIRSIZ (drop 2 de)"

definition namecmp :: "bytes \<Rightarrow> bytes \<Rightarrow> int option" where
  "namecmp a b = strncmp a b DIRSIZ"

function dirlookup_loop :: "nat \<Rightarrow> bytes \<Rightarrow> nat \<Rightarrow> nat \<Rightarrow> ((nat \<times> nat) option, 'a fs_scheme) kop" where
  "dirlookup_loop dp name off n =
     (if off < n
      then andthen (readi dp off DIRENT_SIZE) (\<lambda>(r, de).
        if r \<noteq> int DIRENT_SIZE then panic ''dirlink read''
        else if de_inum de = 0 then dirlookup_loop dp name (off + DIRENT_SIZE) n
        else case namecmp name (de_name de) of
            None \<Rightarrow> fault
          | Some c \<Rightarrow>
              if c = 0 then with_inode dp (\<lambda>d. andthen (iget (i_dev d) (de_inum de)) (\<lambda>i. ret (Some (i, off))))
              else dirlookup_loop dp name (off + DIRENT_SIZE) n)
      else ret None)"
  by pat_completeness auto
termination
  by (relation "measure (\<lambda>(dp, name, off, n). n - off)") (auto simp: DIRENT_SIZE_def)

declare dirlookup_loop.simps [simp del]

text \<open>\<open>dirlookup\<close> returns the inode and the offset it stores at \<open>poff\<close>.\<close>

definition dirlookup :: "nat \<Rightarrow> bytes \<Rightarrow> ((nat \<times> nat) option, 'a fs_scheme) kop" where
  "dirlookup dp name = with_inode dp (\<lambda>r.
     if i_type r \<noteq> T_DIR then panic ''dirlookup not DIR''
     else dirlookup_loop dp name 0 (i_size r))"

text \<open>The search of \<open>dirlink\<close> for an empty entry.\<close>

function dirlink_free :: "nat \<Rightarrow> nat \<Rightarrow> nat \<Rightarrow> (nat, 'a fs_scheme) kop" where
  "dirlink_free dp off n =
     (if off < n
      then andthen (readi dp off DIRENT_SIZE) (\<lambda>(r, de).
        if r \<noteq> int DIRENT_SIZE then panic ''dirlink read''
        else if de_inum de = 0 then ret off
        else dirlink_free dp (off + DIRENT_SIZE) n)
      else ret off)"
  by pat_completeness auto
termination
  by (relation "measure (\<lambda>(dp, off, n). n - off)") (auto simp: DIRENT_SIZE_def)

declare dirlink_free.simps [simp del]

definition mk_dirent :: "bytes \<Rightarrow> nat \<Rightarrow> bytes option" where
  "mk_dirent name inum = map_option (\<lambda>nm. wr16 [0, 0] 0 inum @ nm) (strncpy (replicate DIRSIZ 0) name DIRSIZ)"

definition dirlink :: "nat \<Rightarrow> bytes \<Rightarrow> nat \<Rightarrow> (int, 'a fs_scheme) kop" where
  "dirlink dp name inum =
     andthen (dirlookup dp name) (\<lambda>res.
     case res of
       Some (ip, _) \<Rightarrow> andthen (iput ip) (\<lambda>_. ret (- 1))
     | None \<Rightarrow>
         andthen (with_inode dp (\<lambda>r. dirlink_free dp 0 (i_size r))) (\<lambda>off.
         case mk_dirent name inum of
           None \<Rightarrow> fault
         | Some de \<Rightarrow>
             andthen (writei dp de off DIRENT_SIZE) (\<lambda>r.
             if r \<noteq> int DIRENT_SIZE then panic ''dirlink'' else ret 0)))"

section \<open>Paths\<close>

definition slash :: uchar where "slash = 0x2F"

text \<open>\<open>skipelem path name\<close>: the rest of the path and the array \<open>name\<close> after the copy.\<close>

definition skipelem :: "bytes \<Rightarrow> bytes \<Rightarrow> (bytes \<times> bytes) option" where
  "skipelem path name =
     (let path = dropWhile (\<lambda>c. c = slash) path
      in if path = [] then None
      else let s = takeWhile (\<lambda>c. c \<noteq> slash) path;
             path = dropWhile (\<lambda>c. c \<noteq> slash) path;
             len = length s;
             name = (if DIRSIZ \<le> len then blit name 0 (take DIRSIZ s) else blit name 0 (s @ [0]))
        in Some (dropWhile (\<lambda>c. c = slash) path, name))"

lemma dropWhile_less: "xs \<noteq> [] \<Longrightarrow> P (hd xs) \<Longrightarrow> length (dropWhile P xs) < length xs"
  by (cases xs) (auto simp: le_imp_less_Suc length_dropWhile_le)

lemma skipelem_less: "skipelem path name = Some (path', name') \<Longrightarrow> length path' < length path"
proof -
  assume a: "skipelem path name = Some (path', name')"
  let ?p = "dropWhile (\<lambda>c. c = slash) path"
  have "?p \<noteq> []" and e: "path' = dropWhile (\<lambda>c. c = slash) (dropWhile (\<lambda>c. c \<noteq> slash) ?p)"
    using a by (auto simp: skipelem_def Let_def split: if_splits)
  then have "length (dropWhile (\<lambda>c. c \<noteq> slash) ?p) < length ?p"
    using hd_dropWhile[of "\<lambda>c. c = slash" path] by (intro dropWhile_less) auto
  then show ?thesis
    unfolding e using length_dropWhile_le[of "\<lambda>c. c = slash" path]
      length_dropWhile_le[of "\<lambda>c. c = slash" "dropWhile (\<lambda>c. c \<noteq> slash) ?p"] by simp
qed

text \<open>The loop of \<open>namex\<close>; the result includes the final content of the array \<open>name\<close>.\<close>

function namex_loop :: "bool \<Rightarrow> nat \<Rightarrow> bytes \<Rightarrow> bytes \<Rightarrow> (nat option \<times> bytes, 'a fs_scheme) kop" where
  "namex_loop par ip path name =
     (case skipelem path name of
        None \<Rightarrow> if par then andthen (iput ip) (\<lambda>_. ret (None, name)) else ret (Some ip, name)
      | Some (path', name') \<Rightarrow>
          andthen (ilock ip) (\<lambda>_.
          with_inode ip (\<lambda>r.
          if i_type r \<noteq> T_DIR then andthen (iunlockput ip) (\<lambda>_. ret (None, name'))
          else if par \<and> path' = [] then andthen (iunlock ip) (\<lambda>_. ret (Some ip, name'))
          else andthen (dirlookup ip name') (\<lambda>res.
            case res of
              None \<Rightarrow> andthen (iunlockput ip) (\<lambda>_. ret (None, name'))
            | Some (nxt, _) \<Rightarrow> andthen (iunlockput ip) (\<lambda>_. namex_loop par nxt path' name')))))"
  by pat_completeness auto
termination
  by (relation "measure (\<lambda>(par, ip, path, name). length path)") (auto simp: skipelem_less)

declare namex_loop.simps [simp del]

definition namex :: "bytes \<Rightarrow> bool \<Rightarrow> bytes \<Rightarrow> (nat option \<times> bytes, 'a fs_scheme) kop" where
  "namex path par name =
     andthen (if path \<noteq> [] \<and> hd path = slash then iget ROOTDEV ROOTINO
              else with_proc (\<lambda>p s. case cwd (procs s ! p) of Some d \<Rightarrow> idup d s | None \<Rightarrow> Fault)) (\<lambda>ip.
     namex_loop par ip path name)"

text \<open>The local array of \<open>namei\<close> is not initialised; its content does not matter and is zero here.\<close>

definition namei :: "bytes \<Rightarrow> (nat option, 'a fs_scheme) kop" where
  "namei path = andthen (namex path False (replicate DIRSIZ 0)) (\<lambda>(ip, _). ret ip)"

definition nameiparent :: "bytes \<Rightarrow> bytes \<Rightarrow> (nat option \<times> bytes, 'a fs_scheme) kop" where
  "nameiparent path name = namex path True name"

end
