(* ===== verification/Pipe.thy ===== *)
theory Pipe
  imports Dir Vm
begin

text \<open>
  The top layer of the kernel state and \<^verbatim>\<open>pipe.c\<close>.

  A pipe lives in a page of its own; it is named by the address of that page, and \<open>pipes\<close> maps the
  addresses of the pages that hold a pipe to the pipe in them.  The lock of the pipe is \<open>PipeLk\<close> of
  that address.  \<open>piperead\<close> returns the result of the C function and the bytes it has stored.

  \<open>pq\<close> is the queue of the bytes in the pipe.  Shown: the invariant \<open>pipe_ok\<close> (the indices are at most
  \<open>PIPESIZE\<close> apart) is kept also when the 32-bit indices wrap around, and the pipe is a bounded
  first-in first-out queue.
\<close>

section \<open>Data\<close>

definition PIPESIZE :: nat where "PIPESIZE = 512"

record pipe =
  pipe_data :: bytes
  nread :: uint
  nwrite :: uint
  readopen :: bool
  writeopen :: bool

datatype file_type = FD_NONE | FD_PIPE | FD_INODE

record file_t =
  f_type :: file_type
  f_ref :: int
  f_readable :: bool
  f_writable :: bool
  f_pipe :: nat
  f_ip :: nat
  f_off :: nat

record kern = fs +
  ftable :: "file_t list"
  pipes :: "nat \<Rightarrow> pipe option"
  ticks :: uint
  kpgdir :: uint
  cr3 :: uint
  ts_esp0 :: uint
  forkret_first :: bool

lemma hold_kern [simp]:
  "ftable (hold ls s) = ftable s" "pipes (hold ls s) = pipes s" "ticks (hold ls s) = ticks s"
  "kpgdir (hold ls s) = kpgdir s" "cr3 (hold ls s) = cr3 s" "ts_esp0 (hold ls s) = ts_esp0 s"
  "forkret_first (hold ls s) = forkret_first s"
  by (simp_all add: hold_def)

lemma hold_kern_upd [simp]:
  "(hold ls s)\<lparr>ftable := a\<rparr> = hold ls (s\<lparr>ftable := a\<rparr>)" "(hold ls s)\<lparr>pipes := b\<rparr> = hold ls (s\<lparr>pipes := b\<rparr>)"
  "(hold ls s)\<lparr>ticks := c\<rparr> = hold ls (s\<lparr>ticks := c\<rparr>)" "(hold ls s)\<lparr>kpgdir := c\<rparr> = hold ls (s\<lparr>kpgdir := c\<rparr>)"
  "(hold ls s)\<lparr>cr3 := c\<rparr> = hold ls (s\<lparr>cr3 := c\<rparr>)" "(hold ls s)\<lparr>ts_esp0 := c\<rparr> = hold ls (s\<lparr>ts_esp0 := c\<rparr>)"
  "(hold ls s)\<lparr>forkret_first := d\<rparr> = hold ls (s\<lparr>forkret_first := d\<rparr>)"
  by (rule kern.equality; simp add: hold_def cong: if_cong)+

lemma quiet_kern_upd [simp]:
  "quiet (s\<lparr>ftable := a\<rparr>) = quiet s" "quiet (s\<lparr>pipes := b\<rparr>) = quiet s" "quiet (s\<lparr>ticks := c\<rparr>) = quiet s"
  "quiet (s\<lparr>kpgdir := c\<rparr>) = quiet s" "quiet (s\<lparr>cr3 := c\<rparr>) = quiet s" "quiet (s\<lparr>ts_esp0 := c\<rparr>) = quiet s"
  "quiet (s\<lparr>forkret_first := d\<rparr>) = quiet s"
  by (simp_all add: quiet_def)

definition with_pipe :: "nat \<Rightarrow> (pipe \<Rightarrow> ('b, 'a kern_scheme) kop) \<Rightarrow> ('b, 'a kern_scheme) kop" where
  "with_pipe p f = (\<lambda>s. case pipes s p of Some q \<Rightarrow> f q s | None \<Rightarrow> Fault)"

definition upd_pipe :: "nat \<Rightarrow> (pipe \<Rightarrow> pipe) \<Rightarrow> (unit, 'a kern_scheme) kop" where
  "upd_pipe p f = with_pipe p (\<lambda>q. modify (\<lambda>s. s\<lparr>pipes := (pipes s)(p \<mapsto> f q)\<rparr>))"

section \<open>Operations\<close>

definition pipeclose :: "nat \<Rightarrow> bool \<Rightarrow> (unit, 'a kern_scheme) kop" where
  "pipeclose p writable =
     andthen (acquire (PipeLk p)) (\<lambda>_.
     andthen (if writable
       then andthen (upd_pipe p (\<lambda>q. q\<lparr>writeopen := False\<rparr>)) (\<lambda>_. wakeup (PipeReadChan p))
       else andthen (upd_pipe p (\<lambda>q. q\<lparr>readopen := False\<rparr>)) (\<lambda>_. wakeup (PipeWriteChan p))) (\<lambda>_.
     with_pipe p (\<lambda>q.
     if \<not> readopen q \<and> \<not> writeopen q
     then andthen (release (PipeLk p)) (\<lambda>_.
          andthen (modify (\<lambda>s. s\<lparr>pipes := (pipes s)(p := None)\<rparr>)) (\<lambda>_.
          kfree (of_nat p)))
     else release (PipeLk p))))"

definition pipe_push :: "uchar \<Rightarrow> pipe \<Rightarrow> pipe" where
  "pipe_push c q = q\<lparr>pipe_data := (pipe_data q)[unat (nwrite q mod of_nat PIPESIZE) := c], nwrite := nwrite q + 1\<rparr>"

text \<open>\<open>pipewrite_loop p n cs\<close>: the loop with the bytes \<open>cs\<close> still to be written.\<close>

fun pipewrite_loop :: "nat \<Rightarrow> int \<Rightarrow> bytes \<Rightarrow> (int, 'a kern_scheme) kop" where
  "pipewrite_loop p n [] =
     andthen (wakeup (PipeReadChan p)) (\<lambda>_.
     andthen (release (PipeLk p)) (\<lambda>_.
     ret n))"
| "pipewrite_loop p n (c # cs) = with_pipe p (\<lambda>q.
     if nwrite q = nread q + of_nat PIPESIZE
     then with_proc (\<lambda>pr s.
       if \<not> readopen q \<or> killed (procs s ! pr)
       then andthen (release (PipeLk p)) (\<lambda>_. ret (- 1)) s
       else andthen (wakeup (PipeReadChan p)) (\<lambda>_. sleep (PipeWriteChan p) (PipeLk p)) s)
     else andthen (upd_pipe p (pipe_push c)) (\<lambda>_. pipewrite_loop p n cs))"

definition pipewrite :: "nat \<Rightarrow> bytes \<Rightarrow> int \<Rightarrow> (int, 'a kern_scheme) kop" where
  "pipewrite p addr n =
     (if length addr < nat n then fault
      else andthen (acquire (PipeLk p)) (\<lambda>_. pipewrite_loop p n (take (nat n) addr)))"

definition pipewrite_resume :: "bool \<Rightarrow> nat \<Rightarrow> int \<Rightarrow> bytes \<Rightarrow> (int, 'a kern_scheme) kop" where
  "pipewrite_resume ena p n cs =
     andthen (sleep_resume ena (PipeLk p)) (\<lambda>_. pipewrite_loop p n cs)"

definition pipe_head :: "pipe \<Rightarrow> uchar" where
  "pipe_head q = pipe_data q ! unat (nread q mod of_nat PIPESIZE)"

fun piperead_copy :: "nat \<Rightarrow> nat \<Rightarrow> bytes \<Rightarrow> (bytes, 'a kern_scheme) kop" where
  "piperead_copy p 0 acc = ret acc"
| "piperead_copy p (Suc n) acc = with_pipe p (\<lambda>q.
     if nread q = nwrite q then ret acc
     else andthen (upd_pipe p (\<lambda>q. q\<lparr>nread := nread q + 1\<rparr>)) (\<lambda>_. piperead_copy p n (acc @ [pipe_head q])))"

definition piperead_wait :: "nat \<Rightarrow> int \<Rightarrow> (int \<times> bytes, 'a kern_scheme) kop" where
  "piperead_wait p n = with_pipe p (\<lambda>q.
     if nread q = nwrite q \<and> writeopen q
     then with_proc (\<lambda>pr s.
       if killed (procs s ! pr) then andthen (release (PipeLk p)) (\<lambda>_. ret (- 1, [])) s
       else sleep (PipeReadChan p) (PipeLk p) s)
     else andthen (piperead_copy p (nat n) []) (\<lambda>bs.
       andthen (wakeup (PipeWriteChan p)) (\<lambda>_.
       andthen (release (PipeLk p)) (\<lambda>_.
       ret (int (length bs), bs)))))"

definition piperead :: "nat \<Rightarrow> int \<Rightarrow> (int \<times> bytes, 'a kern_scheme) kop" where
  "piperead p n = andthen (acquire (PipeLk p)) (\<lambda>_. piperead_wait p n)"

definition piperead_resume :: "bool \<Rightarrow> nat \<Rightarrow> int \<Rightarrow> (int \<times> bytes, 'a kern_scheme) kop" where
  "piperead_resume ena p n = andthen (sleep_resume ena (PipeLk p)) (\<lambda>_. piperead_wait p n)"

section \<open>The queue in a pipe\<close>

definition pipe_ok :: "pipe \<Rightarrow> bool" where
  "pipe_ok q \<longleftrightarrow> length (pipe_data q) = PIPESIZE \<and> nwrite q - nread q \<le> of_nat PIPESIZE"

definition pq :: "pipe \<Rightarrow> bytes" where
  "pq q = map (\<lambda>i. pipe_data q ! unat ((nread q + of_nat i) mod of_nat PIPESIZE)) [0..<unat (nwrite q - nread q)]"

lemma PIPESIZE_word: "(of_nat PIPESIZE :: uint) = 512" by (simp add: PIPESIZE_def)

lemma pq_length: "length (pq q) = unat (nwrite q - nread q)"
  by (simp add: pq_def)

lemma pipe_full: "pipe_ok q \<Longrightarrow> nwrite q = nread q + of_nat PIPESIZE \<longleftrightarrow> length (pq q) = PIPESIZE"
proof -
  have "nwrite q = nread q + 512 \<longleftrightarrow> nwrite q - nread q = 512" by (auto simp: algebra_simps)
  also have "\<dots> \<longleftrightarrow> unat (nwrite q - nread q) = 512" by (auto simp: word_unat_eq_iff)
  finally show ?thesis by (simp add: pq_length PIPESIZE_def)
qed

lemma pipe_empty: "nread q = nwrite q \<longleftrightarrow> pq q = []"
proof -
  have "nread q = nwrite q \<longleftrightarrow> unat (nwrite q - nread q) = 0" by (auto simp: unat_eq_0)
  then show ?thesis using pq_length[of q] by auto
qed

lemma slot_distinct:
  fixes r :: uint
  assumes "i < 512" "j < 512" "i \<noteq> j"
  shows "unat ((r + of_nat i) mod 512) \<noteq> unat ((r + of_nat j) mod 512)"
proof -
  have m: "unat ((r + of_nat k) mod 512) = (unat r + k) mod 512" if "k < 512" for k
  proof -
    have "unat (r + of_nat k) = (unat r + k) mod 4294967296"
      using that by (subst unat_word_ariths) (simp add: unat_of_nat)
    then have "unat ((r + of_nat k) mod 512) = (unat r + k) mod 4294967296 mod 512" by (simp add: unat_mod)
    also have "\<dots> = (unat r + k) mod 512" by (rule mod_mod_cancel) (simp add: dvd_def exI[of _ 8388608])
    finally show ?thesis .
  qed
  have "(unat r + i) mod 512 \<noteq> (unat r + j) mod 512"
  proof
    assume "(unat r + i) mod 512 = (unat r + j) mod 512"
    then have "512 dvd int i - int j" by (simp add: mod_eq_iff_dvd_symdiff_nat)
    then obtain k where k: "int i - int j = 512 * k" by (auto elim: dvdE)
    then have "k = 0" using assms(1,2) by linarith
    then show False using k assms(3) by simp
  qed
  then show ?thesis using m assms by simp
qed

text \<open>The contract of a bounded queue and what follows from it.\<close>

locale bounded_fifo =
  fixes push :: "'c \<Rightarrow> 'q \<Rightarrow> 'q" and pop :: "'q \<Rightarrow> 'q" and first :: "'q \<Rightarrow> 'c"
    and inv :: "'q \<Rightarrow> bool" and abs :: "'q \<Rightarrow> 'c list" and cap :: nat
  assumes push_ok: "inv q \<Longrightarrow> length (abs q) < cap \<Longrightarrow> inv (push c q) \<and> abs (push c q) = abs q @ [c]"
    and pop_ok: "inv q \<Longrightarrow> abs q \<noteq> [] \<Longrightarrow> inv (pop q) \<and> abs (pop q) = tl (abs q) \<and> first q = hd (abs q)"
begin

lemma push_all:
  "inv q \<Longrightarrow> length (abs q) + length cs \<le> cap \<Longrightarrow> inv (fold push cs q) \<and> abs (fold push cs q) = abs q @ cs"
proof (induction cs arbitrary: q)
  case (Cons c cs)
  then have "inv (push c q)" "abs (push c q) = abs q @ [c]" using push_ok by simp_all
  then show ?case using Cons.IH[of "push c q"] Cons.prems by simp
qed simp

lemma pop_all:
  "inv q \<Longrightarrow> n \<le> length (abs q) \<Longrightarrow> inv ((pop ^^ n) q) \<and> abs ((pop ^^ n) q) = drop n (abs q)"
proof (induction n)
  case (Suc n)
  then have "inv ((pop ^^ n) q)" "abs ((pop ^^ n) q) = drop n (abs q)" by simp_all
  then show ?case using pop_ok[of "(pop ^^ n) q"] Suc.prems by (simp add: drop_Suc tl_drop)
qed simp

end

definition pipe_pop :: "pipe \<Rightarrow> pipe" where
  "pipe_pop q = q\<lparr>nread := nread q + 1\<rparr>"

lemma unat_Suc_diff: "unat (w - r) < 512 \<Longrightarrow> unat (w + 1 - r) = Suc (unat (w - r))" for w r :: uint
proof -
  assume a: "unat (w - r) < 512"
  have e: "w + 1 - r = (w - r) + of_nat 1" by simp
  show ?thesis unfolding e using unat_add_of_nat[of "w - r" 1] a by simp
qed

lemma unat_pred_diff: "w \<noteq> r \<Longrightarrow> unat (w - (r + 1)) = unat (w - r) - 1" for w r :: uint
  using unat_minus_one[of "w - r"] by (simp add: diff_diff_eq)

interpretation pf: bounded_fifo pipe_push pipe_pop pipe_head pipe_ok pq PIPESIZE
proof
  fix q c
  assume ok: "pipe_ok q" and lt: "length (pq q) < PIPESIZE"
  let ?n = "unat (nwrite q - nread q)"
  have n: "?n < 512" using lt by (simp add: pq_length PIPESIZE_def)
  have s: "unat (nwrite q + 1 - nread q) = Suc ?n" by (rule unat_Suc_diff[OF n])
  have w: "nwrite q = nread q + of_nat ?n" by simp
  have len: "length (pipe_data q) = 512" using ok by (simp add: pipe_ok_def PIPESIZE_def)
  have slot: "unat (x mod 512) < 512" for x :: uint by (simp add: unat_mod)
  have "unat ((nread q + of_nat i) mod 512) \<noteq> unat (nwrite q mod 512)" if "i < ?n" for i
    using slot_distinct[of i ?n "nread q"] that n w by simp
  then have "(pipe_data q)[unat (nwrite q mod 512) := c] ! unat ((nread q + of_nat i) mod 512) =
      pipe_data q ! unat ((nread q + of_nat i) mod 512)" if "i < ?n" for i
    using that by (metis nth_list_update_neq)
  then have "pq (pipe_push c q) = pq q @ [c]"
    unfolding pq_def by (simp add: pipe_push_def s PIPESIZE_word len slot)
  moreover have "pipe_ok (pipe_push c q)"
    using ok s n by (simp add: pipe_ok_def pipe_push_def PIPESIZE_def word_le_nat_alt)
  ultimately show "pipe_ok (pipe_push c q) \<and> pq (pipe_push c q) = pq q @ [c]" by simp
next
  fix q
  assume ok: "pipe_ok q" and ne: "pq q \<noteq> []"
  let ?n = "unat (nwrite q - nread q)"
  have d: "nwrite q \<noteq> nread q" using ne pipe_empty[of q] by auto
  have n: "?n = Suc (?n - 1)" using ne pq_length[of q] by (cases ?n) auto
  have e: "[0..<?n] = 0 # map Suc [0..<?n - 1]" by (subst n) (simp only: upt_conv_Cons map_Suc_upt zero_less_Suc)
  have h: "pq q = pipe_head q # map (\<lambda>i. pipe_data q ! unat ((nread q + of_nat (Suc i)) mod 512)) [0..<?n - 1]"
    unfolding pq_def e by (simp add: pipe_head_def PIPESIZE_word o_def)
  have "pq (pipe_pop q) = map (\<lambda>i. pipe_data q ! unat ((nread q + of_nat (Suc i)) mod 512)) [0..<?n - 1]"
    unfolding pq_def by (simp add: pipe_pop_def unat_pred_diff[OF d] PIPESIZE_word add.assoc)
  moreover have "pipe_ok (pipe_pop q)"
    using ok unat_pred_diff[OF d] by (auto simp: pipe_ok_def pipe_pop_def word_le_nat_alt PIPESIZE_def)
  ultimately show "pipe_ok (pipe_pop q) \<and> pq (pipe_pop q) = tl (pq q) \<and> pipe_head q = hd (pq q)"
    using h by simp
qed

section \<open>The operations on the queue\<close>

lemma wake_upd: "s\<lparr>pipes := a, procs := b\<rparr> = s\<lparr>procs := b, pipes := a\<rparr>"
  by (rule kern.equality) simp_all

lemma pipewrite_loop_fits:
  assumes "quiet s" "pipes s p = Some q" "pipe_ok q" "length (pq q) + length cs \<le> PIPESIZE"
  shows "pipewrite_loop p n cs (hold [PipeLk p] s) =
    Done n (s\<lparr>pipes := (pipes s)(p \<mapsto> fold pipe_push cs q), procs := map (wake_proc (PipeReadChan p)) (procs s)\<rparr>)"
  using assms
proof (induction cs arbitrary: s q)
  case Nil
  then show ?case by (simp add: lock_simps fun_upd_idem)
next
  case (Cons c cs)
  have nf: "nwrite q \<noteq> nread q + of_nat PIPESIZE" using pipe_full[of q] Cons.prems by simp
  have ok: "pipe_ok (pipe_push c q)" "pq (pipe_push c q) = pq q @ [c]"
    using pf.push_ok[of q c] Cons.prems by simp_all
  show ?case
    using nf Cons.prems Cons.IH[of "s\<lparr>pipes := (pipes s)(p \<mapsto> pipe_push c q)\<rparr>" "pipe_push c q"] ok
    by (simp add: with_pipe_def upd_pipe_def cong: if_cong)
qed

lemma pipewrite_fits:
  assumes "quiet s" "pipes s p = Some q" "pipe_ok q" "length (pq q) + length cs \<le> PIPESIZE"
  shows "pipewrite p cs (int (length cs)) s = Done (int (length cs))
    (s\<lparr>pipes := (pipes s)(p \<mapsto> fold pipe_push cs q), procs := map (wake_proc (PipeReadChan p)) (procs s)\<rparr>)"
  using assms pipewrite_loop_fits[OF assms] by (simp add: pipewrite_def lock_simps)

lemma piperead_copy_eq:
  assumes "quiet s" "pipes s p = Some q" "pipe_ok q"
  shows "piperead_copy p n acc (hold ls s) = Done (acc @ take n (pq q))
    (hold ls (s\<lparr>pipes := (pipes s)(p \<mapsto> (pipe_pop ^^ min n (length (pq q))) q)\<rparr>))"
  using assms
proof (induction n arbitrary: s q acc)
  case 0
  then show ?case by (simp add: fun_upd_idem)
next
  case (Suc n)
  show ?case
  proof (cases "pq q = []")
    case True
    then have "nread q = nwrite q" using pipe_empty[of q] by simp
    then show ?thesis using True Suc.prems by (simp add: with_pipe_def fun_upd_idem)
  next
    case False
    have ne: "nread q \<noteq> nwrite q" using pipe_empty[of q] False by simp
    have ok: "pipe_ok (pipe_pop q)" "pq (pipe_pop q) = tl (pq q)" "pipe_head q = hd (pq q)"
      using pf.pop_ok[of q] False Suc.prems(3) by simp_all
    obtain x xs where x: "pq q = x # xs" using False by (cases "pq q") auto
    show ?thesis
      using ne Suc.prems Suc.IH[of "s\<lparr>pipes := (pipes s)(p \<mapsto> pipe_pop q)\<rparr>" "pipe_pop q" "acc @ [x]"] ok x
      by (simp add: with_pipe_def upd_pipe_def pipe_pop_def[symmetric] funpow_swap1 cong: if_cong)
  qed
qed

lemma piperead_some:
  assumes "quiet s" "pipes s p = Some q" "pipe_ok q" "pq q \<noteq> [] \<or> \<not> writeopen q"
  shows "piperead p (int n) s = Done (int (length (take n (pq q))), take n (pq q))
    (s\<lparr>pipes := (pipes s)(p \<mapsto> (pipe_pop ^^ min n (length (pq q))) q), procs := map (wake_proc (PipeWriteChan p)) (procs s)\<rparr>)"
proof -
  have "\<not> (nread q = nwrite q \<and> writeopen q)" using pipe_empty[of q] assms(4) by auto
  then show ?thesis
    using assms(1,2) piperead_copy_eq[OF assms(1-3), of n "[]" "[PipeLk p]"]
    by (auto simp: piperead_def piperead_wait_def with_pipe_def lock_simps)
qed

section \<open>Properties\<close>

text \<open>A client of the pipe and of a plain queue of at most \<open>PIPESIZE\<close> bytes.\<close>

datatype pipe_op = PWrite bytes | PRead nat

fun pipe_run :: "nat \<Rightarrow> pipe_op list \<Rightarrow> (bytes, 'a kern_scheme) kop" where
  "pipe_run p [] = ret []"
| "pipe_run p (PWrite bs # ops) = andthen (pipewrite p bs (int (length bs))) (\<lambda>r. pipe_run p ops)"
| "pipe_run p (PRead n # ops) = andthen (piperead p (int n)) (\<lambda>(r, bs).
     andthen (pipe_run p ops) (\<lambda>rest. ret (bs @ rest)))"

fun fifo_run :: "bytes \<Rightarrow> pipe_op list \<Rightarrow> (bytes \<times> bytes) option" where
  "fifo_run xs [] = Some ([], xs)"
| "fifo_run xs (PWrite bs # ops) = (if length xs + length bs \<le> PIPESIZE then fifo_run (xs @ bs) ops else None)"
| "fifo_run xs (PRead n # ops) =
     (if xs = [] then None else map_option (\<lambda>(out, ys). (take n xs @ out, ys)) (fifo_run (drop n xs) ops))"

text \<open>
  C17: a pipe is a bounded first-in first-out queue.  For every sequence of writes and reads that a plain
  queue of 512 bytes can serve without waiting, \<open>pipewrite\<close> and \<open>piperead\<close> return, every byte written is
  read once, in order and unchanged, and what is left in the pipe is what is left in the plain queue;
  also when the 32-bit counters of bytes read and written wrap around.
\<close>

theorem pipe_fifo:
  assumes "quiet s" "pipes s p = Some q" "pipe_ok q" "fifo_run (pq q) ops = Some (out, xs)"
  shows "\<exists>s' q'. pipe_run p ops s = Done out s' \<and> quiet s' \<and> pipes s' p = Some q' \<and> pipe_ok q' \<and> pq q' = xs"
  using assms
proof (induction p ops arbitrary: s q out rule: pipe_run.induct)
  case (2 p bs ops)
  have fit: "length (pq q) + length bs \<le> PIPESIZE" "fifo_run (pq q @ bs) ops = Some (out, xs)"
    using "2.prems"(4) by (auto split: if_splits)
  show ?case
    using "2.IH"[of "s\<lparr>pipes := (pipes s)(p \<mapsto> fold pipe_push bs q), procs := map (wake_proc (PipeReadChan p)) (procs s)\<rparr>"
        "fold pipe_push bs q" out] pipewrite_fits[OF "2.prems"(1-3) fit(1)] pf.push_all[OF "2.prems"(3) fit(1)] fit(2)
      "2.prems"(1) by simp
next
  case (3 p n ops)
  obtain out' where o: "pq q \<noteq> []" "fifo_run (drop n (pq q)) ops = Some (out', xs)" "out = take n (pq q) @ out'"
    using "3.prems"(4) by (auto split: if_splits)
  let ?q = "(pipe_pop ^^ min n (length (pq q))) q"
  let ?s = "s\<lparr>pipes := (pipes s)(p \<mapsto> ?q), procs := map (wake_proc (PipeWriteChan p)) (procs s)\<rparr>"
  have r: "piperead p (int n) s = Done (int (length (take n (pq q))), take n (pq q)) ?s"
    by (rule piperead_some[OF "3.prems"(1-3)]) (use o(1) in simp)
  have d: "pipe_ok ?q" "pq ?q = drop n (pq q)"
    using pf.pop_all[OF "3.prems"(3), of "min n (length (pq q))"] by (auto simp: min_def)
  from "3.IH"[of ?s ?q out'] d o(2) "3.prems"(1) obtain s' q' where
    "pipe_run p ops ?s = Done out' s'" "quiet s'" "pipes s' p = Some q'" "pipe_ok q'" "pq q' = xs" by auto
  then show ?case using r o(3) by simp
qed auto

text \<open>A kernel state for the witnesses: an empty disk, one free inode entry, one pipe whose counters are about
  to wrap around.\<close>

definition inode0 :: inode where
  "inode0 = \<lparr>i_dev = 0, i_inum = 0, i_ref = 0, i_busy = False, i_valid = False, i_type = 0, i_major = 0, i_minor = 0,
     i_nlink = 0, i_size = 0, i_addrs = replicate (NDIRECT + 1) 0\<rparr>"

definition file0 :: file_t where
  "file0 = \<lparr>f_type = FD_NONE, f_ref = 0, f_readable = False, f_writable = False, f_pipe = 0, f_ip = 0, f_off = 0\<rparr>"

definition fs_demo :: fs where
  "fs_demo = (log.extend (log_fresh demo_disk)
     (fs.fields (dec_sb (replicate BSIZE 0)) [inode0] (replicate NDEV \<lparr>dev_rd = None, dev_wr = None\<rparr>)
        (replicate INPUT_BUF 0) 0 0 0))\<lparr>mem := mem kmem_demo, freelist := freelist kmem_demo, kend := kend kmem_demo\<rparr>"

definition pipe_demo :: pipe where
  "pipe_demo = \<lparr>pipe_data = replicate PIPESIZE 0, nread = - 2, nwrite = - 2, readopen = True, writeopen = True\<rparr>"

definition kern_demo :: kern where
  "kern_demo = fs.extend fs_demo (kern.fields [file0, file0] [0x1000 \<mapsto> pipe_demo] 0 0 0 0 True)"

lemma kern_demo_sel [simp]: "pipes kern_demo = [0x1000 \<mapsto> pipe_demo]" "ftable kern_demo = [file0, file0]"
  by (simp_all add: kern_demo_def fs.defs kern.defs)

lemma quiet_fresh: "quiet (log_fresh demo_disk)"
  using log_demo_ok(1) by (simp add: fs_ok_def log_inv_def bio_ok_def)

lemma quiet_kern_demo: "quiet kern_demo"
  using quiet_fresh by (simp add: kern_demo_def fs_demo_def fs.defs kern.defs log.defs quiet_def)

lemma kern_demo_inv: "kmem_inv kern_demo [0x80200000, 0x80300000]"
  using kmem_demo_inv by (simp add: kern_demo_def fs_demo_def fs.defs kern.defs log.defs kmem_inv_def page_ok_def)

lemma pipe_demo_ok: "pipe_ok pipe_demo" "pq pipe_demo = []"
  by (simp_all add: pipe_ok_def pipe_demo_def pq_def)

theorem pipe_fifo_witness:
  "\<exists>s'. pipe_run 0x1000 [PWrite [1, 2, 3, 4], PRead 3, PWrite [5], PRead 9] kern_demo = Done [1, 2, 3, 4, 5] s'"
proof -
  have "fifo_run (pq pipe_demo) [PWrite [1, 2, 3, 4], PRead 3, PWrite [5], PRead 9] = Some ([1, 2, 3, 4, 5], [])"
    by (simp add: pipe_demo_ok PIPESIZE_def)
  moreover have "pipes kern_demo 0x1000 = Some pipe_demo" by simp
  ultimately show ?thesis using pipe_fifo[OF quiet_kern_demo _ pipe_demo_ok(1)] by blast
qed

end
