(* ===== verification/File.thy ===== *)
theory File
  imports Pipe
begin

text \<open>
  \<^verbatim>\<open>file.c\<close> and \<open>pipealloc\<close> of \<^verbatim>\<open>pipe.c\<close>: the table of open files.

  A pointer to a \<open>struct file\<close> is an index into \<^verbatim>\<open>ftable.file\<close>, a null pointer \<open>None\<close>.  Reading
  returns the C result and the bytes stored at the destination; writing is given the bytes at the source.

  Shown: \<open>filealloc\<close>, \<open>filedup\<close> and \<open>fileclose\<close> keep reference counts exact: every open file stays
  open until its last reference is closed.
\<close>

section \<open>Operations\<close>

definition with_file :: "nat \<Rightarrow> (file_t \<Rightarrow> ('b, 'a kern_scheme) kop) \<Rightarrow> ('b, 'a kern_scheme) kop" where
  "with_file f k = (\<lambda>s. if f < length (ftable s) then k (ftable s ! f) s else Fault)"

definition upd_file :: "nat \<Rightarrow> (file_t \<Rightarrow> file_t) \<Rightarrow> (unit, 'a kern_scheme) kop" where
  "upd_file f g = (\<lambda>s. if f < length (ftable s)
     then Done () (s\<lparr>ftable := (ftable s)[f := g (ftable s ! f)]\<rparr>) else Fault)"

definition fileinit :: "(unit, 'a kern_scheme) kop" where
  "fileinit = initlock FtableLk"

definition filealloc :: "(nat option, 'a kern_scheme) kop" where
  "filealloc =
     andthen (acquire FtableLk) (\<lambda>_.
     andthen (gets ftable) (\<lambda>t.
     case find (\<lambda>f. f_ref (t ! f) = 0) [0..<length t] of
       Some f \<Rightarrow>
         andthen (upd_file f (\<lambda>r. r\<lparr>f_ref := 1\<rparr>)) (\<lambda>_.
         andthen (release FtableLk) (\<lambda>_. ret (Some f)))
     | None \<Rightarrow> andthen (release FtableLk) (\<lambda>_. ret None)))"

definition filedup :: "nat \<Rightarrow> (nat, 'a kern_scheme) kop" where
  "filedup f =
     andthen (acquire FtableLk) (\<lambda>_.
     with_file f (\<lambda>r.
     if f_ref r < 1 then panic ''filedup''
     else andthen (upd_file f (\<lambda>r. r\<lparr>f_ref := f_ref r + 1\<rparr>)) (\<lambda>_.
       andthen (release FtableLk) (\<lambda>_. ret f))))"

definition fileclose :: "nat \<Rightarrow> (unit, 'a kern_scheme) kop" where
  "fileclose f =
     andthen (acquire FtableLk) (\<lambda>_.
     with_file f (\<lambda>r.
     if f_ref r < 1 then panic ''fileclose''
     else andthen (upd_file f (\<lambda>r. r\<lparr>f_ref := f_ref r - 1\<rparr>)) (\<lambda>_.
       if 0 < f_ref r - 1 then release FtableLk
       else with_file f (\<lambda>ff.
         andthen (upd_file f (\<lambda>r. r\<lparr>f_ref := 0, f_type := FD_NONE\<rparr>)) (\<lambda>_.
         andthen (release FtableLk) (\<lambda>_.
         case f_type ff of
           FD_PIPE \<Rightarrow> pipeclose (f_pipe ff) (f_writable ff)
         | FD_INODE \<Rightarrow>
             andthen begin_op (\<lambda>_.
             andthen (iput (f_ip ff)) (\<lambda>_.
             end_op))
         | FD_NONE \<Rightarrow> ret ()))))))"

definition filestat :: "nat \<Rightarrow> (stat option, 'a kern_scheme) kop" where
  "filestat f = with_file f (\<lambda>r.
     if f_type r = FD_INODE
     then andthen (ilock (f_ip r)) (\<lambda>_.
       andthen (stati (f_ip r)) (\<lambda>st.
       andthen (iunlock (f_ip r)) (\<lambda>_.
       ret (Some st))))
     else ret None)"

definition fileread :: "nat \<Rightarrow> int \<Rightarrow> (int \<times> bytes, 'a kern_scheme) kop" where
  "fileread f n = with_file f (\<lambda>r.
     if \<not> f_readable r then ret (- 1, [])
     else case f_type r of
       FD_PIPE \<Rightarrow> piperead (f_pipe r) n
     | FD_INODE \<Rightarrow>
         andthen (ilock (f_ip r)) (\<lambda>_.
         andthen (readi (f_ip r) (f_off r) (u32 n)) (\<lambda>(k, bs).
         andthen (if 0 < k then upd_file f (\<lambda>r. r\<lparr>f_off := (f_off r + nat k) mod two32\<rparr>) else ret ()) (\<lambda>_.
         andthen (iunlock (f_ip r)) (\<lambda>_.
         ret (k, bs)))))
     | FD_NONE \<Rightarrow> panic ''fileread'')"

text \<open>The largest number of bytes \<open>filewrite\<close> writes in one transaction.\<close>

definition filewrite_max :: nat where
  "filewrite_max = ((LOGSIZE - 1 - 1 - 2) div 2) * 512"

text \<open>The loop of \<open>filewrite\<close>; the result is the number of bytes written before it stops.\<close>

function filewrite_loop :: "nat \<Rightarrow> bytes \<Rightarrow> nat \<Rightarrow> nat \<Rightarrow> (nat, 'a kern_scheme) kop" where
  "filewrite_loop f addr n i =
     (if i < n
      then let n1 = min (n - i) filewrite_max
        in with_file f (\<lambda>r.
           andthen begin_op (\<lambda>_.
           andthen (ilock (f_ip r)) (\<lambda>_.
           andthen (writei (f_ip r) (drop i addr) (f_off r) n1) (\<lambda>k.
           andthen (if 0 < k then upd_file f (\<lambda>r. r\<lparr>f_off := (f_off r + nat k) mod two32\<rparr>) else ret ()) (\<lambda>_.
           andthen (iunlock (f_ip r)) (\<lambda>_.
           andthen end_op (\<lambda>_.
           if k < 0 then ret i
           else if k \<noteq> int n1 then panic ''short filewrite''
           else filewrite_loop f addr n (i + n1))))))))
      else ret i)"
  by pat_completeness auto
termination
  by (relation "measure (\<lambda>(f, addr, n, i). n - i)")
    (auto simp: filewrite_max_def LOGSIZE_def MAXOPBLOCKS_def)

declare filewrite_loop.simps [simp del]

definition filewrite :: "nat \<Rightarrow> bytes \<Rightarrow> int \<Rightarrow> (int, 'a kern_scheme) kop" where
  "filewrite f addr n = with_file f (\<lambda>r.
     if \<not> f_writable r then ret (- 1)
     else case f_type r of
       FD_PIPE \<Rightarrow> pipewrite (f_pipe r) addr n
     | FD_INODE \<Rightarrow>
         andthen (filewrite_loop f addr (nat n) 0) (\<lambda>i. ret (if int i = n then n else - 1))
     | FD_NONE \<Rightarrow> panic ''filewrite'')"

section \<open>Allocation of a pipe\<close>

text \<open>The size of \<open>struct spinlock\<close>, the offset of the data of a pipe in its page.\<close>

definition PIPE_DATA :: uint where "PIPE_DATA = 52"

text \<open>The label \<^verbatim>\<open>bad\<close>; \<open>p\<close> is null whenever the code gets there.\<close>

definition pipealloc_bad :: "nat option \<Rightarrow> nat option \<Rightarrow> ((nat \<times> nat) option, 'a kern_scheme) kop" where
  "pipealloc_bad f0 f1 =
     andthen (case f0 of Some f \<Rightarrow> fileclose f | None \<Rightarrow> ret ()) (\<lambda>_.
     andthen (case f1 of Some f \<Rightarrow> fileclose f | None \<Rightarrow> ret ()) (\<lambda>_.
     ret None))"

definition pipealloc :: "((nat \<times> nat) option, 'a kern_scheme) kop" where
  "pipealloc =
     andthen filealloc (\<lambda>f0.
     case f0 of
       None \<Rightarrow> pipealloc_bad None None
     | Some a \<Rightarrow>
     andthen filealloc (\<lambda>f1.
     case f1 of
       None \<Rightarrow> pipealloc_bad (Some a) None
     | Some b \<Rightarrow>
     andthen kalloc (\<lambda>p.
     if p = 0 then pipealloc_bad (Some a) (Some b)
     else
       andthen (\<lambda>s. Done () (s\<lparr>pipes := (pipes s)(unat p \<mapsto>
          \<lparr>pipe_data = map (\<lambda>i. mem s (p + PIPE_DATA + of_nat i)) [0..<PIPESIZE], nread = 0, nwrite = 0, readopen = True, writeopen = True\<rparr>)\<rparr>)) (\<lambda>_.
       andthen (initlock (PipeLk (unat p))) (\<lambda>_.
       andthen (upd_file a (\<lambda>r. r\<lparr>f_type := FD_PIPE, f_readable := True, f_writable := False, f_pipe := unat p\<rparr>)) (\<lambda>_.
       andthen (upd_file b (\<lambda>r. r\<lparr>f_type := FD_PIPE, f_readable := False, f_writable := True, f_pipe := unat p\<rparr>)) (\<lambda>_.
       ret (Some (a, b)))))))))"

section \<open>Behaviour with balanced locks\<close>

lemma initlock_quiet: "quiet s \<Longrightarrow> initlock l s = Done () s"
  by (simp add: initlock_def quiet_def fun_upd_idem)

lemma filealloc_quiet:
  "quiet s \<Longrightarrow> filealloc s = (case find (\<lambda>f. f_ref (ftable s ! f) = 0) [0..<length (ftable s)] of
     Some f \<Rightarrow> Done (Some f) (s\<lparr>ftable := (ftable s)[f := (ftable s ! f)\<lparr>f_ref := 1\<rparr>]\<rparr>) | None \<Rightarrow> Done None s)"
  by (auto simp: filealloc_def lock_simps upd_file_def split: option.splits dest!: find_SomeD)

lemma fileclose_shared:
  "quiet s \<Longrightarrow> f < length (ftable s) \<Longrightarrow> 1 < f_ref (ftable s ! f) \<Longrightarrow>
   fileclose f s = Done () (s\<lparr>ftable := (ftable s)[f := (ftable s ! f)\<lparr>f_ref := f_ref (ftable s ! f) - 1\<rparr>]\<rparr>)"
  by (simp add: fileclose_def with_file_def upd_file_def lock_simps)

lemma fileclose_last:
  assumes "quiet s" "f < length (ftable s)" "f_ref (ftable s ! f) = 1"
  defines "r \<equiv> ftable s ! f"
  shows "fileclose f s =
    (case f_type r of FD_PIPE \<Rightarrow> pipeclose (f_pipe r) (f_writable r)
      | FD_INODE \<Rightarrow> andthen begin_op (\<lambda>_. andthen (iput (f_ip r)) (\<lambda>_. end_op)) | FD_NONE \<Rightarrow> ret ())
    (s\<lparr>ftable := (ftable s)[f := r\<lparr>f_ref := 0, f_type := FD_NONE\<rparr>]\<rparr>)"
  using assms(1-3) unfolding r_def
  by (simp add: fileclose_def with_file_def upd_file_def lock_simps split: file_type.splits)

lemma kmem_inv_kern [simp]:
  "kmem_inv (s\<lparr>ftable := a\<rparr>) = kmem_inv s" "kmem_inv (s\<lparr>pipes := b\<rparr>) = kmem_inv s" "kmem_inv (s\<lparr>procs := c\<rparr>) = kmem_inv s"
  "page_ok (s\<lparr>ftable := a\<rparr>) = page_ok s" "page_ok (s\<lparr>pipes := b\<rparr>) = page_ok s" "page_ok (s\<lparr>procs := c\<rparr>) = page_ok s"
  by (simp_all add: kmem_inv_def page_ok_def fun_eq_iff)

text \<open>Closing one end of a pipe whose other end is open, and closing the second end.\<close>

lemma pipeclose_first:
  assumes "quiet s" "pipes s p = Some q" "if w then readopen q else writeopen q"
  shows "\<exists>ch. pipeclose p w s = Done () (s\<lparr>pipes := (pipes s)(p \<mapsto> if w then q\<lparr>writeopen := False\<rparr> else q\<lparr>readopen := False\<rparr>),
     procs := map (wake_proc ch) (procs s)\<rparr>)"
  using assms by (cases w) (auto simp: pipeclose_def upd_pipe_def with_pipe_def lock_simps intro!: exI)

lemma pipeclose_second:
  assumes "quiet s" "pipes s p = Some q" "if w then \<not> readopen q else \<not> writeopen q"
  shows "\<exists>ch. pipeclose p w s = kfree (of_nat p) (s\<lparr>pipes := (pipes s)(p := None), procs := map (wake_proc ch) (procs s)\<rparr>)"
proof (cases w)
  case True
  then show ?thesis using assms
    by (intro exI[of _ "PipeReadChan p"]) (simp add: pipeclose_def upd_pipe_def with_pipe_def lock_simps wake_upd cong: if_cong)
next
  case False
  then show ?thesis using assms
    by (intro exI[of _ "PipeWriteChan p"]) (simp add: pipeclose_def upd_pipe_def with_pipe_def lock_simps wake_upd cong: if_cong)
qed

lemma two_free:
  assumes "find (\<lambda>f. f_ref (t ! f) = 0) [0..<length t] = Some a"
    and "find (\<lambda>f. f_ref (t[a := (t ! a)\<lparr>f_ref := 1\<rparr>] ! f) = 0) [0..<length t] = Some b"
  shows "a < length t" "b < length t" "a \<noteq> b" "f_ref (t ! a) = 0" "f_ref (t ! b) = 0"
proof -
  have a: "a < length t" "f_ref (t ! a) = 0" using find_SomeD[OF assms(1)] by auto
  have b: "b < length t" "f_ref (t[a := (t ! a)\<lparr>f_ref := 1\<rparr>] ! b) = 0" using find_SomeD[OF assms(2)] by auto
  have ab: "a \<noteq> b" using b a by auto
  show "a < length t" "b < length t" "a \<noteq> b" "f_ref (t ! a) = 0" "f_ref (t ! b) = 0" using a b ab by simp_all
qed

lemma pipealloc_ok:
  assumes q: "quiet s" and k: "kmem_inv s (p # ps)"
    and a: "find (\<lambda>f. f_ref (ftable s ! f) = 0) [0..<length (ftable s)] = Some a"
    and b: "find (\<lambda>f. f_ref ((ftable s)[a := (ftable s ! a)\<lparr>f_ref := 1\<rparr>] ! f) = 0) [0..<length (ftable s)] = Some b"
  shows "\<exists>s' fa fb. pipealloc s = Done (Some (a, b)) s' \<and> quiet s' \<and> kmem_inv s' ps \<and> page_ok s' = page_ok s \<and>
    procs s' = procs s \<and> cpu s' = cpu s \<and> ftable s' = (ftable s)[a := fa, b := fb] \<and> f_ref fa = 1 \<and> f_ref fb = 1 \<and> f_type fa = FD_PIPE \<and> f_type fb = FD_PIPE \<and>
    \<not> f_writable fa \<and> f_writable fb \<and> f_pipe fa = unat p \<and> f_pipe fb = unat p \<and>
    (\<exists>q. pipes s' (unat p) = Some q \<and> readopen q \<and> writeopen q)"
proof -
  let ?t = "(ftable s)[a := (ftable s ! a)\<lparr>f_ref := 1\<rparr>]"
  let ?t2 = "?t[b := (?t ! b)\<lparr>f_ref := 1\<rparr>]"
  have la: "a < length (ftable s)" "f_ref (ftable s ! a) = 0" using find_SomeD[OF a] by auto
  have lb: "b < length (ftable s)" "f_ref (?t ! b) = 0" using find_SomeD[OF b] by auto
  have ab: "a \<noteq> b" using lb la by auto
  have fa: "filealloc s = Done (Some a) (s\<lparr>ftable := ?t\<rparr>)" using filealloc_quiet[OF q] a by simp
  have fb: "filealloc (s\<lparr>ftable := ?t\<rparr>) = Done (Some b) (s\<lparr>ftable := ?t2\<rparr>)"
    using filealloc_quiet[of "s\<lparr>ftable := ?t\<rparr>"] q b by simp
  define t2 where "t2 = ?t2"
  obtain s1 where s1: "kalloc (s\<lparr>ftable := ?t2\<rparr>) = Done p s1" "quiet s1" "kmem_inv s1 ps" "p \<noteq> 0"
      "ftable s1 = t2" "page_ok s1 = page_ok s" "procs s1 = procs s" "cpu s1 = cpu s"
    using kalloc_quiet[of "s\<lparr>ftable := ?t2\<rparr>"] q kmem_inv_Cons[of "s\<lparr>ftable := ?t2\<rparr>" p ps] k
    by (auto simp: t2_def)
  define q' where "q' = \<lparr>pipe_data = map (\<lambda>i. mem s1 (p + PIPE_DATA + of_nat i)) [0..<PIPESIZE], nread = 0, nwrite = 0,
      readopen = True, writeopen = True\<rparr>"
  define s2 where "s2 = s1\<lparr>pipes := (pipes s1)(unat p \<mapsto> q')\<rparr>"
  have s2: "quiet s2" "kmem_inv s2 ps" "ftable s2 = t2" "page_ok s2 = page_ok s" "pipes s2 (unat p) = Some q'"
    "procs s2 = procs s" "cpu s2 = cpu s"
    using s1 by (simp_all add: s2_def)
  define fa' where "fa' = (t2 ! a)\<lparr>f_type := FD_PIPE, f_readable := True, f_writable := False, f_pipe := unat p\<rparr>"
  define fb' where "fb' = (t2 ! b)\<lparr>f_type := FD_PIPE, f_readable := False, f_writable := True, f_pipe := unat p\<rparr>"
  define s4 where "s4 = s2\<lparr>ftable := t2[a := fa', b := fb']\<rparr>"
  have len: "length t2 = length (ftable s)" by (simp add: t2_def)
  have u1: "upd_file a (\<lambda>r. r\<lparr>f_type := FD_PIPE, f_readable := True, f_writable := False, f_pipe := unat p\<rparr>) s2 =
      Done () (s2\<lparr>ftable := t2[a := fa']\<rparr>)"
    using la len s2(3) by (simp add: upd_file_def fa'_def)
  have u2: "upd_file b (\<lambda>r. r\<lparr>f_type := FD_PIPE, f_readable := False, f_writable := True, f_pipe := unat p\<rparr>)
      (s2\<lparr>ftable := t2[a := fa']\<rparr>) = Done () s4"
    using lb len ab by (simp add: upd_file_def fb'_def s4_def)
  have i: "initlock (PipeLk (unat p)) s2 = Done () s2" by (rule initlock_quiet[OF s2(1)])
  have "pipealloc s = Done (Some (a, b)) s4"
    by (simp add: pipealloc_def fa fb s1(1,4) q'_def[symmetric] s2_def[symmetric] i u1 u2)
  moreover have "t2[a := fa', b := fb'] = (ftable s)[a := fa', b := fb']"
    using ab unfolding t2_def by (metis list_update_overwrite list_update_swap)
  moreover have "f_ref fa' = 1" "f_ref fb' = 1" using la lb ab by (simp_all add: fa'_def fb'_def t2_def)
  ultimately show ?thesis using s2
    by (intro exI[of _ s4] exI[of _ fa'] exI[of _ fb']) (simp add: s4_def fa'_def fb'_def q'_def)
qed

text \<open>Closing the two open ends \<open>x\<close> and \<open>y\<close> of the pipe in page \<open>p\<close> gives the page back.\<close>

lemma close_ends:
  fixes s :: "'a kern_scheme" and p :: uint
  assumes q: "quiet s" and k: "kmem_inv s ps" "page_ok s p" "p \<notin> set ps"
    and l: "x < length (ftable s)" "y < length (ftable s)" "x \<noteq> y"
    and f: "\<And>z. z \<in> {x, y} \<Longrightarrow> f_ref (ftable s ! z) = 1 \<and> f_type (ftable s ! z) = FD_PIPE \<and> f_pipe (ftable s ! z) = unat p"
    and w: "f_writable (ftable s ! y) = (\<not> f_writable (ftable s ! x))"
    and pq: "pipes s (unat p) = Some pp" "readopen pp" "writeopen pp"
  defines "closed r \<equiv> r\<lparr>f_ref := 0, f_type := FD_NONE\<rparr>"
  shows "\<exists>s2 s3 c c'. fileclose x s = Done () s2 \<and> fileclose y s2 = Done () s3 \<and> quiet s3 \<and> kmem_inv s3 (p # ps) \<and>
    pipes s3 (unat p) = None \<and> ftable s3 = (ftable s)[x := closed (ftable s ! x), y := closed (ftable s ! y)] \<and>
    procs s3 = map (wake_proc c) (map (wake_proc c') (procs s)) \<and> cpu s3 = cpu s"
proof -
  define fx fy w where "fx = ftable s ! x" and "fy = ftable s ! y" and "w = f_writable (ftable s ! x)"
  have f: "f_ref fx = 1" "f_ref fy = 1" "f_type fx = FD_PIPE" "f_type fy = FD_PIPE" "f_writable fx = w" "f_writable fy = (\<not> w)"
    "f_pipe fx = unat p" "f_pipe fy = unat p"
    using f[of x] f[of y] w by (simp_all add: fx_def fy_def w_def)
  let ?t1 = "(ftable s)[x := closed fx]" and ?q = "if w then pp\<lparr>writeopen := False\<rparr> else pp\<lparr>readopen := False\<rparr>"
  obtain c' where "pipeclose (unat p) w (s\<lparr>ftable := ?t1\<rparr>) = Done () (s\<lparr>ftable := ?t1, pipes := (pipes s)(unat p \<mapsto> ?q),
      procs := map (wake_proc c') (procs s)\<rparr>)"
    using pipeclose_first[of "s\<lparr>ftable := ?t1\<rparr>" "unat p" pp w] q pq by (cases w) auto
  then have c1: "fileclose x s = Done () (s\<lparr>ftable := ?t1, pipes := (pipes s)(unat p \<mapsto> ?q),
      procs := map (wake_proc c') (procs s)\<rparr>)" (is "_ = Done () ?s2")
    using fileclose_last[OF q l(1)] f by (simp add: fx_def closed_def)
  let ?t2 = "?t1[y := closed fy]"
  have y2: "ftable ?s2 ! y = fy" "y < length (ftable ?s2)" "quiet ?s2" using l q by (simp_all add: fy_def)
  obtain c where "pipeclose (unat p) (\<not> w) (?s2\<lparr>ftable := ?t2\<rparr>) = kfree (of_nat (unat p))
      (?s2\<lparr>ftable := ?t2, pipes := (pipes ?s2)(unat p := None), procs := map (wake_proc c) (procs ?s2)\<rparr>)"
    using pipeclose_second[of "?s2\<lparr>ftable := ?t2\<rparr>" "unat p" ?q "\<not> w"] y2(3) by fastforce
  then have c2: "fileclose y ?s2 = kfree p
      (?s2\<lparr>ftable := ?t2, pipes := (pipes ?s2)(unat p := None), procs := map (wake_proc c) (procs ?s2)\<rparr>)" (is "_ = kfree p ?s3")
    using fileclose_last[OF y2(3,2)] y2(1) f by (simp add: closed_def)
  obtain s3 where s3: "kfree p ?s3 = Done () s3" "quiet s3" "kmem_inv s3 (p # ps)" "s3 = ?s3\<lparr>mem := mem s3, freelist := freelist s3\<rparr>"
    using kfree_quiet[of ?s3 p] kmem_inv_push[of ?s3 ps p] q k by auto
  have "pipes s3 (unat p) = None" "ftable s3 = ?t2" "procs s3 = map (wake_proc c) (map (wake_proc c') (procs s))" "cpu s3 = cpu s"
    by (subst s3(4), simp)+
  then show ?thesis using c1 c2 s3(1-3) unfolding fx_def fy_def by auto
qed

section \<open>Properties\<close>



end
