(* ===== verification/Proc.thy ===== *)
theory Proc
  imports File
begin

text \<open>
  \<^verbatim>\<open>proc.c\<close>, second half: creating, ending and waiting for processes, and the scheduler; with the
  functions of \<^verbatim>\<open>vm.c\<close> that load the page-table register.

  A pointer to a process is an index into \<^verbatim>\<open>ptable.proc\<close>.  The bytes of \<^verbatim>\<open>initcode\<close>, which the build
  produces, are a parameter of \<open>userinit\<close>.  \<open>swtch\<close> ends the model of an operation with \<open>Switch\<close>; what
  follows it is a definition of its own (\<open>scheduler_resume\<close>, \<open>wait_resume\<close>).  Loading the segment
  registers in \<open>switchuvm\<close> is modelled only for the stack pointer of the task state.
\<close>

unbundle bit_operations_syntax

section \<open>The page-table register\<close>

definition switchkvm :: "(unit, 'a kern_scheme) kop" where
  "switchkvm = modify (\<lambda>s. s\<lparr>cr3 := v2p (kpgdir s)\<rparr>)"

definition kvmalloc :: "(unit, 'a kern_scheme) kop" where
  "kvmalloc =
     andthen setupkvm (\<lambda>d.
     andthen (modify (\<lambda>s. s\<lparr>kpgdir := d\<rparr>)) (\<lambda>_.
     switchkvm))"

definition switchuvm :: "nat \<Rightarrow> (unit, 'a kern_scheme) kop" where
  "switchuvm p =
     andthen pushcli (\<lambda>_.
     andthen (with_proc (\<lambda>c s. Done () (s\<lparr>ts_esp0 := kstack (procs s ! c) + of_nat KSTACKSIZE\<rparr>))) (\<lambda>_.
     andthen (\<lambda>s. if pgdir (procs s ! p) = 0 then Panic ''switchuvm: no pgdir''
                  else Done () (s\<lparr>cr3 := v2p (pgdir (procs s ! p))\<rparr>)) (\<lambda>_.
     popcli)))"

section \<open>Creating processes\<close>

definition pinit :: "(unit, 'a kern_scheme) kop" where
  "pinit = initlock PtableLk"

definition allocproc :: "(nat option, 'a kern_scheme) kop" where
  "allocproc =
     andthen (acquire PtableLk) (\<lambda>_.
     andthen (gets procs) (\<lambda>ps.
     case find (\<lambda>p. pstate (ps ! p) = UNUSED) [0..<length ps] of
       None \<Rightarrow> andthen (release PtableLk) (\<lambda>_. ret None)
     | Some p \<Rightarrow>
         andthen (\<lambda>s. upd_proc p (\<lambda>r. r\<lparr>pstate := EMBRYO, pid := nextpid s\<rparr>) s) (\<lambda>_.
         andthen (modify (\<lambda>s. s\<lparr>nextpid := nextpid s + 1\<rparr>)) (\<lambda>_.
         andthen (release PtableLk) (\<lambda>_.
         andthen kalloc (\<lambda>k.
         andthen (upd_proc p (\<lambda>r. r\<lparr>kstack := k\<rparr>)) (\<lambda>_.
         if k = 0 then andthen (upd_proc p (\<lambda>r. r\<lparr>pstate := UNUSED\<rparr>)) (\<lambda>_. ret None)
         else andthen (upd_proc p (\<lambda>r. r\<lparr>kret := Trapret, pcontext := context0\<lparr>ctx_eip := Forkret\<rparr>\<rparr>)) (\<lambda>_.
           ret (Some p)))))))))"

definition SEG_UCODE :: ushort where "SEG_UCODE = 4"
definition SEG_UDATA :: ushort where "SEG_UDATA = 5"
definition DPL_USER :: ushort where "DPL_USER = 3"
definition FL_IF :: uint where "FL_IF = 0x200"

definition user_tf :: trapframe where
  "user_tf = tf0\<lparr>tf_cs := push_bit 3 SEG_UCODE OR DPL_USER, tf_ds := push_bit 3 SEG_UDATA OR DPL_USER,
     tf_es := push_bit 3 SEG_UDATA OR DPL_USER, tf_ss := push_bit 3 SEG_UDATA OR DPL_USER,
     tf_eflags := FL_IF, tf_esp := PGSIZE, tf_eip := 0\<rparr>"

definition userinit :: "bytes \<Rightarrow> (unit, 'a kern_scheme) kop" where
  "userinit initcode =
     andthen allocproc (\<lambda>res.
     andthen (modify (\<lambda>s. s\<lparr>initproc := res\<rparr>)) (\<lambda>_.
     case res of
       None \<Rightarrow> fault
     | Some p \<Rightarrow>
         andthen setupkvm (\<lambda>d.
         andthen (upd_proc p (\<lambda>r. r\<lparr>pgdir := d\<rparr>)) (\<lambda>_.
         if d = 0 then panic ''userinit: out of memory?''
         else
           andthen (inituvm d initcode) (\<lambda>_.
           andthen (upd_proc p (\<lambda>r. r\<lparr>sz := PGSIZE, tf := user_tf, pname := ''initcode''\<rparr>)) (\<lambda>_.
           andthen (namei [slash]) (\<lambda>ip.
           upd_proc p (\<lambda>r. r\<lparr>cwd := ip, pstate := RUNNABLE\<rparr>))))))))"

definition growproc :: "int \<Rightarrow> (int, 'a kern_scheme) kop" where
  "growproc n = with_proc (\<lambda>p s.
     let r = procs s ! p
     in andthen (if 0 < n then allocuvm (pgdir r) (sz r) (sz r + of_int n)
                 else if n < 0 then deallocuvm (pgdir r) (sz r) (sz r + of_int n)
                 else ret (sz r)) (\<lambda>size.
        if n \<noteq> 0 \<and> size = 0 then ret (- 1)
        else andthen (upd_proc p (\<lambda>r. r\<lparr>sz := size\<rparr>)) (\<lambda>_.
          andthen (switchuvm p) (\<lambda>_.
          ret 0))) s)"

text \<open>The loop of \<open>fork\<close> over the open files.\<close>

definition fork_files :: "nat \<Rightarrow> nat \<Rightarrow> (unit, 'a kern_scheme) kop" where
  "fork_files cur np = for_each [0..<NOFILE] (\<lambda>i s.
     case ofile (procs s ! cur) ! i of
       None \<Rightarrow> Done () s
     | Some f \<Rightarrow> andthen (filedup f) (\<lambda>f. upd_proc np (\<lambda>r. r\<lparr>ofile := (ofile r)[i := Some f]\<rparr>)) s)"

definition fork :: "(int, 'a kern_scheme) kop" where
  "fork = with_proc (\<lambda>cur.
     andthen allocproc (\<lambda>res.
     case res of
       None \<Rightarrow> ret (- 1)
     | Some np \<Rightarrow>
         andthen (\<lambda>s. copyuvm (pgdir (procs s ! cur)) (sz (procs s ! cur)) s) (\<lambda>d.
         andthen (upd_proc np (\<lambda>r. r\<lparr>pgdir := d\<rparr>)) (\<lambda>_.
         if d = 0
         then andthen (\<lambda>s. kfree (kstack (procs s ! np)) s) (\<lambda>_.
              andthen (upd_proc np (\<lambda>r. r\<lparr>kstack := 0, pstate := UNUSED\<rparr>)) (\<lambda>_.
              ret (- 1)))
         else
           andthen (\<lambda>s. upd_proc np (\<lambda>r. r\<lparr>sz := sz (procs s ! cur), parent := Some cur,
                                       tf := (tf (procs s ! cur))\<lparr>tf_eax := 0\<rparr>\<rparr>) s) (\<lambda>_.
           andthen (fork_files cur np) (\<lambda>_.
           andthen (\<lambda>s. case cwd (procs s ! cur) of
                      None \<Rightarrow> Fault
                    | Some c \<Rightarrow> andthen (idup c) (\<lambda>c. upd_proc np (\<lambda>r. r\<lparr>cwd := Some c\<rparr>)) s) (\<lambda>_.
           andthen (\<lambda>s. upd_proc np (\<lambda>r. r\<lparr>pname := take 15 (pname (procs s ! cur))\<rparr>) s) (\<lambda>_.
           andthen (gets (\<lambda>s. pid (procs s ! np))) (\<lambda>n.
           andthen (acquire PtableLk) (\<lambda>_.
           andthen (upd_proc np (\<lambda>r. r\<lparr>pstate := RUNNABLE\<rparr>)) (\<lambda>_.
           andthen (release PtableLk) (\<lambda>_.
           ret n))))))))))))"

section \<open>Ending and waiting\<close>

definition exit_files :: "nat \<Rightarrow> (unit, 'a kern_scheme) kop" where
  "exit_files cur = for_each [0..<NOFILE] (\<lambda>fd s.
     case ofile (procs s ! cur) ! fd of
       None \<Rightarrow> Done () s
     | Some f \<Rightarrow> andthen (fileclose f) (\<lambda>_. upd_proc cur (\<lambda>r. r\<lparr>ofile := (ofile r)[fd := None]\<rparr>)) s)"

text \<open>A null pointer to a process is never a channel.\<close>

definition wakeup1_proc :: "nat option \<Rightarrow> (unit, 'a kern_scheme) kop" where
  "wakeup1_proc q = (case q of Some i \<Rightarrow> wakeup1 (ProcChan i) | None \<Rightarrow> ret ())"

definition reparent :: "nat \<Rightarrow> (unit, 'a kern_scheme) kop" where
  "reparent cur = (\<lambda>s. for_each [0..<length (procs s)] (\<lambda>p s.
     if parent (procs s ! p) = Some cur
     then andthen (upd_proc p (\<lambda>r. r\<lparr>parent := initproc s\<rparr>)) (\<lambda>_ s.
          if pstate (procs s ! p) = ZOMBIE then wakeup1_proc (initproc s) s else Done () s) s
     else Done () s) s)"

definition exit :: "('b, 'a kern_scheme) kop" where
  "exit = with_proc (\<lambda>cur s.
     if initproc s = Some cur then Panic ''init exiting''
     else andthen (exit_files cur) (\<lambda>_.
       andthen begin_op (\<lambda>_.
       andthen (\<lambda>s. case cwd (procs s ! cur) of None \<Rightarrow> Fault | Some c \<Rightarrow> iput c s) (\<lambda>_.
       andthen end_op (\<lambda>_.
       andthen (upd_proc cur (\<lambda>r. r\<lparr>cwd := None\<rparr>)) (\<lambda>_.
       andthen (acquire PtableLk) (\<lambda>_.
       andthen (\<lambda>s. wakeup1_proc (parent (procs s ! cur)) s) (\<lambda>_.
       andthen (reparent cur) (\<lambda>_.
       andthen (upd_proc cur (\<lambda>r. r\<lparr>pstate := ZOMBIE\<rparr>)) (\<lambda>_.
       sched))))))))) s)"

text \<open>One scan of the loop of \<open>wait\<close>.\<close>

definition wait_scan :: "(int, 'a kern_scheme) kop" where
  "wait_scan = with_proc (\<lambda>cur s.
     case find (\<lambda>p. parent (procs s ! p) = Some cur \<and> pstate (procs s ! p) = ZOMBIE) [0..<length (procs s)] of
       Some p \<Rightarrow>
         (let n = pid (procs s ! p)
          in andthen (kfree (kstack (procs s ! p))) (\<lambda>_.
             andthen (upd_proc p (\<lambda>r. r\<lparr>kstack := 0\<rparr>)) (\<lambda>_.
             andthen (\<lambda>s. freevm (pgdir (procs s ! p)) s) (\<lambda>_.
             andthen (upd_proc p (\<lambda>r. r\<lparr>pstate := UNUSED, pid := 0, parent := None, pname := [], killed := False\<rparr>)) (\<lambda>_.
             andthen (release PtableLk) (\<lambda>_.
             ret n))))) s)
     | None \<Rightarrow>
         if \<not> (\<exists>r\<in>set (procs s). parent r = Some cur) \<or> killed (procs s ! cur)
         then andthen (release PtableLk) (\<lambda>_. ret (- 1)) s
         else sleep (ProcChan cur) PtableLk s)"

definition wait :: "(int, 'a kern_scheme) kop" where
  "wait = andthen (acquire PtableLk) (\<lambda>_. wait_scan)"

definition wait_resume :: "bool \<Rightarrow> (int, 'a kern_scheme) kop" where
  "wait_resume ena = andthen (sleep_resume ena PtableLk) (\<lambda>_. wait_scan)"

section \<open>The scheduler\<close>

text \<open>\<open>scheduler_from i\<close>: the inner loop from slot \<open>i\<close>; it ends in a switch to a process or at the end of
  the table.  \<open>scheduler\<close> starts a round of the outer loop; \<open>scheduler_resume\<close> goes on with the round when a
  process switches back.  The \<open>halt\<close> after a round in which nothing ran only waits for an interrupt.\<close>

definition scheduler_run :: "nat \<Rightarrow> (unit, 'a kern_scheme) kop" where
  "scheduler_run p =
     andthen (modify (\<lambda>s. s\<lparr>cpu := (cpu s)\<lparr>curproc := Some p\<rparr>\<rparr>)) (\<lambda>_.
     andthen (switchuvm p) (\<lambda>_.
     andthen (upd_proc p (\<lambda>r. r\<lparr>pstate := RUNNING\<rparr>)) (\<lambda>_ s.
     Switch s)))"

definition next_runnable :: "nat \<Rightarrow> proc list \<Rightarrow> nat option" where
  "next_runnable i ps = find (\<lambda>p. pstate (ps ! p) = RUNNABLE) [i..<length ps]"

definition scheduler_from :: "nat \<Rightarrow> (unit, 'a kern_scheme) kop" where
  "scheduler_from i = (\<lambda>s. case next_runnable i (procs s) of
       Some p \<Rightarrow> scheduler_run p s
     | None \<Rightarrow> release PtableLk s)"

definition scheduler :: "(unit, 'a kern_scheme) kop" where
  "scheduler =
     andthen (modify (\<lambda>s. s\<lparr>cpu := (cpu s)\<lparr>eflags_if := True\<rparr>\<rparr>)) (\<lambda>_.
     andthen (acquire PtableLk) (\<lambda>_.
     scheduler_from 0))"

definition scheduler_resume :: "nat \<Rightarrow> (unit, 'a kern_scheme) kop" where
  "scheduler_resume p =
     andthen switchkvm (\<lambda>_.
     andthen (modify (\<lambda>s. s\<lparr>cpu := (cpu s)\<lparr>curproc := None\<rparr>\<rparr>)) (\<lambda>_.
     scheduler_from (p + 1)))"

definition forkret :: "(unit, 'a kern_scheme) kop" where
  "forkret =
     andthen (release PtableLk) (\<lambda>_ s.
     if forkret_first s
     then andthen (modify (\<lambda>s. s\<lparr>forkret_first := False\<rparr>)) (\<lambda>_.
          andthen (iinit ROOTDEV) (\<lambda>_.
          initlog ROOTDEV)) s
     else Done () s)"

section \<open>Behaviour with balanced locks\<close>

lemma hold_curproc [simp]:
  "(hold ls s)\<lparr>cpu := (cpu (hold ls s))\<lparr>curproc := x\<rparr>\<rparr> = hold ls (s\<lparr>cpu := (cpu s)\<lparr>curproc := x\<rparr>\<rparr>)"
  by (rule mach.equality; simp add: hold_def cong: if_cong)

lemma quiet_curproc [simp]: "quiet (s\<lparr>cpu := (cpu s)\<lparr>curproc := x\<rparr>\<rparr>) = quiet s"
  by (simp add: quiet_def)

lemma switchuvm_hold:
  assumes q: "quiet s" and ls: "ls \<noteq> []" and c: "curproc (cpu s) = Some c" "c < length (procs s)"
    and p: "pgdir (procs s ! p) \<noteq> 0"
  shows "switchuvm p (hold ls s) =
    Done () (hold ls (s\<lparr>ts_esp0 := kstack (procs s ! c) + of_nat KSTACKSIZE, cr3 := v2p (pgdir (procs s ! p))\<rparr>))"
proof -
  let ?h = "hold ls s"
  have n: "ncli (cpu ?h) = int (length ls)" "\<not> eflags_if (cpu ?h)" "0 < length ls" using ls by simp_all
  define c1 where "c1 = (cpu ?h)\<lparr>ncli := ncli (cpu ?h) + 1\<rparr>"
  have pu: "pushcli_cpu (cpu ?h) = c1"
    using n by (simp add: pushcli_cpu_def c1_def Let_def)
  have po: "popcli_cpu c1 = Inr (cpu ?h)"
    using n by (simp add: popcli_cpu_def c1_def Let_def)
  have cc: "curproc c1 = Some c" using c by (simp add: c1_def)
  have "switchuvm p ?h = Done () (?h\<lparr>cpu := c1, ts_esp0 := kstack (procs s ! c) + of_nat KSTACKSIZE,
      cr3 := v2p (pgdir (procs s ! p)), cpu := cpu ?h\<rparr>)"
    using pu po cc c p by (simp add: switchuvm_def pushcli_def popcli_def with_proc_def)
  also have "?h\<lparr>cpu := c1, ts_esp0 := kstack (procs s ! c) + of_nat KSTACKSIZE, cr3 := v2p (pgdir (procs s ! p)),
      cpu := cpu ?h\<rparr> = ?h\<lparr>ts_esp0 := kstack (procs s ! c) + of_nat KSTACKSIZE, cr3 := v2p (pgdir (procs s ! p))\<rparr>"
    by (rule kern.equality) simp_all
  finally show ?thesis by simp
qed

definition scheduled :: "nat \<Rightarrow> 'a kern_scheme \<Rightarrow> 'a kern_scheme" where
  "scheduled p s = s\<lparr>cpu := (cpu s)\<lparr>curproc := Some p\<rparr>, ts_esp0 := kstack (procs s ! p) + of_nat KSTACKSIZE,
     cr3 := v2p (pgdir (procs s ! p)), procs := (procs s)[p := (procs s ! p)\<lparr>pstate := RUNNING\<rparr>]\<rparr>"

lemma scheduler_run_hold:
  assumes "quiet s" "p < length (procs s)" "pgdir (procs s ! p) \<noteq> 0"
  shows "scheduler_run p (hold [PtableLk] s) = Switch (hold [PtableLk] (scheduled p s))"
  using switchuvm_hold[of "s\<lparr>cpu := (cpu s)\<lparr>curproc := Some p\<rparr>\<rparr>" "[PtableLk]" p p] assms
  by (simp add: scheduler_run_def upd_proc_def scheduled_def)

text \<open>The table when the scheduler looks at it: every runnable process has an address space.\<close>

definition runnable_ok :: "proc list \<Rightarrow> bool" where
  "runnable_ok ps \<longleftrightarrow> (\<forall>r\<in>set ps. pstate r = RUNNABLE \<longrightarrow> pgdir r \<noteq> 0)"

definition runnable :: "proc list \<Rightarrow> nat set" where
  "runnable ps = {p. p < length ps \<and> pstate (ps ! p) = RUNNABLE}"

lemma next_runnable_Some:
  assumes "next_runnable i ps = Some p"
  shows "i \<le> p" "p < length ps" "pstate (ps ! p) = RUNNABLE" "\<forall>q\<in>runnable ps. i \<le> q \<longrightarrow> p \<le> q"
proof -
  show "i \<le> p" "p < length ps" "pstate (ps ! p) = RUNNABLE"
    using find_SomeD[OF assms[unfolded next_runnable_def]] by auto
  obtain k where k: "k < length [i..<length ps]" "p = [i..<length ps] ! k"
      "\<forall>j<k. pstate (ps ! ([i..<length ps] ! j)) \<noteq> RUNNABLE"
    using assms unfolding next_runnable_def find_Some_iff by auto
  show "\<forall>q\<in>runnable ps. i \<le> q \<longrightarrow> p \<le> q"
  proof (intro ballI impI, rule ccontr)
    fix q assume q: "q \<in> runnable ps" "i \<le> q" "\<not> p \<le> q"
    then have "q - i < k" using k by auto
    then have "pstate (ps ! ([i..<length ps] ! (q - i))) \<noteq> RUNNABLE" using k(3) by blast
    then show False using q k(1,2) by (simp add: runnable_def)
  qed
qed

lemma next_runnable_None: "next_runnable i ps = None \<Longrightarrow> \<forall>q\<in>runnable ps. q < i"
  by (auto simp: next_runnable_def find_None_iff runnable_def)

text \<open>
  A round of the scheduler: it runs processes, \<open>env\<close> says in which state each of them switches back, and
  the round ends at the end of the table.  The result is the list of the processes that ran.
\<close>

fun sched_round :: "nat \<Rightarrow> (nat \<Rightarrow> 'a kern_scheme \<Rightarrow> 'a kern_scheme) \<Rightarrow> (unit, 'a kern_scheme) outcome \<Rightarrow> nat list option" where
  "sched_round n env (Done _ s) = Some []"
| "sched_round (Suc n) env (Switch s) =
     (case curproc (cpu s) of
        Some p \<Rightarrow> map_option ((#) p) (sched_round n env (scheduler_resume p (env p s)))
      | None \<Rightarrow> None)"
| "sched_round n env _ = None"

text \<open>Processes come back holding only \<^verbatim>\<open>ptable.lock\<close>, and do not take the CPU away from others: a process
  that was runnable still is.\<close>

definition env_ok :: "(nat \<Rightarrow> 'a kern_scheme \<Rightarrow> 'a kern_scheme) \<Rightarrow> bool" where
  "env_ok env \<longleftrightarrow> (\<forall>p s. quiet s \<and> runnable_ok (procs s) \<longrightarrow>
     (\<exists>t. env p (hold [PtableLk] s) = hold [PtableLk] t \<and> quiet t \<and> runnable_ok (procs t) \<and>
        length (procs t) = length (procs s) \<and> runnable (procs s) - {p} \<subseteq> runnable (procs t)))"

lemma sched_round_from:
  assumes env: "env_ok env" and "quiet s" "runnable_ok (procs s)" "length (procs s) - i \<le> n"
  shows "\<exists>qs. sched_round n env (scheduler_from i (hold [PtableLk] s)) = Some qs \<and> sorted_wrt (<) qs \<and>
    (\<forall>q\<in>set qs. i \<le> q) \<and> {q \<in> runnable (procs s). i \<le> q} \<subseteq> set qs"
  using assms(2-)
proof (induction n arbitrary: i s)
  case 0
  have "next_runnable i (procs s) = None"
    using 0(3) by (simp add: next_runnable_def find_None_iff)
  then show ?case using 0 next_runnable_None[of i "procs s"]
    by (auto simp: scheduler_from_def lock_simps)
next
  case (Suc n)
  show ?case
  proof (cases "next_runnable i (procs s)")
    case None
    then show ?thesis using Suc.prems next_runnable_None[of i "procs s"]
      by (auto simp: scheduler_from_def lock_simps)
  next
    case (Some p)
    note p = next_runnable_Some[OF Some]
    have pd: "pgdir (procs s ! p) \<noteq> 0" using Suc.prems(2) p(2,3) by (auto simp: runnable_ok_def)
    have run: "scheduler_from i (hold [PtableLk] s) = Switch (hold [PtableLk] (scheduled p s))"
      using scheduler_run_hold[OF Suc.prems(1) p(2) pd] Some by (simp add: scheduler_from_def)
    have q1: "quiet (scheduled p s)" using Suc.prems(1) by (simp add: scheduled_def)
    have ps1: "procs (scheduled p s) = (procs s)[p := (procs s ! p)\<lparr>pstate := RUNNING\<rparr>]" by (simp add: scheduled_def)
    have ok1: "runnable_ok (procs (scheduled p s))"
      using Suc.prems(2) p(2) unfolding ps1 runnable_ok_def
      by (auto dest!: subsetD[OF set_update_subset_insert])
    have r1: "runnable (procs (scheduled p s)) = runnable (procs s) - {p}"
      using p(2) by (auto simp: ps1 runnable_def nth_list_update split: if_splits)
    obtain t where t: "env p (hold [PtableLk] (scheduled p s)) = hold [PtableLk] t" "quiet t" "runnable_ok (procs t)"
      "length (procs t) = length (procs s)" "runnable (procs s) - {p} \<subseteq> runnable (procs t)"
      using env q1 ok1 r1 unfolding env_ok_def by (metis Diff_idemp length_list_update ps1)
    let ?t = "t\<lparr>cr3 := v2p (kpgdir t), cpu := (cpu t)\<lparr>curproc := None\<rparr>\<rparr>"
    have res: "scheduler_resume p (hold [PtableLk] t) = scheduler_from (p + 1) (hold [PtableLk] ?t)"
      by (simp add: scheduler_resume_def switchkvm_def)
    have "quiet ?t" "runnable_ok (procs ?t)" "length (procs ?t) - (p + 1) \<le> n"
      using t p Suc.prems(3) by (simp_all add: quiet_def)
    from Suc.IH[OF this] obtain qs where qs: "sched_round n env (scheduler_from (p + 1) (hold [PtableLk] ?t)) = Some qs"
      "sorted_wrt (<) qs" "\<forall>q\<in>set qs. p + 1 \<le> q" "{q \<in> runnable (procs ?t). p + 1 \<le> q} \<subseteq> set qs" by blast
    have "curproc (cpu (hold [PtableLk] (scheduled p s))) = Some p" by (simp add: scheduled_def)
    then have "sched_round (Suc n) env (scheduler_from i (hold [PtableLk] s)) = Some (p # qs)"
      using run t(1) res qs(1) by simp
    moreover have "q \<in> set (p # qs)" if "q \<in> runnable (procs s)" "i \<le> q" for q
    proof (cases "q = p")
      case False
      then have "p + 1 \<le> q" using p(4) that by auto
      moreover have "q \<in> runnable (procs ?t)" using t(5) that(1) False by auto
      ultimately show ?thesis using qs(4) by auto
    qed simp
    moreover have "sorted_wrt (<) (p # qs)" "\<forall>q\<in>set (p # qs). i \<le> q" using qs(2,3) p(1) by force+
    ultimately show ?thesis by (intro exI[of _ "p # qs"]) blast
  qed
qed

section \<open>Properties\<close>

text \<open>
  C18: the scheduler is fair.  Start a round with interrupts on and no lock held, and let processes do
  anything they like while they run, except make other runnable processes unrunnable.  The round ends
  (with as many switches as there are slots), no process runs twice in it, processes run in the order of
  the table, and every process that was runnable at the start gets the CPU.
\<close>

theorem scheduler_fair:
  assumes "quiet s" "eflags_if (cpu s)" "runnable_ok (procs s)" "env_ok env"
  shows "\<exists>qs. sched_round (length (procs s)) env (scheduler s) = Some qs \<and> sorted_wrt (<) qs \<and>
    runnable (procs s) \<subseteq> set qs"
proof -
  have "s\<lparr>cpu := (cpu s)\<lparr>eflags_if := True\<rparr>\<rparr> = s" using assms(2) by (cases s; cases "cpu s") auto
  then have "scheduler s = scheduler_from 0 (hold [PtableLk] s)"
    using assms(1) by (simp add: scheduler_def lock_simps)
  then show ?thesis using sched_round_from[OF assms(4,1,3), of 0 "length (procs s)"] by auto
qed

text \<open>Two runnable processes that go to sleep when they have run.\<close>

definition run_demo :: kern where
  "run_demo = kern_demo\<lparr>procs := [proc0\<lparr>pstate := RUNNABLE, pgdir := 0x80200000\<rparr>, proc0,
     proc0\<lparr>pstate := RUNNABLE, pgdir := 0x80300000\<rparr>]\<rparr>"

definition env_demo :: "nat \<Rightarrow> kern \<Rightarrow> kern" where
  "env_demo p s = s\<lparr>procs := (procs s)[p := (procs s ! p)\<lparr>pstate := SLEEPING\<rparr>]\<rparr>"

lemma env_demo_ok: "env_ok env_demo"
  unfolding env_ok_def
proof (intro allI impI, elim conjE)
  fix p and s :: kern
  assume q: "quiet s" and ok: "runnable_ok (procs s)"
  let ?t = "s\<lparr>procs := (procs s)[p := (procs s ! p)\<lparr>pstate := SLEEPING\<rparr>]\<rparr>"
  have "runnable_ok (procs ?t)" using ok
    by (cases "p < length (procs s)") (auto simp: runnable_ok_def dest!: subsetD[OF set_update_subset_insert])
  moreover have "runnable (procs s) - {p} \<subseteq> runnable (procs ?t)" by (auto simp: runnable_def)
  ultimately show "\<exists>t. env_demo p (hold [PtableLk] s) = hold [PtableLk] t \<and> quiet t \<and> runnable_ok (procs t) \<and>
        length (procs t) = length (procs s) \<and> runnable (procs s) - {p} \<subseteq> runnable (procs t)"
    using q by (intro exI[of _ ?t]) (simp add: env_demo_def)
qed

theorem scheduler_fair_witness:
  "\<exists>qs. sched_round 3 env_demo (scheduler run_demo) = Some qs \<and> {0, 2} \<subseteq> set qs"
proof -
  have e: "eflags_if (cpu run_demo)" using bio_booted_ok(7)
    by (simp add: run_demo_def kern_demo_def fs_demo_def fs.defs kern.defs log.defs log_fresh_def bio.defs ptab_demo_def)
  have ps: "procs run_demo = [proc0\<lparr>pstate := RUNNABLE, pgdir := 0x80200000\<rparr>, proc0,
     proc0\<lparr>pstate := RUNNABLE, pgdir := 0x80300000\<rparr>]" by (simp add: run_demo_def)
  have "runnable_ok (procs run_demo)" by (simp add: ps runnable_ok_def proc0_def)
  moreover have "quiet run_demo" using quiet_kern_demo by (simp add: run_demo_def)
  moreover have "{0, 2} \<subseteq> runnable (procs run_demo)" by (simp add: ps runnable_def)
  ultimately show ?thesis
    using scheduler_fair[OF _ e _ env_demo_ok] by (simp add: ps numeral_3_eq_3) blast
qed

section \<open>Leaving\<close>

lemma for_each_skip: "(\<And>x. x \<in> set xs \<Longrightarrow> body x s = Done () s) \<Longrightarrow> for_each xs body s = Done () s"
  by (induction xs) auto

lemma end_op_empty:
  assumes "quiet s" "lh_n s = 0" "\<not> log_committing s"
  shows "end_op s = Done () (s\<lparr>log_outstanding := log_outstanding s - 1, procs := map (wake_proc LogChan) (procs s)\<rparr>)"
proof -
  have "s\<lparr>log_outstanding := 0, log_committing := True, log_committing := False,
      procs := map (wake_proc LogChan) (procs s)\<rparr> = s\<lparr>log_outstanding := 0, procs := map (wake_proc LogChan) (procs s)\<rparr>"
    by (rule log.equality) (use assms(3) in simp_all)
  then show ?thesis
    using assms by (simp add: end_op_def commit_def lock_simps)
qed

lemma iput_shared:
  assumes "quiet s" "ip < length (icache s)" "i_ref (icache s ! ip) \<noteq> 1"
  shows "iput ip s = Done () (s\<lparr>icache := (icache s)[ip := (icache s ! ip)\<lparr>i_ref := i_ref (icache s ! ip) - 1\<rparr>]\<rparr>)"
  using assms by (simp add: iput_def with_inode_def upd_inode_def lock_simps)

lemma woken_wake_parent: "woken p (wake_proc ch p)"
  by (simp add: woken_def wake_proc_def)

lemma woken_parent: "woken p q \<Longrightarrow> woken (p\<lparr>parent := x\<rparr>) (q\<lparr>parent := x\<rparr>)"
  by (auto simp: woken_def)

lemma wake_proc_parent: "(wake_proc ch p)\<lparr>parent := x\<rparr> = wake_proc ch (p\<lparr>parent := x\<rparr>)"
  by (simp add: wake_proc_def)

definition adopted :: "nat \<Rightarrow> nat option \<Rightarrow> proc \<Rightarrow> nat option" where
  "adopted cur ini p = (if parent p = Some cur then ini else parent p)"

lemma reparent_hold:
  "\<exists>ps. reparent cur (hold ls s) = Done () (hold ls (s\<lparr>procs := ps\<rparr>)) \<and> length ps = length (procs s) \<and>
     (\<forall>i<length ps. parent (ps ! i) = adopted cur (initproc s) (procs s ! i) \<and>
        woken ((procs s ! i)\<lparr>parent := adopted cur (initproc s) (procs s ! i)\<rparr>) (ps ! i))"
proof -
  let ?ps = "procs s" and ?ini = "initproc s"
  define body where "body = (\<lambda>p s :: 'a kern_scheme.
     if parent (procs s ! p) = Some cur
     then andthen (upd_proc p (\<lambda>r. r\<lparr>parent := initproc s\<rparr>)) (\<lambda>_ s.
          if pstate (procs s ! p) = ZOMBIE then wakeup1_proc (initproc s) s else Done () s) s
     else Done () s)"
  define I where "I k s' \<longleftrightarrow> (\<exists>ps. s' = hold ls (s\<lparr>procs := ps\<rparr>) \<and> length ps = length ?ps \<and>
     (\<forall>i<length ps. parent (ps ! i) = (if i < k then adopted cur ?ini (?ps ! i) else parent (?ps ! i)) \<and>
        woken ((?ps ! i)\<lparr>parent := if i < k then adopted cur ?ini (?ps ! i) else parent (?ps ! i)\<rparr>) (ps ! i)))" for k s'
  have "is_done (for_each [0..<length ?ps] body (hold ls s)) (\<lambda>_. I (length ?ps))"
  proof (rule for_each_upt_rule)
    show "I 0 (hold ls s)" unfolding I_def by (intro exI[of _ ?ps]) (simp add: woken_refl)
  next
    fix k s' assume "I k s'" and k: "k < length ?ps"
    then obtain ps where ps: "s' = hold ls (s\<lparr>procs := ps\<rparr>)" "length ps = length ?ps"
      "\<And>i. i < length ?ps \<Longrightarrow> parent (ps ! i) = (if i < k then adopted cur ?ini (?ps ! i) else parent (?ps ! i)) \<and>
        woken ((?ps ! i)\<lparr>parent := if i < k then adopted cur ?ini (?ps ! i) else parent (?ps ! i)\<rparr>) (ps ! i)"
      unfolding I_def by auto
    define ps1 where "ps1 = (if parent (ps ! k) = Some cur then ps[k := (ps ! k)\<lparr>parent := ?ini\<rparr>] else ps)"
    have l1: "length ps1 = length ?ps" using ps(2) by (simp add: ps1_def)
    have one: "parent (ps1 ! i) = (if i < Suc k then adopted cur ?ini (?ps ! i) else parent (?ps ! i)) \<and>
        woken ((?ps ! i)\<lparr>parent := if i < Suc k then adopted cur ?ini (?ps ! i) else parent (?ps ! i)\<rparr>) (ps1 ! i)"
      if i: "i < length ?ps" for i
    proof (cases "i = k")
      case True
      have p: "parent (ps ! k) = parent (?ps ! k)" "woken ((?ps ! k)\<lparr>parent := parent (?ps ! k)\<rparr>) (ps ! k)"
        using ps(3)[OF k] by simp_all
      show ?thesis
        using True p k ps(2) woken_parent[OF p(2), of ?ini] by (simp add: ps1_def adopted_def)
    next
      case False
      then have "ps1 ! i = ps ! i" "(i < Suc k) = (i < k)" by (simp_all add: ps1_def less_Suc_eq)
      then show ?thesis using ps(3)[OF i] by simp
    qed
    have step: "\<exists>ch. body k s' = Done () (hold ls (s\<lparr>procs := ps1\<rparr>)) \<or>
        body k s' = Done () (hold ls (s\<lparr>procs := map (wake_proc ch) ps1\<rparr>))"
      using k ps(2) by (auto simp: body_def ps(1) ps1_def upd_proc_def wakeup1_proc_def wakeup1_def split: option.splits)
    have "I (Suc k) (hold ls (s\<lparr>procs := ps1\<rparr>))"
      unfolding I_def by (intro exI[of _ ps1]) (use one l1 in simp)
    moreover have "I (Suc k) (hold ls (s\<lparr>procs := map (wake_proc ch) ps1\<rparr>))" for ch
      unfolding I_def
    proof (intro exI[of _ "map (wake_proc ch) ps1"] conjI allI impI)
      fix i assume "i < length (map (wake_proc ch) ps1)"
      then have i: "i < length ?ps" using l1 by simp
      show "parent (map (wake_proc ch) ps1 ! i) = (if i < Suc k then adopted cur ?ini (?ps ! i) else parent (?ps ! i))"
        using one[OF i] i l1 by simp
      show "woken ((?ps ! i)\<lparr>parent := if i < Suc k then adopted cur ?ini (?ps ! i) else parent (?ps ! i)\<rparr>)
          (map (wake_proc ch) ps1 ! i)"
        using one[OF i] i l1 woken_trans[OF _ woken_wake_parent] by simp
    qed (use l1 in simp_all)
    ultimately show "is_done (body k s') (\<lambda>_. I (Suc k))" using step by auto
  qed simp
  then obtain ps where "for_each [0..<length ?ps] body (hold ls s) = Done () (hold ls (s\<lparr>procs := ps\<rparr>))"
    "length ps = length ?ps" "\<forall>i<length ps. parent (ps ! i) = adopted cur ?ini (?ps ! i) \<and>
        woken ((?ps ! i)\<lparr>parent := adopted cur ?ini (?ps ! i)\<rparr>) (ps ! i)"
    by (auto simp: is_done_iff I_def)
  then show ?thesis unfolding reparent_def body_def[symmetric] by auto
qed


definition exit_demo :: kern where
  "exit_demo = kern_demo\<lparr>procs := [proc0\<lparr>pstate := SLEEPING, pid := 1, chan := Some (ProcChan 0)\<rparr>,
     proc0\<lparr>pstate := RUNNING, pid := 2, parent := Some 0, cwd := Some 0\<rparr>,
     proc0\<lparr>pstate := RUNNABLE, pid := 3, parent := Some 1\<rparr>], icache := [inode0\<lparr>i_ref := 2\<rparr>], initproc := Some 0\<rparr>"

lemma exit_demo_sel [simp]:
  "procs exit_demo = [proc0\<lparr>pstate := SLEEPING, pid := 1, chan := Some (ProcChan 0)\<rparr>,
     proc0\<lparr>pstate := RUNNING, pid := 2, parent := Some 0, cwd := Some 0\<rparr>,
     proc0\<lparr>pstate := RUNNABLE, pid := 3, parent := Some 1\<rparr>]"
  "icache exit_demo = [inode0\<lparr>i_ref := 2\<rparr>]" "initproc exit_demo = Some 0"
  "curproc (cpu exit_demo) = Some 1" "\<not> log_committing exit_demo" "lh_n exit_demo = 0" "log_outstanding exit_demo = 1"
  "quiet exit_demo"
  using bio_booted_ok(7) quiet_kern_demo
  by (simp_all add: exit_demo_def kern_demo_def fs_demo_def fs.defs kern.defs log.defs log_fresh_def bio.defs ptab_demo_def quiet_def)


section \<open>Process numbers\<close>

definition live :: "proc list \<Rightarrow> nat set" where
  "live ps = {i. i < length ps \<and> pstate (ps ! i) \<noteq> UNUSED}"

definition pid_inv :: "'a ptab_scheme \<Rightarrow> bool" where
  "pid_inv s \<longleftrightarrow> inj_on (\<lambda>i. pid (procs s ! i)) (live (procs s)) \<and>
     (\<forall>i\<in>live (procs s). 0 < pid (procs s ! i) \<and> pid (procs s ! i) < nextpid s) \<and> 0 < nextpid s"

lemma live_upd:
  "p < length ps \<Longrightarrow> live (ps[p := r]) = (if pstate r = UNUSED then live ps - {p} else insert p (live ps))"
  by (auto simp: live_def nth_list_update split: if_splits)

lemma allocproc_quiet:
  assumes q: "quiet s"
  shows "allocproc s = (case find (\<lambda>p. pstate (procs s ! p) = UNUSED) [0..<length (procs s)] of
       None \<Rightarrow> Done None s
     | Some p \<Rightarrow>
         if freelist s = 0
         then Done None (s\<lparr>procs := (procs s)[p := (procs s ! p)\<lparr>pid := nextpid s, kstack := 0\<rparr>], nextpid := nextpid s + 1\<rparr>)
         else Done (Some p) (s\<lparr>procs := (procs s)[p := (procs s ! p)\<lparr>pstate := EMBRYO, pid := nextpid s, kstack := freelist s,
                kret := Trapret, pcontext := context0\<lparr>ctx_eip := Forkret\<rparr>\<rparr>], nextpid := nextpid s + 1,
                freelist := ld32 (mem s) (freelist s)\<rparr>))"
proof (cases "find (\<lambda>p. pstate (procs s ! p) = UNUSED) [0..<length (procs s)]")
  case None
  then show ?thesis using q by (simp add: allocproc_def lock_simps)
next
  case (Some p)
  have p: "p < length (procs s)" "pstate (procs s ! p) = UNUSED" using find_SomeD[OF Some] by auto
  let ?s = "s\<lparr>procs := (procs s)[p := (procs s ! p)\<lparr>pstate := EMBRYO, pid := nextpid s\<rparr>], nextpid := nextpid s + 1\<rparr>"
  have k: "kalloc ?s = Done (freelist s) (if freelist s = 0 then ?s else ?s\<lparr>freelist := ld32 (mem s) (freelist s)\<rparr>)"
    using kalloc_quiet[of ?s] q by simp
  show ?thesis
  proof (cases "freelist s = 0")
    case True
    have e: "(procs s ! p)\<lparr>pid := nextpid s, kstack := 0, pstate := UNUSED\<rparr> =
        (procs s ! p)\<lparr>pid := nextpid s, kstack := 0\<rparr>" by (rule proc.equality) (use p in simp_all)
    show ?thesis using Some p q True k by (simp add: allocproc_def lock_simps upd_proc_def)
      (rule kern.equality; simp add: e)
  next
    case False
    then show ?thesis using Some p q k by (simp add: allocproc_def lock_simps upd_proc_def)
  qed
qed


definition alloc_demo :: kern where
  "alloc_demo = kern_demo\<lparr>procs := [proc0\<lparr>pstate := RUNNING, pid := 1\<rparr>, proc0], nextpid := 2\<rparr>"


text \<open>
  \<open>kill\<close> does not look at the state of the slot it finds: with no process numbered 0, \<open>kill(0)\<close> marks the first
  slot that was never used or was reaped, and \<open>allocproc\<close> does not clear the mark.  The next process in that
  slot is killed before it has run.
\<close>

lemma kill_zero_marks_next_process:
  assumes q: "quiet s" and f: "freelist s \<noteq> 0"
    and p: "find (\<lambda>p. pstate (procs s ! p) = UNUSED) [0..<length (procs s)] = Some p" "pid (procs s ! p) = 0"
    and first: "\<forall>i<p. pid (procs s ! i) \<noteq> 0"
  shows "\<exists>s1 s2. kill 0 s = Done 0 s1 \<and> allocproc s1 = Done (Some p) s2 \<and> killed (procs s2 ! p)"
proof -
  have u: "p < length (procs s)" "pstate (procs s ! p) = UNUSED" using find_SomeD[OF p(1)] by auto
  have i: "first_idx (\<lambda>r. pid r = 0) (procs s) = p" using first p(2) u by (intro first_idx_eqI) auto
  let ?ps = "(procs s)[p := (procs s ! p)\<lparr>killed := True, pstate := UNUSED\<rparr>]"
  have "\<exists>r\<in>set (procs s). pid r = 0" using u p(2) by (intro bexI[of _ "procs s ! p"]) auto
  then have k: "kill_scan 0 (procs s) = Some ?ps"
    using kill_scan_eq[of 0 "procs s"] i u by (simp add: Let_def)
  then have k1: "kill 0 s = Done 0 (s\<lparr>procs := ?ps\<rparr>)" using q by (simp add: kill_quiet)
  have "(\<lambda>i. pstate (?ps ! i) = UNUSED) = (\<lambda>i. pstate (procs s ! i) = UNUSED)"
    using u by (auto simp: fun_eq_iff nth_list_update)
  then have "find (\<lambda>i. pstate (?ps ! i) = UNUSED) [0..<length ?ps] = Some p" using p(1) by simp
  then show ?thesis using k1 q f u by (simp add: allocproc_quiet)
qed

end
