(* ===== verification/Syscall.thy ===== *)
theory Syscall
  imports Proc
begin

text \<open>
  \<^verbatim>\<open>syscall.c\<close>, the fetching of system-call arguments, and \<^verbatim>\<open>sysproc.c\<close>.  The dispatch is in theory
  \<open>Trap\<close>.

  The kernel follows user pointers through the page table in \<open>cr3\<close>: \<open>user_addr\<close> is the translation the
  processor makes in kernel mode (write protection on, as \<^verbatim>\<open>entry.S\<close> sets it), giving the address at
  which the kernel has the same byte mapped.  An access to a page that is not mapped traps inside the
  kernel, which is \<open>Fault\<close>.  Where the code returns an integer through a pointer and -1 for an error, the
  model returns an option; \<open>argstr\<close> gives the characters of the string before its zero byte.

  Shown: on a process whose memory is mapped up to its size, \<open>fetchstr\<close> never faults and finds exactly the
  zero-terminated strings inside it, and \<open>argptr\<close> accepts only blocks that lie inside it.
\<close>

unbundle bit_operations_syntax

section \<open>User memory\<close>

definition user_addr :: "bool \<Rightarrow> 'a kern_scheme \<Rightarrow> uint \<Rightarrow> uint option" where
  "user_addr wr s va =
     (let need = (if wr then PTE_P OR PTE_W else PTE_P);
          pde = ld32 (mem s) (p2v (cr3 s) + 4 * PDX va)
      in if pde AND need \<noteq> need then None
      else let pte = ld32 (mem s) (p2v (PTE_ADDR pde) + 4 * PTX va)
        in if pte AND need \<noteq> need then None
        else Some (p2v (PTE_ADDR pte) + (va AND 0xFFF)))"

definition user_byte :: "'a kern_scheme \<Rightarrow> uint \<Rightarrow> uchar option" where
  "user_byte s va = map_option (mem s) (user_addr False s va)"

text \<open>The bytes at \<open>va\<close>, as many of the \<open>n\<close> as can be read.\<close>

fun user_bytes :: "'a kern_scheme \<Rightarrow> uint \<Rightarrow> nat \<Rightarrow> bytes" where
  "user_bytes s va 0 = []"
| "user_bytes s va (Suc n) = (case user_byte s va of None \<Rightarrow> [] | Some c \<Rightarrow> c # user_bytes s (va + 1) n)"

fun store_user :: "uint \<Rightarrow> bytes \<Rightarrow> (unit, 'a kern_scheme) kop" where
  "store_user va [] = ret ()"
| "store_user va (c # cs) = (\<lambda>s. case user_addr True s va of
       None \<Rightarrow> Fault
     | Some a \<Rightarrow> andthen (set_mem (\<lambda>m. m(a := c))) (\<lambda>_. store_user (va + 1) cs) s)"

text \<open>The bytes of a 16-bit and of a 32-bit number.\<close>

definition le16 :: "ushort \<Rightarrow> bytes" where
  "le16 w = [ucast w, ucast (drop_bit 8 w)]"

definition le32 :: "uint \<Rightarrow> bytes" where
  "le32 w = [ucast w, ucast (drop_bit 8 w), ucast (drop_bit 16 w), ucast (drop_bit 24 w)]"

section \<open>Arguments\<close>

definition fetchint :: "uint \<Rightarrow> (uint option, 'a kern_scheme) kop" where
  "fetchint addr = with_proc (\<lambda>p s.
     if sz (procs s ! p) \<le> addr \<or> sz (procs s ! p) < addr + 4 then Done None s
     else let bs = user_bytes s addr 4
       in if length bs < 4 then Fault else Done (Some (of_nat (rd32 bs 0))) s)"

text \<open>The loop of \<open>fetchstr\<close>, with \<open>n\<close> bytes left before the end of the process.\<close>

fun fetchstr_loop :: "uint \<Rightarrow> nat \<Rightarrow> bytes \<Rightarrow> (bytes option, 'a kern_scheme) kop" where
  "fetchstr_loop a 0 acc = ret None"
| "fetchstr_loop a (Suc n) acc = (\<lambda>s. case user_byte s a of
       None \<Rightarrow> Fault
     | Some c \<Rightarrow> if c = 0 then Done (Some acc) s else fetchstr_loop (a + 1) n (acc @ [c]) s)"

definition fetchstr :: "uint \<Rightarrow> (bytes option, 'a kern_scheme) kop" where
  "fetchstr addr = with_proc (\<lambda>p s.
     if sz (procs s ! p) \<le> addr then Done None s
     else fetchstr_loop addr (unat (sz (procs s ! p) - addr)) [] s)"

definition argint :: "int \<Rightarrow> (uint option, 'a kern_scheme) kop" where
  "argint n = with_proc (\<lambda>p s. fetchint (tf_esp (tf (procs s ! p)) + 4 + of_int (4 * n)) s)"

definition argptr :: "int \<Rightarrow> int \<Rightarrow> (uint option, 'a kern_scheme) kop" where
  "argptr n len =
     andthen (argint n) (\<lambda>res.
     case res of
       None \<Rightarrow> ret None
     | Some i \<Rightarrow> with_proc (\<lambda>p s.
         if sz (procs s ! p) \<le> i \<or> sz (procs s ! p) < i + of_int len then Done None s
         else Done (Some i) s))"

definition argstr :: "int \<Rightarrow> (bytes option, 'a kern_scheme) kop" where
  "argstr n =
     andthen (argint n) (\<lambda>res.
     case res of None \<Rightarrow> ret None | Some addr \<Rightarrow> fetchstr addr)"

section \<open>System calls on processes\<close>

text \<open>\<open>sys_uprog_shut\<close>, which writes to output ports, is in theory \<open>Trap\<close>.\<close>

definition sys_fork :: "(int, 'a kern_scheme) kop" where
  "sys_fork = fork"

definition sys_exit :: "(int, 'a kern_scheme) kop" where
  "sys_exit = andthen exit (\<lambda>_::unit. ret 0)"

definition sys_wait :: "(int, 'a kern_scheme) kop" where
  "sys_wait = wait"

definition sys_kill :: "(int, 'a kern_scheme) kop" where
  "sys_kill =
     andthen (argint 0) (\<lambda>res.
     case res of None \<Rightarrow> ret (- 1) | Some n \<Rightarrow> kill (sint n))"

definition sys_getpid :: "(int, 'a kern_scheme) kop" where
  "sys_getpid = with_proc (\<lambda>p s. Done (pid (procs s ! p)) s)"

definition sys_sbrk :: "(int, 'a kern_scheme) kop" where
  "sys_sbrk =
     andthen (argint 0) (\<lambda>res.
     case res of
       None \<Rightarrow> ret (- 1)
     | Some n \<Rightarrow> with_proc (\<lambda>p s.
         let addr = sz (procs s ! p)
         in andthen (growproc (sint n)) (\<lambda>r. if r < 0 then ret (- 1) else ret (sint addr)) s))"

text \<open>The loop of \<open>sys_sleep\<close>: the comparison is between unsigned numbers.\<close>

definition sys_sleep_loop :: "uint \<Rightarrow> uint \<Rightarrow> (int, 'a kern_scheme) kop" where
  "sys_sleep_loop n ticks0 = (\<lambda>s.
     if ticks s - ticks0 < n
     then with_proc (\<lambda>p s. if killed (procs s ! p) then andthen (release TicksLk) (\<lambda>_. ret (- 1)) s
                           else sleep TicksChan TicksLk s) s
     else andthen (release TicksLk) (\<lambda>_. ret 0) s)"

definition sys_sleep :: "(int, 'a kern_scheme) kop" where
  "sys_sleep =
     andthen (argint 0) (\<lambda>res.
     case res of
       None \<Rightarrow> ret (- 1)
     | Some n \<Rightarrow>
         andthen (acquire TicksLk) (\<lambda>_.
         andthen (gets ticks) (\<lambda>ticks0.
         sys_sleep_loop n ticks0)))"

definition sys_sleep_resume :: "bool \<Rightarrow> uint \<Rightarrow> uint \<Rightarrow> (int, 'a kern_scheme) kop" where
  "sys_sleep_resume ena n ticks0 = andthen (sleep_resume ena TicksLk) (\<lambda>_. sys_sleep_loop n ticks0)"

definition sys_uptime :: "(int, 'a kern_scheme) kop" where
  "sys_uptime =
     andthen (acquire TicksLk) (\<lambda>_.
     andthen (gets ticks) (\<lambda>xticks.
     andthen (release TicksLk) (\<lambda>_.
     ret (sint xticks))))"

definition sys_enable_sched_trace :: "(int, 'a kern_scheme) kop" where
  "sys_enable_sched_trace =
     andthen (argint 0) (\<lambda>res.
     andthen (case res of
         None \<Rightarrow> cprintf (''enable_sched_trace() failed!'' @ newline) []
       | Some v \<Rightarrow> modify (\<lambda>s. s\<lparr>sched_trace_enabled := (v \<noteq> 0)\<rparr>)) (\<lambda>_.
     ret 0))"

section \<open>Properties\<close>

lemma fetchstr_loop_spec:
  assumes "\<And>i. i < n \<Longrightarrow> user_byte s (a + of_nat i) = Some (u (a + of_nat i))"
  shows "fetchstr_loop a n acc s =
    Done (if \<exists>i<n. u (a + of_nat i) = 0
          then Some (acc @ takeWhile (\<lambda>c. c \<noteq> 0) (map (\<lambda>i. u (a + of_nat i)) [0..<n])) else None) s"
  using assms
proof (induction n arbitrary: a acc)
  case (Suc n)
  have h: "user_byte s a = Some (u a)" using Suc.prems[of 0] by simp
  have t: "user_byte s (a + 1 + of_nat i) = Some (u (a + 1 + of_nat i))" if "i < n" for i
    using Suc.prems[of "Suc i"] that by (simp add: algebra_simps)
  have m: "map (\<lambda>i. u (a + of_nat i)) [0..<Suc n] = u a # map (\<lambda>i. u (a + 1 + of_nat i)) [0..<n]"
    by (simp add: upt_conv_Cons map_Suc_upt[symmetric] algebra_simps del: upt_Suc)
  have e: "(\<exists>i<Suc n. u (a + of_nat i) = 0) \<longleftrightarrow> u a = 0 \<or> (\<exists>i<n. u (a + 1 + of_nat i) = 0)"
    by (simp add: Ex_less_Suc2 algebra_simps)
  show ?case unfolding m e using Suc.IH[OF t] h by (cases "u a = 0") auto
qed simp

lemma takeWhile_upto:
  assumes "\<exists>i<n. f i = (0 :: uchar)"
  shows "\<exists>k<n. takeWhile (\<lambda>c. c \<noteq> 0) (map f [0..<n]) = map f [0..<k] \<and> f k = 0 \<and> (\<forall>i<k. f i \<noteq> 0)"
proof -
  define k where "k = (LEAST i. i < n \<and> f i = 0)"
  have k: "k < n" "f k = 0" using LeastI_ex[of "\<lambda>i. i < n \<and> f i = 0"] assms by (auto simp: k_def)
  have b: "f i \<noteq> 0" if "i < k" for i using not_less_Least[of i "\<lambda>i. i < n \<and> f i = 0"] that k by (auto simp: k_def)
  have "[0..<n] = [0..<k] @ k # [Suc k..<n]" using k upt_add_eq_append[of 0 k "n - k"] by (simp add: upt_conv_Cons)
  then have "map f [0..<n] = map f [0..<k] @ 0 # map f [Suc k..<n]" using k(2) by simp
  then have "takeWhile (\<lambda>c. c \<noteq> 0) (map f [0..<n]) = map f [0..<k]"
    using takeWhile_append2[of "map f [0..<k]" "\<lambda>c. c \<noteq> 0" "0 # map f [Suc k..<n]"] b by fastforce
  then show ?thesis using k b by blast
qed

text \<open>
  C22: the kernel never faults on a string argument and never reads past the process.  For a process whose
  memory \<open>u\<close> is mapped up to its size, \<open>fetchstr\<close> returns, leaves the state as it is, and finds the string at
  the address exactly when one is terminated inside the process.
\<close>

theorem fetchstr_correct:
  assumes cur: "curproc (cpu s) = Some p" "p < length (procs s)"
    and mapped: "\<And>va. va < sz (procs s ! p) \<Longrightarrow> user_byte s va = Some (u va)"
  shows "\<exists>res. fetchstr addr s = Done res s \<and>
    (case res of
       Some str \<Rightarrow> unat addr + length str < unat (sz (procs s ! p)) \<and> 0 \<notin> set str \<and>
         (\<forall>i<length str. u (addr + of_nat i) = str ! i) \<and> u (addr + of_nat (length str)) = 0
     | None \<Rightarrow> (\<forall>va. addr \<le> va \<and> va < sz (procs s ! p) \<longrightarrow> u va \<noteq> 0))"
proof (cases "sz (procs s ! p) \<le> addr")
  case True
  then show ?thesis using cur by (auto simp: fetchstr_def with_proc_def)
next
  case False
  let ?z = "sz (procs s ! p)" and ?f = "\<lambda>i. u (addr + of_nat i)"
  let ?n = "unat (?z - addr)"
  have n: "?n = unat ?z - unat addr" using False by (simp add: unat_sub)
  have w: "unat (addr + of_nat i) = unat addr + i" if "i < ?n" for i
  proof (rule unat_add_of_nat)
    have "unat addr + i < unat ?z" using that n by simp
    then show "unat addr + i < 4294967296" by (rule less_trans) (rule unat32_less)
  qed
  have m: "user_byte s (addr + of_nat i) = Some (?f i)" if "i < ?n" for i
    using that w[OF that] n by (intro mapped) (simp add: word_less_nat_alt)
  have e: "fetchstr addr s = Done (if \<exists>i<?n. ?f i = 0 then Some (takeWhile (\<lambda>c. c \<noteq> 0) (map ?f [0..<?n])) else None) s"
    using fetchstr_loop_spec[OF m, where acc = "[]"] cur False by (simp add: fetchstr_def with_proc_def)
  show ?thesis
  proof (cases "\<exists>i<?n. ?f i = 0")
    case True
    from takeWhile_upto[OF this] obtain k where "k < ?n" "takeWhile (\<lambda>c. c \<noteq> 0) (map ?f [0..<?n]) = map ?f [0..<k]"
      "?f k = 0" "\<forall>i<k. ?f i \<noteq> 0" by blast
    then show ?thesis using e True n by auto
  next
    case False
    have "u va \<noteq> 0" if "addr \<le> va" "va < ?z" for va
    proof -
      have "unat (va - addr) < ?n" using that by (simp add: unat_sub n word_less_nat_alt word_le_nat_alt)
      then show ?thesis using False by force
    qed
    then show ?thesis using e False by simp
  qed
qed

text \<open>
  A process of 32 bytes in one page at \<open>0x80200000\<close>: its first argument is the address 16, where the
  string \<^verbatim>\<open>hi\<close> is, and its second argument is 5.
\<close>

definition usr_mem :: memory where
  "usr_mem = mem_store (st32 (st32 (\<lambda>_. 0) 0x80000000 0x101007) 0x80101000 0x200007) 0x80200000
     ([0, 0, 0, 0] @ le32 16 @ le32 5 @ le32 0 @ [104, 105])"

definition usr_demo :: kern where
  "usr_demo = kern_demo\<lparr>cpu := (cpu kern_demo)\<lparr>curproc := Some 0\<rparr>,
     procs := [proc0\<lparr>sz := 32, tf := tf0\<lparr>tf_esp := 0\<rparr>\<rparr>], mem := usr_mem, cr3 := 0\<rparr>"

lemma usr_demo_sel [simp]:
  "curproc (cpu usr_demo) = Some 0" "procs usr_demo = [proc0\<lparr>sz := 32, tf := tf0\<lparr>tf_esp := 0\<rparr>\<rparr>]"
  "mem usr_demo = usr_mem" "cr3 usr_demo = 0"
  by (simp_all add: usr_demo_def)

lemma usr_demo_addr:
  assumes "va < 32"
  shows "user_addr False usr_demo va = Some (0x80200000 + va)"
proof -
  have t: "ld32 usr_mem 0x80000000 = 0x101007" "ld32 usr_mem 0x80101000 = 0x200007"
    by (simp_all add: usr_mem_def ld32_def st32_def mem_store_def le32_def)
  have "va AND 0xFFF = take_bit 12 va" by (simp add: take_bit_eq_mask mask_eq_exp_minus_1)
  also have "take_bit 12 va = va" using assms by (simp add: word_unat_eq_iff take_bit_eq_mod unat_mod word_less_nat_alt)
  finally have "va AND 0xFFF = va" .
  moreover have "drop_bit 12 va = 0" "drop_bit 22 va = 0"
    using assms by (simp_all add: word_unat_eq_iff drop_bit_eq_div unat_div word_less_nat_alt)
  ultimately show ?thesis using t
    by (simp add: user_addr_def PDX_def PTX_def p2v_def KERNBASE_def PTE_ADDR_def PTE_P_def Let_def)
qed

lemma usr_demo_byte: "va < 32 \<Longrightarrow> user_byte usr_demo va = Some (usr_mem (0x80200000 + va))"
  by (simp add: user_byte_def usr_demo_addr)

theorem fetchstr_correct_witness: "fetchstr 16 usr_demo = Done (Some [104, 105]) usr_demo"
proof -
  have "\<And>va. va < sz (procs usr_demo ! 0) \<Longrightarrow> user_byte usr_demo va = Some (usr_mem (0x80200000 + va))"
    using usr_demo_byte by (simp add: proc0_def)
  from fetchstr_correct[OF usr_demo_sel(1) _ this, of 16] obtain res where r: "fetchstr 16 usr_demo = Done res usr_demo"
    "case res of
       Some str \<Rightarrow> unat (16::uint) + length str < unat (sz (procs usr_demo ! 0)) \<and> 0 \<notin> set str \<and>
         (\<forall>i<length str. usr_mem (0x80200000 + (16 + of_nat i)) = str ! i) \<and>
         usr_mem (0x80200000 + (16 + of_nat (length str))) = 0
     | None \<Rightarrow> (\<forall>va. 16 \<le> va \<and> va < sz (procs usr_demo ! 0) \<longrightarrow> usr_mem (0x80200000 + va) \<noteq> 0)"
    by auto
  have c: "usr_mem 0x80200010 = 104" "usr_mem 0x80200011 = 105" "usr_mem 0x80200012 = 0"
    by (simp_all add: usr_mem_def mem_store_def le32_def st32_def)
  obtain str where str: "res = Some str" using r(2) c by (cases res) (auto simp: proc0_def dest!: spec[of _ 18])
  note f = r(2)[unfolded str option.case]
  have i: "usr_mem (0x80200000 + (16 + of_nat i)) = str ! i" if "i < length str" for i using f that by blast
  have "str = [104, 105]"
  proof (cases str)
    case Nil then show ?thesis using f c by simp
  next
    case c1: (Cons a t)
    show ?thesis
    proof (cases t)
      case Nil then show ?thesis using f c c1 by simp
    next
      case (Cons b t')
      then show ?thesis using i[of 0] i[of 1] i[of 2] c c1 f by (cases t') auto
    qed
  qed
  then show ?thesis using r(1) str by simp
qed

lemma fetchint_same: "fetchint addr s = Done res s' \<Longrightarrow> s' = s"
  by (auto simp: fetchint_def with_proc_def Let_def split: option.splits if_splits)

lemma argint_same: "argint n s = Done res s' \<Longrightarrow> s' = s"
  by (auto simp: argint_def with_proc_def dest: fetchint_same split: option.splits if_splits)

text \<open>
  C23: a pointer that \<open>argptr\<close> accepts can be used.  For a process below \<open>KERNBASE\<close> and a size that is not
  negative, the whole block lies inside the process, without wrap-around, and a larger size that would
  leave it is refused.
\<close>

theorem argptr_bounds:
  assumes cur: "curproc (cpu s) = Some p" "p < length (procs s)" and z: "sz (procs s ! p) \<le> KERNBASE"
    and len: "0 \<le> len" "len < 2 ^ 31" and i: "argint n s = Done (Some i) s"
  shows "argptr n len s =
    Done (if i < sz (procs s ! p) \<and> unat i + nat len \<le> unat (sz (procs s ! p)) then Some i else None) s"
proof -
  let ?z = "sz (procs s ! p)"
  have e: "(of_int len :: uint) = of_nat (nat len)" by (rule of_nat_nat[OF len(1), symmetric])
  have w: "unat (i + of_int len) = unat i + nat len" if "i < ?z" unfolding e
  proof (rule unat_add_of_nat)
    have "unat i < unat KERNBASE" using that z by (simp only: word_less_nat_alt word_le_nat_alt)
    moreover have "unat KERNBASE = 2147483648" by (simp add: KERNBASE_def)
    moreover have "nat len < 2147483648" using len(2) by simp
    ultimately show "unat i + nat len < 4294967296" by linarith
  qed
  show ?thesis
  proof (cases "i < ?z")
    case True
    have "?z < i + of_int len \<longleftrightarrow> \<not> unat i + nat len \<le> unat ?z" using w[OF True] by (simp only: word_less_nat_alt not_le)
    moreover have "\<not> ?z \<le> i" using True by (simp only: not_le)
    ultimately show ?thesis using cur i True by (auto simp: argptr_def with_proc_def)
  next
    case False
    then have "?z \<le> i" by (simp only: not_less)
    then show ?thesis using cur i False by (simp add: argptr_def with_proc_def)
  qed
qed

lemma usr_mem_args:
  "map usr_mem [0x80200004, 0x80200005, 0x80200006, 0x80200007] = le32 16"
  "map usr_mem [0x80200008, 0x80200009, 0x8020000A, 0x8020000B] = le32 5"
  by (simp_all add: usr_mem_def mem_store_def le32_def)

lemma user_bytes_4:
  "user_bytes s va 4 = (case user_byte s va of None \<Rightarrow> [] | Some a \<Rightarrow> a #
     (case user_byte s (va + 1) of None \<Rightarrow> [] | Some b \<Rightarrow> b #
     (case user_byte s (va + 2) of None \<Rightarrow> [] | Some c \<Rightarrow> c #
     (case user_byte s (va + 3) of None \<Rightarrow> [] | Some d \<Rightarrow> [d]))))"
proof -
  have "(4::nat) = Suc (Suc (Suc (Suc 0)))" "va + 1 + 1 = va + 2" "va + 2 + 1 = va + 3" by simp_all
  then show ?thesis by (simp only: user_bytes.simps)
qed

lemma usr_demo_words: "user_bytes usr_demo 4 4 = le32 16" "user_bytes usr_demo 8 4 = le32 5"
  using usr_mem_args by (simp_all add: user_bytes_4 usr_demo_byte)

lemma usr_demo_args: "argint 0 usr_demo = Done (Some 16) usr_demo" "argint 1 usr_demo = Done (Some 5) usr_demo"
  by (simp_all add: argint_def fetchint_def with_proc_def proc0_def tf0_def usr_demo_words rd32_def rd16_def le32_def)

theorem argptr_bounds_witness:
  "argptr 0 16 usr_demo = Done (Some 16) usr_demo \<and> argptr 0 17 usr_demo = Done None usr_demo"
  using argptr_bounds[OF usr_demo_sel(1) _ _ _ _ usr_demo_args(1), of 16]
    argptr_bounds[OF usr_demo_sel(1) _ _ _ _ usr_demo_args(1), of 17]
  by (simp add: proc0_def KERNBASE_def)

text \<open>A negative size passes the check although no such block exists.\<close>

lemma argptr_negative_size: "argptr 0 (- 1) usr_demo = Done (Some 16) usr_demo"
  by (simp add: argptr_def usr_demo_args with_proc_def proc0_def)

end
