(* ===== verification/Sysfile.thy ===== *)
theory Sysfile
  imports Syscall
begin

text \<open>
  \<^verbatim>\<open>sysfile.c\<close>: the system calls on files, except \<open>sys_exec\<close>, which is in theory \<open>Exec\<close>.

  \<open>argfd\<close> returns the descriptor and the open file.  The bytes a read produces are stored in the memory of
  the process at the end of the call, and a write is given the bytes that can be read from it.  The local
  arrays for path elements are not initialised in the code; what they hold does not matter, and they are zero
  here.
\<close>

unbundle bit_operations_syntax

section \<open>Descriptors\<close>

definition argfd :: "int \<Rightarrow> ((nat \<times> nat) option, 'a kern_scheme) kop" where
  "argfd n =
     andthen (argint n) (\<lambda>res.
     case res of
       None \<Rightarrow> ret None
     | Some w \<Rightarrow> with_proc (\<lambda>p s.
         let fd = sint w
         in if fd < 0 \<or> int NOFILE \<le> fd then Done None s
         else case ofile (procs s ! p) ! nat fd of
             None \<Rightarrow> Done None s
           | Some f \<Rightarrow> Done (Some (nat fd, f)) s))"

definition fdalloc :: "nat \<Rightarrow> (nat option, 'a kern_scheme) kop" where
  "fdalloc f = with_proc (\<lambda>p s.
     case find (\<lambda>fd. ofile (procs s ! p) ! fd = None) [0..<NOFILE] of
       None \<Rightarrow> Done None s
     | Some fd \<Rightarrow> andthen (upd_proc p (\<lambda>r. r\<lparr>ofile := (ofile r)[fd := Some f]\<rparr>)) (\<lambda>_. ret (Some fd)) s)"

text \<open>\<^verbatim>\<open>proc->ofile[fd] = 0\<close>\<close>

definition fdclear :: "nat \<Rightarrow> (unit, 'a kern_scheme) kop" where
  "fdclear fd = with_proc (\<lambda>p. upd_proc p (\<lambda>r. r\<lparr>ofile := (ofile r)[fd := None]\<rparr>))"

section \<open>Open files\<close>

definition sys_dup :: "(int, 'a kern_scheme) kop" where
  "sys_dup =
     andthen (argfd 0) (\<lambda>res.
     case res of
       None \<Rightarrow> ret (- 1)
     | Some (_, f) \<Rightarrow>
         andthen (fdalloc f) (\<lambda>r.
         case r of
           None \<Rightarrow> ret (- 1)
         | Some fd \<Rightarrow> andthen (filedup f) (\<lambda>_. ret (int fd))))"

text \<open>The arguments of \<open>read\<close> and \<open>write\<close>: the file, the address and the count.\<close>

definition rw_args :: "((nat \<times> uint \<times> int) option, 'a kern_scheme) kop" where
  "rw_args =
     andthen (argfd 0) (\<lambda>r0.
     case r0 of
       None \<Rightarrow> ret None
     | Some (_, f) \<Rightarrow>
         andthen (argint 2) (\<lambda>r2.
         case r2 of
           None \<Rightarrow> ret None
         | Some n \<Rightarrow>
             andthen (argptr 1 (sint n)) (\<lambda>r1.
             case r1 of None \<Rightarrow> ret None | Some p \<Rightarrow> ret (Some (f, p, sint n)))))"

definition sys_read :: "(int, 'a kern_scheme) kop" where
  "sys_read =
     andthen rw_args (\<lambda>args.
     case args of
       None \<Rightarrow> ret (- 1)
     | Some (f, p, n) \<Rightarrow>
         andthen (fileread f n) (\<lambda>(k, bs).
         andthen (store_user p bs) (\<lambda>_.
         ret k)))"

definition sys_write :: "(int, 'a kern_scheme) kop" where
  "sys_write =
     andthen rw_args (\<lambda>args.
     case args of
       None \<Rightarrow> ret (- 1)
     | Some (f, p, n) \<Rightarrow> (\<lambda>s. filewrite f (user_bytes s p (nat n)) n s))"

definition sys_close :: "(int, 'a kern_scheme) kop" where
  "sys_close =
     andthen (argfd 0) (\<lambda>res.
     case res of
       None \<Rightarrow> ret (- 1)
     | Some (fd, f) \<Rightarrow>
         andthen (fdclear fd) (\<lambda>_.
         andthen (fileclose f) (\<lambda>_.
         ret 0)))"

text \<open>\<open>struct stat\<close> in memory: the fields are at the offsets 0, 4, 8, 12 and 16.\<close>

definition STAT_SIZE :: int where "STAT_SIZE = 20"

definition store_stat :: "uint \<Rightarrow> stat \<Rightarrow> (unit, 'a kern_scheme) kop" where
  "store_stat p st =
     andthen (store_user p (le16 (of_int (st_type st)))) (\<lambda>_.
     andthen (store_user (p + 4) (le32 (of_int (st_dev st)))) (\<lambda>_.
     andthen (store_user (p + 8) (le32 (of_nat (st_ino st)))) (\<lambda>_.
     andthen (store_user (p + 12) (le16 (of_int (st_nlink st)))) (\<lambda>_.
     store_user (p + 16) (le32 (of_nat (st_size st)))))))"

definition sys_fstat :: "(int, 'a kern_scheme) kop" where
  "sys_fstat =
     andthen (argfd 0) (\<lambda>r0.
     case r0 of
       None \<Rightarrow> ret (- 1)
     | Some (_, f) \<Rightarrow>
         andthen (argptr 1 STAT_SIZE) (\<lambda>r1.
         case r1 of
           None \<Rightarrow> ret (- 1)
         | Some p \<Rightarrow>
             andthen (filestat f) (\<lambda>res.
             case res of
               None \<Rightarrow> ret (- 1)
             | Some st \<Rightarrow> andthen (store_stat p st) (\<lambda>_. ret 0))))"

section \<open>Links\<close>

text \<open>\<open>nlink\<close> is a \<open>short\<close>: it wraps around.\<close>

definition add_nlink :: "nat \<Rightarrow> int \<Rightarrow> (unit, 'a fs_scheme) kop" where
  "add_nlink ip d = upd_inode ip (\<lambda>r. r\<lparr>i_nlink := s16 (u16 (i_nlink r + d))\<rparr>)"

abbreviation fail :: "(int, 'a kern_scheme) kop" where
  "fail \<equiv> andthen end_op (\<lambda>_. ret (- 1))"

text \<open>The label \<^verbatim>\<open>bad\<close> of \<open>sys_link\<close>.\<close>

definition sys_link_bad :: "nat \<Rightarrow> (int, 'a kern_scheme) kop" where
  "sys_link_bad ip =
     andthen (ilock ip) (\<lambda>_.
     andthen (add_nlink ip (- 1)) (\<lambda>_.
     andthen (iupdate ip) (\<lambda>_.
     andthen (iunlockput ip) (\<lambda>_.
     fail))))"

definition sys_link :: "(int, 'a kern_scheme) kop" where
  "sys_link =
     andthen (argstr 0) (\<lambda>r0.
     case r0 of None \<Rightarrow> ret (- 1) | Some old \<Rightarrow>
     andthen (argstr 1) (\<lambda>r1.
     case r1 of None \<Rightarrow> ret (- 1) | Some new \<Rightarrow>
     andthen begin_op (\<lambda>_.
     andthen (namei old) (\<lambda>res.
     case res of None \<Rightarrow> fail | Some ip \<Rightarrow>
     andthen (ilock ip) (\<lambda>_.
     with_inode ip (\<lambda>r.
     if i_type r = T_DIR then andthen (iunlockput ip) (\<lambda>_. fail)
     else
       andthen (add_nlink ip 1) (\<lambda>_.
       andthen (iupdate ip) (\<lambda>_.
       andthen (iunlock ip) (\<lambda>_.
       andthen (nameiparent new (replicate DIRSIZ 0)) (\<lambda>(res, name).
       case res of None \<Rightarrow> sys_link_bad ip | Some dp \<Rightarrow>
       andthen (ilock dp) (\<lambda>_.
       with_inode dp (\<lambda>d. with_inode ip (\<lambda>r.
       andthen (if i_dev d \<noteq> i_dev r then ret (- 1) else dirlink dp name (i_inum r)) (\<lambda>k.
       if k < 0 then andthen (iunlockput dp) (\<lambda>_. sys_link_bad ip)
       else
         andthen (iunlockput dp) (\<lambda>_.
         andthen (iput ip) (\<lambda>_.
         andthen end_op (\<lambda>_.
         ret 0)))))))))))))))))"

text \<open>The loop of \<open>isdirempty\<close>.\<close>

function isdirempty_loop :: "nat \<Rightarrow> nat \<Rightarrow> nat \<Rightarrow> (bool, 'a fs_scheme) kop" where
  "isdirempty_loop dp off n =
     (if off < n
      then andthen (readi dp off DIRENT_SIZE) (\<lambda>(r, de).
        if r \<noteq> int DIRENT_SIZE then panic ''isdirempty: readi''
        else if de_inum de \<noteq> 0 then ret False
        else isdirempty_loop dp (off + DIRENT_SIZE) n)
      else ret True)"
  by pat_completeness auto
termination
  by (relation "measure (\<lambda>(dp, off, n). n - off)") (auto simp: DIRENT_SIZE_def)

declare isdirempty_loop.simps [simp del]

definition isdirempty :: "nat \<Rightarrow> (bool, 'a fs_scheme) kop" where
  "isdirempty dp = with_inode dp (\<lambda>r. isdirempty_loop dp (2 * DIRENT_SIZE) (i_size r))"

definition dot :: bytes where "dot = [0x2E, 0]"
definition dotdot :: bytes where "dotdot = [0x2E, 0x2E, 0]"

definition sys_unlink :: "(int, 'a kern_scheme) kop" where
  "sys_unlink =
     andthen (argstr 0) (\<lambda>r0.
     case r0 of None \<Rightarrow> ret (- 1) | Some path \<Rightarrow>
     andthen begin_op (\<lambda>_.
     andthen (nameiparent path (replicate DIRSIZ 0)) (\<lambda>(res, name).
     case res of None \<Rightarrow> fail | Some dp \<Rightarrow>
     andthen (ilock dp) (\<lambda>_.
     if namecmp name dot = Some 0 \<or> namecmp name dotdot = Some 0 then andthen (iunlockput dp) (\<lambda>_. fail)
     else
       andthen (dirlookup dp name) (\<lambda>found.
       case found of None \<Rightarrow> andthen (iunlockput dp) (\<lambda>_. fail) | Some (ip, off) \<Rightarrow>
       andthen (ilock ip) (\<lambda>_.
       with_inode ip (\<lambda>r.
       if i_nlink r < 1 then panic ''unlink: nlink < 1''
       else
         andthen (if i_type r = T_DIR then isdirempty ip else ret True) (\<lambda>ok.
         if \<not> ok
         then andthen (iunlockput ip) (\<lambda>_. andthen (iunlockput dp) (\<lambda>_. fail))
         else
           andthen (writei dp (replicate DIRENT_SIZE 0) off DIRENT_SIZE) (\<lambda>k.
           if k \<noteq> int DIRENT_SIZE then panic ''unlink: writei''
           else
             andthen (if i_type r = T_DIR then andthen (add_nlink dp (- 1)) (\<lambda>_. iupdate dp) else ret ()) (\<lambda>_.
             andthen (iunlockput dp) (\<lambda>_.
             andthen (add_nlink ip (- 1)) (\<lambda>_.
             andthen (iupdate ip) (\<lambda>_.
             andthen (iunlockput ip) (\<lambda>_.
             andthen end_op (\<lambda>_.
             ret 0)))))))))))))))"

section \<open>Creating and opening\<close>

definition create :: "bytes \<Rightarrow> int \<Rightarrow> int \<Rightarrow> int \<Rightarrow> (nat option, 'a fs_scheme) kop" where
  "create path typ maj mnr =
     andthen (nameiparent path (replicate DIRSIZ 0)) (\<lambda>(res, name).
     case res of None \<Rightarrow> ret None | Some dp \<Rightarrow>
     andthen (ilock dp) (\<lambda>_.
     andthen (dirlookup dp name) (\<lambda>found.
     case found of
       Some (ip, _) \<Rightarrow>
         andthen (iunlockput dp) (\<lambda>_.
         andthen (ilock ip) (\<lambda>_.
         with_inode ip (\<lambda>r.
         if typ = T_FILE \<and> i_type r = T_FILE then ret (Some ip)
         else andthen (iunlockput ip) (\<lambda>_. ret None))))
     | None \<Rightarrow>
         with_inode dp (\<lambda>d.
         andthen (ialloc (i_dev d) typ) (\<lambda>ip.
         andthen (ilock ip) (\<lambda>_.
         andthen (upd_inode ip (\<lambda>r. r\<lparr>i_major := maj, i_minor := mnr, i_nlink := 1\<rparr>)) (\<lambda>_.
         andthen (iupdate ip) (\<lambda>_.
         with_inode ip (\<lambda>r.
         andthen (if typ = T_DIR
           then
             andthen (add_nlink dp 1) (\<lambda>_.
             andthen (iupdate dp) (\<lambda>_.
             andthen (dirlink ip dot (i_inum r)) (\<lambda>k.
             andthen (if k < 0 then ret k else dirlink ip dotdot (i_inum d)) (\<lambda>k.
             if k < 0 then panic ''create dots'' else ret ()))))
           else ret ()) (\<lambda>_.
         andthen (dirlink dp name (i_inum r)) (\<lambda>k.
         if k < 0 then panic ''create: dirlink''
         else andthen (iunlockput dp) (\<lambda>_. ret (Some ip)))))))))))))"

definition O_RDONLY :: uint where "O_RDONLY = 0x000"
definition O_WRONLY :: uint where "O_WRONLY = 0x001"
definition O_RDWR :: uint where "O_RDWR = 0x002"
definition O_CREATE :: uint where "O_CREATE = 0x200"

text \<open>The first half of \<open>sys_open\<close>: the locked inode, or none.\<close>

definition open_inode :: "bytes \<Rightarrow> uint \<Rightarrow> (nat option, 'a fs_scheme) kop" where
  "open_inode path omode =
     (if omode AND O_CREATE \<noteq> 0 then create path T_FILE 0 0
      else
        andthen (namei path) (\<lambda>res.
        case res of None \<Rightarrow> ret None | Some ip \<Rightarrow>
        andthen (ilock ip) (\<lambda>_.
        with_inode ip (\<lambda>r.
        if i_type r = T_DIR \<and> omode \<noteq> O_RDONLY then andthen (iunlockput ip) (\<lambda>_. ret None)
        else ret (Some ip)))))"

definition sys_open :: "(int, 'a kern_scheme) kop" where
  "sys_open =
     andthen (argstr 0) (\<lambda>r0.
     case r0 of None \<Rightarrow> ret (- 1) | Some path \<Rightarrow>
     andthen (argint 1) (\<lambda>r1.
     case r1 of None \<Rightarrow> ret (- 1) | Some omode \<Rightarrow>
     andthen begin_op (\<lambda>_.
     andthen (open_inode path omode) (\<lambda>res.
     case res of None \<Rightarrow> fail | Some ip \<Rightarrow>
     andthen filealloc (\<lambda>fr.
     case fr of None \<Rightarrow> andthen (iunlockput ip) (\<lambda>_. fail) | Some f \<Rightarrow>
     andthen (fdalloc f) (\<lambda>r.
     case r of None \<Rightarrow> andthen (fileclose f) (\<lambda>_. andthen (iunlockput ip) (\<lambda>_. fail)) | Some fd \<Rightarrow>
     andthen (iunlock ip) (\<lambda>_.
     andthen end_op (\<lambda>_.
     andthen (upd_file f (\<lambda>r. r\<lparr>f_type := FD_INODE, f_ip := ip, f_off := 0, f_readable := (omode AND O_WRONLY = 0),
        f_writable := (omode AND O_WRONLY \<noteq> 0 \<or> omode AND O_RDWR \<noteq> 0)\<rparr>)) (\<lambda>_.
     ret (int fd))))))))))"

definition sys_mkdir :: "(int, 'a kern_scheme) kop" where
  "sys_mkdir =
     andthen begin_op (\<lambda>_.
     andthen (argstr 0) (\<lambda>r0.
     case r0 of None \<Rightarrow> fail | Some path \<Rightarrow>
     andthen (create path T_DIR 0 0) (\<lambda>res.
     case res of None \<Rightarrow> fail | Some ip \<Rightarrow>
     andthen (iunlockput ip) (\<lambda>_.
     andthen end_op (\<lambda>_.
     ret 0)))))"

text \<open>The device numbers are cut to \<open>short\<close> by the call of \<open>create\<close>.\<close>

definition sys_mknod :: "(int, 'a kern_scheme) kop" where
  "sys_mknod =
     andthen begin_op (\<lambda>_.
     andthen (argstr 0) (\<lambda>r0.
     case r0 of None \<Rightarrow> fail | Some path \<Rightarrow>
     andthen (argint 1) (\<lambda>r1.
     case r1 of None \<Rightarrow> fail | Some maj \<Rightarrow>
     andthen (argint 2) (\<lambda>r2.
     case r2 of None \<Rightarrow> fail | Some mnr \<Rightarrow>
     andthen (create path T_DEV (s16 (u16 (sint maj))) (s16 (u16 (sint mnr)))) (\<lambda>res.
     case res of None \<Rightarrow> fail | Some ip \<Rightarrow>
     andthen (iunlockput ip) (\<lambda>_.
     andthen end_op (\<lambda>_.
     ret 0)))))))"

definition sys_chdir :: "(int, 'a kern_scheme) kop" where
  "sys_chdir =
     andthen begin_op (\<lambda>_.
     andthen (argstr 0) (\<lambda>r0.
     case r0 of None \<Rightarrow> fail | Some path \<Rightarrow>
     andthen (namei path) (\<lambda>res.
     case res of None \<Rightarrow> fail | Some ip \<Rightarrow>
     andthen (ilock ip) (\<lambda>_.
     with_inode ip (\<lambda>r.
     if i_type r \<noteq> T_DIR then andthen (iunlockput ip) (\<lambda>_. fail)
     else
       andthen (iunlock ip) (\<lambda>_.
       andthen (with_proc (\<lambda>p s. case cwd (procs s ! p) of None \<Rightarrow> Fault | Some c \<Rightarrow> iput c s)) (\<lambda>_.
       andthen end_op (\<lambda>_.
       andthen (with_proc (\<lambda>p. upd_proc p (\<lambda>r. r\<lparr>cwd := Some ip\<rparr>))) (\<lambda>_.
       ret 0)))))))))"

definition sys_pipe :: "(int, 'a kern_scheme) kop" where
  "sys_pipe =
     andthen (argptr 0 8) (\<lambda>r0.
     case r0 of None \<Rightarrow> ret (- 1) | Some fd \<Rightarrow>
     andthen pipealloc (\<lambda>res.
     case res of None \<Rightarrow> ret (- 1) | Some (rfl, wfl) \<Rightarrow>
     andthen (fdalloc rfl) (\<lambda>d0.
     case d0 of
       None \<Rightarrow> andthen (fileclose rfl) (\<lambda>_. andthen (fileclose wfl) (\<lambda>_. ret (- 1)))
     | Some fd0 \<Rightarrow>
     andthen (fdalloc wfl) (\<lambda>d1.
     case d1 of
       None \<Rightarrow> andthen (fdclear fd0) (\<lambda>_. andthen (fileclose rfl) (\<lambda>_. andthen (fileclose wfl) (\<lambda>_. ret (- 1))))
     | Some fd1 \<Rightarrow>
         andthen (store_user fd (le32 (of_nat fd0))) (\<lambda>_.
         andthen (store_user (fd + 4) (le32 (of_nat fd1))) (\<lambda>_.
         ret 0))))))"

section \<open>Behaviour with balanced locks\<close>

definition free_fd :: "nat option list \<Rightarrow> nat option" where
  "free_fd os = find (\<lambda>fd. os ! fd = None) [0..<NOFILE]"

lemma free_fd_SomeD: "free_fd os = Some d \<Longrightarrow> d < NOFILE \<and> os ! d = None \<and> (\<forall>e<d. os ! e \<noteq> None)"
  unfolding free_fd_def find_Some_iff by (elim exE conjE) (simp del: not_None_eq)

lemma fdalloc_eq:
  assumes "curproc (cpu s) = Some p" "p < length (procs s)"
  shows "fdalloc f s = (case free_fd (ofile (procs s ! p)) of
      None \<Rightarrow> Done None s
    | Some d \<Rightarrow> Done (Some d) (s\<lparr>procs := (procs s)[p := (procs s ! p)\<lparr>ofile := (ofile (procs s ! p))[d := Some f]\<rparr>]\<rparr>))"
  using assms by (simp add: fdalloc_def with_proc_def upd_proc_def free_fd_def split: option.split)

text \<open>Giving a descriptor out and clearing it again changes nothing.\<close>

lemma fdclear_fdalloc:
  assumes "curproc (cpu s) = Some p" "p < length (procs s)" "free_fd (ofile (procs s ! p)) = Some d"
  shows "fdclear d (s\<lparr>procs := (procs s)[p := (procs s ! p)\<lparr>ofile := (ofile (procs s ! p))[d := Some f]\<rparr>]\<rparr>) = Done () s"
proof -
  have "(ofile (procs s ! p))[d := None] = ofile (procs s ! p)"
    using free_fd_SomeD[OF assms(3)] by (metis list_update_id)
  then show ?thesis using assms(1,2) by (simp add: fdclear_def with_proc_def upd_proc_def)
qed

section \<open>Properties\<close>

text \<open>
  C24: \<open>sys_pipe\<close> cleans up after itself when descriptors run out.  If the process has at most one free
  descriptor but there are two free files and a free page, the call fails with -1 and gives everything back:
  the page, both files and the descriptor it may have taken.
\<close>

theorem sys_pipe_error:
  assumes q: "quiet s" and cur: "curproc (cpu s) = Some pr" "pr < length (procs s)"
    and arg: "argptr 0 8 s = Done (Some addr) s" and k: "kmem_inv s (p # ps)"
    and a: "find (\<lambda>f. f_ref (ftable s ! f) = 0) [0..<length (ftable s)] = Some a"
    and b: "find (\<lambda>f. f_ref ((ftable s)[a := (ftable s ! a)\<lparr>f_ref := 1\<rparr>] ! f) = 0) [0..<length (ftable s)] = Some b"
    and few: "\<And>i j. i < NOFILE \<Longrightarrow> j < NOFILE \<Longrightarrow> ofile (procs s ! pr) ! i = None \<Longrightarrow> ofile (procs s ! pr) ! j = None \<Longrightarrow> i = j"
    and len: "length (ofile (procs s ! pr)) = NOFILE"
  shows "\<exists>s'. sys_pipe s = Done (- 1) s' \<and> quiet s' \<and> kmem_inv s' (p # ps) \<and> pipes s' (unat p) = None \<and>
    map f_ref (ftable s') = map f_ref (ftable s) \<and> ofile (procs s' ! pr) = ofile (procs s ! pr)"
proof -
  note n = two_free[OF a b]
  from pipealloc_ok[OF q k a b] obtain s1 fa fb pp where s1: "pipealloc s = Done (Some (a, b)) s1" "quiet s1"
    "kmem_inv s1 ps" "page_ok s1 = page_ok s" "procs s1 = procs s" "cpu s1 = cpu s" "ftable s1 = (ftable s)[a := fa, b := fb]"
    "f_ref fa = 1" "f_ref fb = 1" "f_type fa = FD_PIPE" "f_type fb = FD_PIPE" "\<not> f_writable fa" "f_writable fb"
    "f_pipe fa = unat p" "f_pipe fb = unat p" "pipes s1 (unat p) = Some pp" "readopen pp" "writeopen pp" by blast
  have t: "ftable s1 ! a = fa" "ftable s1 ! b = fb" using s1(7) n by simp_all
  have pn: "p \<notin> set ps" "page_ok s1 p" using k s1(4) by (auto simp: kmem_inv_def)
  have "\<exists>s2 s3 c c'. fileclose a s1 = Done () s2 \<and> fileclose b s2 = Done () s3 \<and> quiet s3 \<and> kmem_inv s3 (p # ps) \<and>
    pipes s3 (unat p) = None \<and> ftable s3 = (ftable s1)[a := (ftable s1 ! a)\<lparr>f_ref := 0, f_type := FD_NONE\<rparr>,
      b := (ftable s1 ! b)\<lparr>f_ref := 0, f_type := FD_NONE\<rparr>] \<and> procs s3 = map (wake_proc c) (map (wake_proc c') (procs s1)) \<and> cpu s3 = cpu s1"
    by (rule close_ends[OF s1(2,3) pn(2,1) _ _ _ _ _ s1(16-18)]) (use t s1 n in auto)
  then obtain s2 s3 c c' where cl: "fileclose a s1 = Done () s2" "fileclose b s2 = Done () s3" "quiet s3" "kmem_inv s3 (p # ps)"
    "pipes s3 (unat p) = None" and f3: "ftable s3 = (ftable s1)[a := (ftable s1 ! a)\<lparr>f_ref := 0, f_type := FD_NONE\<rparr>,
      b := (ftable s1 ! b)\<lparr>f_ref := 0, f_type := FD_NONE\<rparr>]" and p3: "procs s3 = map (wake_proc c) (map (wake_proc c') (procs s))"
    using s1(5) by auto
  have refs: "map f_ref (ftable s3) = map f_ref (ftable s)"
    unfolding f3 using n s1(7) by (auto simp: list_eq_iff_nth_eq nth_list_update)
  have os: "ofile (procs s3 ! pr) = ofile (procs s ! pr)" using p3 cur by (simp add: wake_proc_def)
  have c1: "curproc (cpu s1) = Some pr" "pr < length (procs s1)" using cur s1(5,6) by simp_all
  have "sys_pipe s = Done (- 1) s3"
  proof (cases "free_fd (ofile (procs s ! pr))")
    case None
    then show ?thesis using arg s1(1,5) fdalloc_eq[OF c1, of a] cl by (simp add: sys_pipe_def)
  next
    case (Some d)
    let ?s2 = "s1\<lparr>procs := (procs s1)[pr := (procs s1 ! pr)\<lparr>ofile := (ofile (procs s1 ! pr))[d := Some a]\<rparr>]\<rparr>"
    have "free_fd (ofile (procs ?s2 ! pr)) = None"
      using few free_fd_SomeD[OF Some] c1 s1(5) len
      by (auto simp: free_fd_def find_None_iff nth_list_update)
    then have "fdalloc b ?s2 = Done None ?s2" using fdalloc_eq[of ?s2 pr b] c1 by simp
    moreover have "fdalloc a s1 = Done (Some d) ?s2" using fdalloc_eq[OF c1, of a] Some s1(5) by simp
    moreover have "fdclear d ?s2 = Done () s1" using fdclear_fdalloc[OF c1, of d a] Some s1(5) by simp
    ultimately show ?thesis using arg s1(1) cl by (simp add: sys_pipe_def)
  qed
  then show ?thesis using cl refs os by blast
qed

text \<open>The process of \<open>usr_demo\<close> with one free descriptor, and one free page at \<open>0x80300000\<close>.\<close>

definition full_demo :: kern where
  "full_demo = usr_demo\<lparr>procs := [(procs usr_demo ! 0)\<lparr>ofile := (replicate NOFILE (Some 9))[3 := None]\<rparr>], freelist := 0x80300000\<rparr>"

lemma full_demo_quiet: "quiet full_demo"
  using quiet_kern_demo by (simp add: full_demo_def usr_demo_def quiet_def)

lemma full_demo_inv: "kmem_inv full_demo [0x80300000]"
  using kern_demo_inv
  by (simp add: full_demo_def kmem_inv_def page_ok_def usr_demo_def usr_mem_def ld32_def st32_def mem_store_def le32_def)

lemma full_demo_sel [simp]:
  "cpu full_demo = cpu usr_demo" "length (procs full_demo) = 1" "tf_esp (tf (procs full_demo ! 0)) = 0"
  "sz (procs full_demo ! 0) = 32" "ftable full_demo = [file0, file0]"
  "ofile (procs full_demo ! 0) = (replicate NOFILE (Some 9))[3 := None]"
  by (simp_all add: full_demo_def usr_demo_def proc0_def tf0_def)

lemma user_byte_cong: "mem s = mem t \<Longrightarrow> cr3 s = cr3 t \<Longrightarrow> user_byte s va = user_byte t va"
  by (simp add: user_byte_def user_addr_def Let_def)

lemma user_bytes_cong: "mem s = mem t \<Longrightarrow> cr3 s = cr3 t \<Longrightarrow> user_bytes s va n = user_bytes t va n"
proof (induction n arbitrary: va)
  case (Suc n)
  then show ?case using user_byte_cong[OF Suc.prems, of va] by (simp split: option.split)
qed simp

lemma full_demo_arg: "argptr 0 8 full_demo = Done (Some 16) full_demo"
proof -
  have "user_bytes full_demo 4 4 = user_bytes usr_demo 4 4" by (rule user_bytes_cong) (simp_all add: full_demo_def)
  then have "user_bytes full_demo 4 4 = le32 16" using usr_demo_words(1) by simp
  then have "argint 0 full_demo = Done (Some 16) full_demo"
    by (simp add: argint_def fetchint_def with_proc_def rd32_def rd16_def le32_def)
  then show ?thesis by (simp add: argptr_def with_proc_def)
qed

theorem sys_pipe_error_witness:
  "\<exists>s'. sys_pipe full_demo = Done (- 1) s' \<and> kmem_inv s' [0x80300000] \<and> map f_ref (ftable s') = [0, 0]"
proof -
  have cur: "curproc (cpu full_demo) = Some 0" "0 < length (procs full_demo)" and n: "3 < NOFILE"
    by (simp_all add: NOFILE_def)
  have "\<exists>s'. sys_pipe full_demo = Done (- 1) s' \<and> quiet s' \<and> kmem_inv s' [0x80300000] \<and> pipes s' (unat (0x80300000 :: uint)) = None \<and>
    map f_ref (ftable s') = map f_ref (ftable full_demo) \<and> ofile (procs s' ! 0) = ofile (procs full_demo ! 0)"
    by (rule sys_pipe_error[OF full_demo_quiet cur full_demo_arg full_demo_inv, where a = 0 and b = 1])
      (auto simp: file0_def upt_rec n nth_list_update split: if_splits)
  then show ?thesis by (auto simp: file0_def)
qed

text \<open>
  C25: \<open>dup\<close> and \<open>close\<close> are inverse.  \<open>dup\<close> of an open descriptor gives the lowest free descriptor, which then
  names the same file, and adds one reference to that file; nothing else changes.  Closing the new descriptor,
  whatever else the process has stored in its memory in between, restores the state before the \<open>dup\<close>.
\<close>

theorem dup_close_roundtrip:
  assumes q: "quiet s" and cur: "curproc (cpu s) = Some p" "p < length (procs s)"
    and arg: "argfd 0 s = Done (Some (d0, f)) s"
    and d: "free_fd (ofile (procs s ! p)) = Some d" "length (ofile (procs s ! p)) = NOFILE"
    and f: "f < length (ftable s)" "1 \<le> f_ref (ftable s ! f)"
  shows "\<exists>s'. sys_dup s = Done (int d) s' \<and> (\<forall>e<d. ofile (procs s ! p) ! e \<noteq> None) \<and>
    ofile (procs s' ! p) = (ofile (procs s ! p))[d := Some f] \<and> f_ref (ftable s' ! f) = f_ref (ftable s ! f) + 1 \<and>
    (\<forall>m. argfd 0 (s'\<lparr>mem := m\<rparr>) = Done (Some (d, f)) (s'\<lparr>mem := m\<rparr>) \<longrightarrow> sys_close (s'\<lparr>mem := m\<rparr>) = Done 0 (s\<lparr>mem := m\<rparr>))"
proof -
  let ?r = "procs s ! p" and ?g = "ftable s ! f"
  define s1 where "s1 = s\<lparr>procs := (procs s)[p := ?r\<lparr>ofile := (ofile ?r)[d := Some f]\<rparr>]\<rparr>"
  define s2 where "s2 = s1\<lparr>ftable := (ftable s)[f := ?g\<lparr>f_ref := f_ref ?g + 1\<rparr>]\<rparr>"
  have a: "fdalloc f s = Done (Some d) s1" using fdalloc_eq[OF cur, of f] d by (simp add: s1_def)
  have "filedup f s1 = Done f s2" using q f by (simp add: filedup_def s1_def s2_def with_file_def upd_file_def lock_simps)
  then have "sys_dup s = Done (int d) s2" using arg a by (simp add: sys_dup_def)
  moreover have "sys_close (s2\<lparr>mem := m\<rparr>) = Done 0 (s\<lparr>mem := m\<rparr>)"
    if c: "argfd 0 (s2\<lparr>mem := m\<rparr>) = Done (Some (d, f)) (s2\<lparr>mem := m\<rparr>)" for m
  proof -
    define t where "t = s\<lparr>ftable := (ftable s)[f := ?g\<lparr>f_ref := f_ref ?g + 1\<rparr>], mem := m\<rparr>"
    have t: "curproc (cpu t) = Some p" "p < length (procs t)" "procs t = procs s" "quiet t" using cur q by (simp_all add: t_def)
    have e: "s2\<lparr>mem := m\<rparr> = t\<lparr>procs := (procs t)[p := (procs t ! p)\<lparr>ofile := (ofile (procs t ! p))[d := Some f]\<rparr>]\<rparr>"
      by (rule kern.equality) (simp_all add: t_def s2_def s1_def)
    have "fdclear d (s2\<lparr>mem := m\<rparr>) = Done () t"
      unfolding e using fdclear_fdalloc[OF t(1,2), of d f] d t(3) by simp
    moreover have "fileclose f t = Done () (s\<lparr>mem := m\<rparr>)"
      using fileclose_shared[OF t(4), of f] f by (auto simp: t_def intro!: kern.equality)
    ultimately show ?thesis using c by (simp add: sys_close_def)
  qed
  ultimately show ?thesis using free_fd_SomeD[OF d(1)] cur f by (auto simp: s2_def s1_def)
qed

text \<open>The process of \<open>usr_demo\<close> with its arguments at another place: the first argument is 0.\<close>

definition dup_demo :: kern where
  "dup_demo = usr_demo\<lparr>procs := [(procs usr_demo ! 0)\<lparr>tf := tf0\<lparr>tf_esp := 8\<rparr>, ofile := (replicate NOFILE None)[0 := Some 1]\<rparr>],
     ftable := [file0, file0\<lparr>f_ref := 1\<rparr>]\<rparr>"

lemma dup_demo_sel [simp]:
  "cpu dup_demo = cpu usr_demo" "ftable dup_demo = [file0, file0\<lparr>f_ref := 1\<rparr>]" "length (procs dup_demo) = 1"
  "tf_esp (tf (procs dup_demo ! 0)) = 8" "sz (procs dup_demo ! 0) = 32"
  "ofile (procs dup_demo ! 0) = (replicate NOFILE None)[0 := Some 1]"
  by (simp_all add: dup_demo_def proc0_def)

lemma dup_demo_arg: "argfd 0 dup_demo = Done (Some (0, 1)) dup_demo"
proof -
  have b: "user_bytes dup_demo 12 4 = user_bytes usr_demo 12 4" by (rule user_bytes_cong) (simp_all add: dup_demo_def)
  have "map usr_mem [0x8020000C, 0x8020000D, 0x8020000E, 0x8020000F] = le32 0"
    by (simp add: usr_mem_def mem_store_def le32_def)
  then have "user_bytes dup_demo 12 4 = le32 0" unfolding b by (simp add: user_bytes_4 usr_demo_byte)
  then have "argint 0 dup_demo = Done (Some 0) dup_demo"
    by (simp add: argint_def fetchint_def with_proc_def rd32_def rd16_def le32_def)
  then show ?thesis by (simp add: argfd_def with_proc_def NOFILE_def)
qed

theorem dup_close_roundtrip_witness:
  "\<exists>s'. sys_dup dup_demo = Done 1 s' \<and> ofile (procs s' ! 0) ! 1 = Some 1 \<and> f_ref (ftable s' ! 1) = 2"
proof -
  have q: "quiet dup_demo" using quiet_kern_demo by (simp add: dup_demo_def usr_demo_def quiet_def)
  have d: "free_fd (ofile (procs dup_demo ! 0)) = Some 1" by (simp add: free_fd_def NOFILE_def upt_rec)
  have "\<exists>s'. sys_dup dup_demo = Done (int 1) s' \<and> (\<forall>e<1. ofile (procs dup_demo ! 0) ! e \<noteq> None) \<and>
    ofile (procs s' ! 0) = (ofile (procs dup_demo ! 0))[1 := Some 1] \<and> f_ref (ftable s' ! 1) = f_ref (ftable dup_demo ! 1) + 1 \<and>
    (\<forall>m. argfd 0 (s'\<lparr>mem := m\<rparr>) = Done (Some (1, 1)) (s'\<lparr>mem := m\<rparr>) \<longrightarrow> sys_close (s'\<lparr>mem := m\<rparr>) = Done 0 (dup_demo\<lparr>mem := m\<rparr>))"
    by (rule dup_close_roundtrip[OF q _ _ dup_demo_arg d]) (simp_all add: NOFILE_def)
  then show ?thesis by (auto simp: NOFILE_def)
qed

end
