(* ===== verification/Exec.thy ===== *)
theory Exec
  imports Sysfile
begin

text \<open>
  \<^verbatim>\<open>exec.c\<close>, with \<open>loaduvm\<close> of \<^verbatim>\<open>vm.c\<close> and \<open>sys_exec\<close> of \<^verbatim>\<open>sysfile.c\<close>.

  The headers of the program file are decoded from the bytes \<open>readi\<close> gives.  The local variable \<^verbatim>\<open>elf\<close> is not
  initialised, and \<open>readi\<close> may fail without writing it, in which case the code goes on with what the stack
  held: \<open>junk\<close>, a parameter, is that old content.  The arguments are the strings before the null pointer
  that ends the argument vector.
\<close>

unbundle bit_operations_syntax

section \<open>Program files\<close>

definition ELF_MAGIC :: uint where "ELF_MAGIC = 0x464C457F"
definition ELF_PROG_LOAD :: uint where "ELF_PROG_LOAD = 1"

definition ELFHDR_SIZE :: nat where "ELFHDR_SIZE = 52"
definition PROGHDR_SIZE :: nat where "PROGHDR_SIZE = 32"

record elfhdr =
  e_magic :: uint
  e_entry :: uint
  e_phoff :: uint
  e_phnum :: nat

record proghdr =
  ph_type :: uint
  ph_off :: uint
  ph_vaddr :: uint
  ph_filesz :: uint
  ph_memsz :: uint

definition dec_elfhdr :: "bytes \<Rightarrow> elfhdr" where
  "dec_elfhdr d = \<lparr>e_magic = of_nat (rd32 d 0), e_entry = of_nat (rd32 d 24), e_phoff = of_nat (rd32 d 28),
     e_phnum = rd16 d 44\<rparr>"

definition dec_proghdr :: "bytes \<Rightarrow> proghdr" where
  "dec_proghdr d = \<lparr>ph_type = of_nat (rd32 d 0), ph_off = of_nat (rd32 d 4), ph_vaddr = of_nat (rd32 d 8),
     ph_filesz = of_nat (rd32 d 16), ph_memsz = of_nat (rd32 d 20)\<rparr>"

section \<open>Loading\<close>

text \<open>The loop of \<open>loaduvm\<close>, with fuel for every page of the address space and one more.\<close>

fun loaduvm_loop :: "nat \<Rightarrow> uint \<Rightarrow> uint \<Rightarrow> nat \<Rightarrow> uint \<Rightarrow> uint \<Rightarrow> uint \<Rightarrow> (int, 'a kern_scheme) kop" where
  "loaduvm_loop 0 pgd addr ip offset n i = (\<lambda>s. Spin)"
| "loaduvm_loop (Suc k) pgd addr ip offset n i =
     (if i < n
      then andthen (walkpgdir pgd (addr + i) False) (\<lambda>pte s.
        if pte = 0 then Panic ''loaduvm: address should exist''
        else let pa = PTE_ADDR (ld32 (mem s) pte); m = (if n - i < PGSIZE then n - i else PGSIZE)
          in andthen (readi ip (unat (offset + i)) (unat m)) (\<lambda>(r, bs).
             andthen (set_mem (\<lambda>mm. mem_store mm (p2v pa) bs)) (\<lambda>_.
             if of_int r \<noteq> m then ret (- 1)
             else loaduvm_loop k pgd addr ip offset n (i + PGSIZE))) s)
      else ret 0)"

definition loaduvm :: "uint \<Rightarrow> uint \<Rightarrow> nat \<Rightarrow> uint \<Rightarrow> uint \<Rightarrow> (int, 'a kern_scheme) kop" where
  "loaduvm pgd addr ip offset n =
     (if addr mod PGSIZE \<noteq> 0 then panic ''loaduvm: addr must be page aligned''
      else loaduvm_loop (Suc NPAGES) pgd addr ip offset n 0)"

text \<open>The label \<^verbatim>\<open>bad\<close>, with the page directory and the inode that are still to be given back.\<close>

definition exec_bad :: "uint \<Rightarrow> nat option \<Rightarrow> (int, 'a kern_scheme) kop" where
  "exec_bad pgd ip =
     andthen (if pgd \<noteq> 0 then freevm pgd else ret ()) (\<lambda>_.
     andthen (case ip of Some i \<Rightarrow> andthen (iunlockput i) (\<lambda>_. end_op) | None \<Rightarrow> ret ()) (\<lambda>_.
     ret (- 1)))"

text \<open>The loop over the \<open>k\<close> program headers at \<open>off\<close>: the new size, or none for a jump to \<^verbatim>\<open>bad\<close>.\<close>

fun load_segs :: "nat \<Rightarrow> uint \<Rightarrow> nat \<Rightarrow> uint \<Rightarrow> uint \<Rightarrow> (uint option, 'a kern_scheme) kop" where
  "load_segs 0 pgd ip off usz = ret (Some usz)"
| "load_segs (Suc k) pgd ip off usz =
     andthen (readi ip (unat off) PROGHDR_SIZE) (\<lambda>(r, bs).
     if r \<noteq> int PROGHDR_SIZE then ret None
     else let ph = dec_proghdr bs
       in if ph_type ph \<noteq> ELF_PROG_LOAD then load_segs k pgd ip (off + of_nat PROGHDR_SIZE) usz
       else if ph_memsz ph < ph_filesz ph then ret None
       else andthen (allocuvm pgd usz (ph_vaddr ph + ph_memsz ph)) (\<lambda>usz.
         if usz = 0 then ret None
         else andthen (loaduvm pgd (ph_vaddr ph) ip (ph_off ph) (ph_filesz ph)) (\<lambda>r.
           if r < 0 then ret None
           else load_segs k pgd ip (off + of_nat PROGHDR_SIZE) usz)))"

section \<open>The new stack\<close>

text \<open>
  The loop that copies the argument strings: \<open>argc\<close> and the addresses so far are \<open>acc\<close>; the result is the
  stack pointer and all addresses, or none for a jump to \<^verbatim>\<open>bad\<close>.
\<close>

fun push_args :: "uint \<Rightarrow> uint \<Rightarrow> bytes list \<Rightarrow> uint list \<Rightarrow> ((uint \<times> uint list) option, 'a kern_scheme) kop" where
  "push_args pgd sp [] acc = ret (Some (sp, acc))"
| "push_args pgd sp (a # as) acc =
     (if MAXARG \<le> length acc then ret None
      else let sp = (sp - of_nat (length a + 1)) AND NOT 3
        in andthen (copyout pgd sp (a @ [0])) (\<lambda>r.
           if r < 0 then ret None else push_args pgd sp as (acc @ [sp])))"

definition ustack :: "uint \<Rightarrow> uint list \<Rightarrow> uint list" where
  "ustack sp args = [0xffffffff, of_nat (length args), sp - of_nat ((length args + 1) * 4)] @ args @ [0]"

text \<open>The name of the program: the part of the path after the last slash.\<close>

fun last_elem :: "bytes \<Rightarrow> bytes \<Rightarrow> bytes" where
  "last_elem l [] = l"
| "last_elem l (c # cs) = last_elem (if c = slash then cs else l) cs"

section \<open>exec\<close>

text \<open>What follows the loading of the segments: the stack, the commit and the old image.\<close>

definition exec_finish :: "bytes \<Rightarrow> bytes list \<Rightarrow> uint \<Rightarrow> uint \<Rightarrow> uint \<Rightarrow> (int, 'a kern_scheme) kop" where
  "exec_finish path argv pgd entry usz =
     (let usz = PGROUNDUP usz
      in andthen (allocuvm pgd usz (usz + 2 * PGSIZE)) (\<lambda>usz.
      if usz = 0 then exec_bad pgd None
      else
        andthen (clearpteu pgd (usz - 2 * PGSIZE)) (\<lambda>_.
        andthen (push_args pgd usz argv []) (\<lambda>res.
        case res of
          None \<Rightarrow> exec_bad pgd None
        | Some (sp, args) \<Rightarrow>
            (let us = ustack sp args; sp = sp - of_nat (4 * length us)
             in andthen (copyout pgd sp (concat (map le32 us))) (\<lambda>r.
             if r < 0 then exec_bad pgd None
             else with_proc (\<lambda>p s.
               let oldpgd = pgdir (procs s ! p)
               in andthen (upd_proc p (\<lambda>q. q\<lparr>pname := take 15 (map (\<lambda>c. char_of (unat c)) (last_elem path path)),
                    pgdir := pgd, sz := usz, tf := (tf q)\<lparr>tf_eip := entry, tf_esp := sp\<rparr>\<rparr>)) (\<lambda>_.
                  andthen (switchuvm p) (\<lambda>_.
                  andthen (freevm oldpgd) (\<lambda>_.
                  ret 0))) s)))))))"

text \<open>
  The test of the result of \<open>readi\<close> compares unsigned numbers: -1 passes it.
\<close>

definition exec :: "bytes \<Rightarrow> bytes \<Rightarrow> bytes list \<Rightarrow> (int, 'a kern_scheme) kop" where
  "exec junk path argv =
     andthen begin_op (\<lambda>_.
     andthen (namei path) (\<lambda>res.
     case res of None \<Rightarrow> andthen end_op (\<lambda>_. ret (- 1)) | Some ip \<Rightarrow>
     andthen (ilock ip) (\<lambda>_.
     andthen (readi ip 0 ELFHDR_SIZE) (\<lambda>(r, bs).
     let elf = dec_elfhdr (blit junk 0 bs)
     in if u32 r < ELFHDR_SIZE \<or> e_magic elf \<noteq> ELF_MAGIC then exec_bad 0 (Some ip)
     else
       andthen setupkvm (\<lambda>pgd.
       if pgd = 0 then exec_bad 0 (Some ip)
       else
         andthen (load_segs (e_phnum elf) pgd ip (e_phoff elf) 0) (\<lambda>res.
         case res of
           None \<Rightarrow> exec_bad pgd (Some ip)
         | Some usz \<Rightarrow>
             andthen (iunlockput ip) (\<lambda>_.
             andthen end_op (\<lambda>_.
             exec_finish path argv pgd (e_entry elf) usz))))))))"

section \<open>The system call\<close>

text \<open>The loop of \<open>sys_exec\<close> over the argument vector, with room for \<open>k\<close> more pointers.\<close>

fun sys_exec_args :: "nat \<Rightarrow> uint \<Rightarrow> bytes list \<Rightarrow> (bytes list option, 'a kern_scheme) kop" where
  "sys_exec_args 0 uargv acc = ret None"
| "sys_exec_args (Suc k) uargv acc =
     andthen (fetchint uargv) (\<lambda>res.
     case res of None \<Rightarrow> ret None | Some uarg \<Rightarrow>
     if uarg = 0 then ret (Some acc)
     else andthen (fetchstr uarg) (\<lambda>str.
       case str of None \<Rightarrow> ret None | Some a \<Rightarrow> sys_exec_args k (uargv + 4) (acc @ [a])))"

definition sys_exec :: "bytes \<Rightarrow> (int, 'a kern_scheme) kop" where
  "sys_exec junk =
     andthen (argstr 0) (\<lambda>r0.
     case r0 of None \<Rightarrow> ret (- 1) | Some path \<Rightarrow>
     andthen (argint 1) (\<lambda>r1.
     case r1 of None \<Rightarrow> ret (- 1) | Some uargv \<Rightarrow>
     andthen (sys_exec_args MAXARG uargv []) (\<lambda>args.
     case args of None \<Rightarrow> ret (- 1) | Some argv \<Rightarrow> exec junk path argv)))"

section \<open>Inodes with balanced locks\<close>

lemma idup_quiet:
  assumes "quiet s" "ip < length (icache s)"
  shows "idup ip s = Done ip (s\<lparr>icache := (icache s)[ip := (icache s ! ip)\<lparr>i_ref := i_ref (icache s ! ip) + 1\<rparr>]\<rparr>)"
  using assms by (simp add: idup_def upd_inode_def lock_simps)

lemma ilock_valid:
  assumes "quiet s" "ip < length (icache s)" "1 \<le> i_ref (icache s ! ip)" "i_valid (icache s ! ip)" "\<not> i_busy (icache s ! ip)"
  shows "ilock ip s = Done () (s\<lparr>icache := (icache s)[ip := (icache s ! ip)\<lparr>i_busy := True\<rparr>]\<rparr>)"
proof -
  define s' where "s' = s\<lparr>icache := (icache s)[ip := (icache s ! ip)\<lparr>i_busy := True\<rparr>]\<rparr>"
  have "ilock_load ip s' = Done () s'" using assms by (simp add: ilock_load_def with_inode_def s'_def)
  moreover have "quiet s'" using assms by (simp add: s'_def)
  ultimately show ?thesis using assms
    by (simp add: ilock_def ilock_wait_def with_inode_def upd_inode_def lock_simps s'_def[symmetric])
qed

lemma iunlock_quiet:
  assumes "quiet s" "ip < length (icache s)" "1 \<le> i_ref (icache s ! ip)" "i_busy (icache s ! ip)"
  shows "iunlock ip s = Done () (s\<lparr>icache := (icache s)[ip := (icache s ! ip)\<lparr>i_busy := False\<rparr>],
    procs := map (wake_proc (InodeChan ip)) (procs s)\<rparr>)"
  using assms by (simp add: iunlock_def with_inode_def upd_inode_def lock_simps)

section \<open>An example\<close>

text \<open>A process whose current directory entry is an empty file, which is not a program.\<close>

definition exec_demo :: kern where
  "exec_demo = exit_demo\<lparr>icache := [inode0\<lparr>i_ref := 2, i_valid := True, i_type := T_FILE, i_nlink := 1\<rparr>]\<rparr>"

lemma namex_loop_Nil: "namex_loop False ip [] name = ret (Some ip, name)"
  by (subst namex_loop.simps) (simp add: skipelem_def)

lemma readi_loop_0: "readi_loop ip 0 tot off dst = ret dst"
  by (subst readi_loop.simps) simp

lemma exec_demo_fails: "\<exists>s'. exec junk [] argv exec_demo = Done (- 1) s'"
proof -
  define r where "r = inode0\<lparr>i_ref := 3, i_valid := True, i_type := T_FILE, i_nlink := 1\<rparr>"
  define s1 where "s1 = exec_demo\<lparr>log_outstanding := 2\<rparr>"
  define s2 where "s2 = s1\<lparr>icache := [r]\<rparr>"
  define s3 where "s3 = s1\<lparr>icache := [r\<lparr>i_busy := True\<rparr>]\<rparr>"
  have q: "quiet exec_demo" by (simp add: exec_demo_def)
  have q1: "quiet s1" "quiet s2" "quiet s3" using q by (simp_all add: s1_def s2_def s3_def)
  have p1: "curproc (cpu s1) = Some 1" "procs s1 = procs exit_demo" "log_committing s1 = False" "lh_n s1 = 0"
    by (simp_all add: s1_def exec_demo_def)
  have b: "begin_op exec_demo = Done () s1"
    using begin_op_eq[OF q, of 1] by (simp add: exec_demo_def s1_def LOGSIZE_def MAXOPBLOCKS_def)
  have "idup 0 s1 = Done 0 s2"
    using idup_quiet[OF q1(1), of 0] by (simp add: s2_def r_def s1_def exec_demo_def)
  moreover have "curproc (cpu s1) = Some 1 \<and> 1 < length (procs s1) \<and> cwd (procs s1 ! 1) = Some 0" by (simp add: p1)
  ultimately have n: "namei [] s1 = Done (Some 0) s2"
    by (simp add: namei_def namex_def with_proc_def namex_loop_Nil)
  have l: "ilock 0 s2 = Done () s3"
    using ilock_valid[OF q1(2), of 0] by (simp add: s2_def s3_def r_def inode0_def)
  have rd: "readi 0 0 ELFHDR_SIZE s3 = Done (0, []) s3"
    by (simp add: readi_def with_inode_def s3_def r_def inode0_def T_FILE_def T_DEV_def two32_def ELFHDR_SIZE_def readi_loop_0 s32_def)
  have q4: "quiet (s3\<lparr>icache := [r], procs := ps\<rparr>)" for ps using q1 by simp
  have u: "iunlock 0 s3 = Done () (s3\<lparr>icache := [r], procs := map (wake_proc (InodeChan 0)) (procs s3)\<rparr>)"
    using iunlock_quiet[OF q1(3), of 0] by (simp add: s3_def r_def inode0_def)
  define s4 where "s4 = s3\<lparr>icache := [r\<lparr>i_ref := 2\<rparr>], procs := map (wake_proc (InodeChan 0)) (procs s3)\<rparr>"
  have i: "iput 0 (s3\<lparr>icache := [r], procs := map (wake_proc (InodeChan 0)) (procs s3)\<rparr>) = Done () s4"
    using iput_shared[OF q4, of 0] by (simp add: r_def s4_def s3_def)
  have "quiet s4" "lh_n s4 = 0" "\<not> log_committing s4" using q1 p1 by (simp_all add: s4_def s3_def)
  then obtain s5 where e: "end_op s4 = Done () s5" using end_op_empty by blast
  show ?thesis
    using rd by (simp add: exec_def b n l exec_bad_def iunlockput_def u i e u32_def ELFHDR_SIZE_def)
qed

end
