(* ===== verification/Frame.thy ===== *)
theory Frame
  imports Exec
begin

text \<open>
  What the kernel leaves alone.  \<open>image\<close> is what a process is to itself: its size, page table, kernel stack,
  saved registers and name, together with which process is running.  \<open>keeps image v r\<close> says that the outcome
  \<open>r\<close>, if it is a return or a switch, is in a state with image \<open>v\<close>; panics, endless loops and faults keep
  everything.  The collection \<open>keep\<close> has one lemma per operation.

  Shown: no operation of the file system, of the pipes or of the memory allocator changes the image of a
  process, and \<open>exec\<close> is atomic: when it fails, the calling process is as it was.
\<close>

definition keeps :: "('s \<Rightarrow> 'v) \<Rightarrow> 'v \<Rightarrow> ('a, 's) outcome \<Rightarrow> bool" where
  "keeps g v r \<longleftrightarrow> (case r of Done a s \<Rightarrow> g s = v | Switch s \<Rightarrow> g s = v | _ \<Rightarrow> True)"

named_theorems keep \<open>operations that keep the image\<close>

lemma keeps_simps [simp]:
  "keeps g v (Done a s) = (g s = v)" "keeps g v (Switch s) = (g s = v)" "keeps g v (Panic m)" "keeps g v Spin" "keeps g v Fault"
  by (simp_all add: keeps_def)

lemma keeps_andthen [keep]:
  "keeps g v (f s) \<Longrightarrow> (\<And>a t. g t = v \<Longrightarrow> keeps g v (k a t)) \<Longrightarrow> keeps g v (andthen f k s)"
  by (cases "f s") (simp_all add: andthen_def)

text \<open>The rule for sequencing is used instead of computing the first operation.\<close>

declare andthen_Done [simp del] andthen_Panic [simp del] andthen_Switch [simp del] andthen_Spin [simp del] andthen_Fault [simp del]

lemma keeps_for_each:
  "(\<And>x t. g t = v \<Longrightarrow> keeps g v (b x t)) \<Longrightarrow> g s = v \<Longrightarrow> keeps g v (for_each xs b s)"
  by (induction xs arbitrary: s) (auto intro!: keeps_andthen)

lemma keeps_DoneD: "keeps g v r \<Longrightarrow> r = Done a s \<Longrightarrow> g s = v"
  by simp

section \<open>The image of the processes\<close>

type_synonym proc_image = "uint \<times> uint \<times> uint \<times> trapframe \<times> string"

definition proc_image :: "proc \<Rightarrow> proc_image" where
  "proc_image p = (sz p, pgdir p, kstack p, tf p, pname p)"

definition image :: "'a ptab_scheme \<Rightarrow> nat option \<times> proc_image list" where
  "image s = (curproc (cpu s), map proc_image (procs s))"

lemma image_procs: "map proc_image ps = map proc_image (procs s) \<Longrightarrow> image (s\<lparr>procs := ps\<rparr>) = image s"
  by (simp add: image_def)

lemma image_upd_proc:
  "(\<And>r. proc_image (f r) = proc_image r) \<Longrightarrow> image (s\<lparr>procs := (procs s)[p := f (procs s ! p)]\<rparr>) = image s"
  by (rule image_procs, cases "p < length (procs s)") (auto simp: list_eq_iff_nth_eq nth_list_update)

lemma proc_image_upd [simp]:
  "proc_image (p\<lparr>pstate := a\<rparr>) = proc_image p" "proc_image (p\<lparr>chan := b\<rparr>) = proc_image p" "proc_image (p\<lparr>killed := c\<rparr>) = proc_image p"
  "proc_image (p\<lparr>ofile := d\<rparr>) = proc_image p" "proc_image (p\<lparr>cwd := e\<rparr>) = proc_image p"
  by (simp_all add: proc_image_def)

lemma image_upd [simp]:
  "image (s\<lparr>locks := l\<rparr>) = image s" "image (s\<lparr>uart_out := u\<rparr>) = image s" "image (s\<lparr>crt := c\<rparr>) = image s"
  "image (s\<lparr>crt_pos := i\<rparr>) = image s"
  by (simp_all add: image_def)

lemma image_upd_mem [simp]:
  "image (s\<lparr>mem := m\<rparr>) = image s" "image (s\<lparr>freelist := f\<rparr>) = image s"
  "image (t\<lparr>bufs := b\<rparr>) = image t" "image (t\<lparr>memdisk := d\<rparr>) = image t" "image (t\<lparr>dtrace := e\<rparr>) = image t"
  by (simp_all add: image_def)

lemma image_upd_log [simp]:
  "image (s\<lparr>lh_n := n\<rparr>) = image s" "image (s\<lparr>lh_block := b\<rparr>) = image s" "image (s\<lparr>log_outstanding := i\<rparr>) = image s"
  "image (s\<lparr>log_committing := c\<rparr>) = image s" "image (t\<lparr>icache := x\<rparr>) = image t" "image (t\<lparr>sb := y\<rparr>) = image t"
  "image (t\<lparr>input_r := z\<rparr>) = image t"
  by (simp_all add: image_def)

lemma image_upd_kern [simp]:
  "image (s\<lparr>ftable := t\<rparr>) = image s" "image (s\<lparr>pipes := p\<rparr>) = image s"
  by (simp_all add: image_def)

lemma proc_image_wake [simp]: "proc_image (wake_proc ch p) = proc_image p"
  by (simp add: wake_proc_def)

section \<open>Locks, sleeping and the console\<close>

lemma curproc_pushcli [simp]: "curproc (pushcli_cpu c) = curproc c"
  by (simp add: pushcli_cpu_def Let_def)

lemma curproc_popcli: "popcli_cpu c = Inr c' \<Longrightarrow> curproc c' = curproc c"
  by (auto simp: popcli_cpu_def Let_def split: if_splits)

lemma pushcli_keep [keep]: "image s = v \<Longrightarrow> keeps image v (pushcli s)"
  by (auto simp: pushcli_def image_def)

lemma popcli_keep [keep]: "image s = v \<Longrightarrow> keeps image v (popcli s)"
  by (auto simp: popcli_def image_def curproc_popcli split: sum.splits)

lemma acquire_keep [keep]: "image s = v \<Longrightarrow> keeps image v (acquire l s)"
  unfolding acquire_def by (auto intro!: keep)

lemma release_keep [keep]: "image s = v \<Longrightarrow> keeps image v (release l s)"
  unfolding release_def by (auto intro!: keep)

lemma initlock_keep [keep]: "image s = v \<Longrightarrow> keeps image v (initlock l s)"
  by (simp add: initlock_def)

lemma wakeup_keep [keep]: "image s = v \<Longrightarrow> keeps image v (wakeup ch s)"
  unfolding wakeup_def wakeup1_def by (auto intro!: keep simp: image_def o_def)

lemma with_proc_keep [keep]:
  "image s = v \<Longrightarrow> (\<And>p. p < length (procs s) \<Longrightarrow> curproc (cpu s) = Some p \<Longrightarrow> keeps image v (f p s)) \<Longrightarrow>
   keeps image v (with_proc f s)"
  by (auto simp: with_proc_def split: option.splits)

lemma sched_keep [keep]: "image s = v \<Longrightarrow> keeps image v (sched s)"
  by (simp add: sched_def with_proc_def split: option.split)

lemma upd_proc_keep [keep]:
  "image s = v \<Longrightarrow> (\<And>r. proc_image (f r) = proc_image r) \<Longrightarrow> keeps image v (upd_proc p f s)"
  by (simp add: upd_proc_def image_upd_proc)

lemma sleep_keep [keep]: "image s = v \<Longrightarrow> keeps image v (sleep ch lk s)"
  unfolding sleep_def by (auto intro!: keep)

lemma crt_store_keep [keep]: "image s = v \<Longrightarrow> keeps image v (crt_store i c s)"
  by (simp add: crt_store_def)

lemma uartputc_keep [keep]: "image s = v \<Longrightarrow> keeps image v (uartputc c s)"
  by (simp add: uartputc_def)

lemma cga_move_keep [keep]: "image s = v \<Longrightarrow> keeps image v (cga_move c pos s)"
  unfolding cga_move_def by (auto intro!: keep)

lemma cga_finish_keep [keep]: "image s = v \<Longrightarrow> keeps image v (cga_finish pos s)"
  unfolding cga_finish_def by (auto intro!: keep)

lemma cgaputc_keep [keep]: "image s = v \<Longrightarrow> keeps image v (cgaputc c s)"
  unfolding cgaputc_def by (auto intro!: keep)

lemma consputc_keep [keep]: "image s = v \<Longrightarrow> keeps image v (consputc c s)"
  unfolding consputc_def by (auto intro!: keep)

lemma cprintf_keep [keep]: "image s = v \<Longrightarrow> keeps image v (cprintf fmt args s)"
  unfolding cprintf_def consputs_def by (auto intro!: keep keeps_for_each split: option.splits)

section \<open>Memory\<close>

lemma kalloc_keep [keep]: "image s = v \<Longrightarrow> keeps image v (kalloc s)"
  unfolding kalloc_def by (auto intro!: keep)

lemma kfree_keep [keep]: "image s = v \<Longrightarrow> keeps image v (kfree p s)"
  unfolding kfree_def by (auto intro!: keep)

lemma walkpgdir_keep [keep]: "image s = v \<Longrightarrow> keeps image v (walkpgdir pgd va alloc s)"
  unfolding walkpgdir_def by (auto intro!: keep simp: Let_def)

lemma mappages_keep [keep]: "image s = v \<Longrightarrow> keeps image v (mappages pgd va n pa perm s)"
proof -
  have "image s = v \<Longrightarrow> keeps image v (mappages_loop k pgd a l pa perm s)" for k a l pa and s :: "'a kmem_scheme"
    by (induction k arbitrary: a pa s) (auto intro!: keep)
  then show "image s = v \<Longrightarrow> keeps image v (mappages pgd va n pa perm s)" by (simp add: mappages_def)
qed

lemma setupkvm_keep [keep]: "image s = v \<Longrightarrow> keeps image v (setupkvm s)"
proof -
  have "image s = v \<Longrightarrow> keeps image v (kmap_all pgd ks s)" for pgd ks and s :: "'a kmem_scheme"
    by (induction ks arbitrary: s) (auto intro!: keep)
  then show "image s = v \<Longrightarrow> keeps image v (setupkvm s)" unfolding setupkvm_def by (auto intro!: keep)
qed

lemma deallocuvm_keep [keep]: "image s = v \<Longrightarrow> keeps image v (deallocuvm pgd o' n s)"
proof -
  have "image s = v \<Longrightarrow> keeps image v (deallocuvm_loop k pgd a o' s)" for k a and s :: "'a kmem_scheme"
    by (induction k arbitrary: a s) (auto intro!: keep simp: Let_def)
  then show "image s = v \<Longrightarrow> keeps image v (deallocuvm pgd o' n s)" unfolding deallocuvm_def by (auto intro!: keep)
qed

lemma allocuvm_keep [keep]: "image s = v \<Longrightarrow> keeps image v (allocuvm pgd o' n s)"
proof -
  have "image s = v \<Longrightarrow> keeps image v (allocuvm_loop k pgd a o' n s)" for k a and s :: "'a kmem_scheme"
    by (induction k arbitrary: a s) (auto intro!: keep)
  then show "image s = v \<Longrightarrow> keeps image v (allocuvm pgd o' n s)" unfolding allocuvm_def by auto
qed

lemma freevm_keep [keep]: "image s = v \<Longrightarrow> keeps image v (freevm pgd s)"
  unfolding freevm_def by (auto intro!: keep keeps_for_each simp: Let_def)

lemma clearpteu_keep [keep]: "image s = v \<Longrightarrow> keeps image v (clearpteu pgd va s)"
  unfolding clearpteu_def by (auto intro!: keep)

lemma uva2ka_keep [keep]: "image s = v \<Longrightarrow> keeps image v (uva2ka pgd va s)"
  unfolding uva2ka_def by (auto intro!: keep simp: Let_def)

lemma copyout_keep [keep]: "image s = v \<Longrightarrow> keeps image v (copyout pgd va bs s)"
proof (induction pgd va bs arbitrary: s rule: copyout.induct)
  case (1 pgd va bs)
  then show ?case by (subst copyout.simps) (auto intro!: keep simp: Let_def)
qed

section \<open>Buffers and the log\<close>

lemma with_buf_keep [keep]:
  "image s = v \<Longrightarrow> (\<And>b. keeps image v (f b s)) \<Longrightarrow> keeps image v (with_buf i f s)"
  by (simp add: with_buf_def)

lemma upd_buf_keep [keep]: "image s = v \<Longrightarrow> keeps image v (upd_buf i f s)"
  unfolding upd_buf_def by (auto intro!: keep)

lemma bget_loop_keep [keep]: "image s = v \<Longrightarrow> keeps image v (bget_loop d b s)"
  unfolding bget_loop_def by (rule keep, assumption) (auto intro!: keep split: option.splits)

lemma bget_keep [keep]: "image s = v \<Longrightarrow> keeps image v (bget d b s)"
  unfolding bget_def by (auto intro!: keep)

lemma iderw_keep [keep]: "image s = v \<Longrightarrow> keeps image v (iderw b s)"
  unfolding iderw_def by (auto intro!: keep)

lemma bread_keep [keep]: "image s = v \<Longrightarrow> keeps image v (bread d b s)"
  unfolding bread_def by (auto intro!: keep)

lemma bwrite_keep [keep]: "image s = v \<Longrightarrow> keeps image v (bwrite b s)"
  unfolding bwrite_def by (auto intro!: keep)

lemma brelse_keep [keep]: "image s = v \<Longrightarrow> keeps image v (brelse b s)"
  unfolding brelse_def by (auto intro!: keep)

lemma get_data_keep [keep]: "image s = v \<Longrightarrow> keeps image v (get_data b s)"
  unfolding get_data_def by (auto intro!: keep)

lemma set_data_keep [keep]: "image s = v \<Longrightarrow> keeps image v (set_data b d s)"
  unfolding set_data_def by (auto intro!: keep)

lemma set_dirty_keep [keep]: "image s = v \<Longrightarrow> keeps image v (set_dirty b s)"
  unfolding set_dirty_def by (auto intro!: keep)

lemma read_block_keep [keep]: "image s = v \<Longrightarrow> keeps image v (read_block d b s)"
  unfolding read_block_def read_blk_def by (auto intro!: keep)

lemma copy_keep [keep]:
  "image s = v \<Longrightarrow> keeps image v (copy_in (bread d) get_data set_data bwrite brelse b c s)"
  "image s = v \<Longrightarrow> keeps image v (copy_out (bread d) get_data set_data bwrite brelse b c s)"
  unfolding copy_in_def copy_out_def by (auto intro!: keep)

lemma write_head_keep [keep]: "image s = v \<Longrightarrow> keeps image v (write_head s)"
  unfolding write_head_def by (auto intro!: keep)

lemma commit_keep [keep]: "image s = v \<Longrightarrow> keeps image v (commit s)"
  unfolding commit_def write_log_def install_trans_def by (auto intro!: keep keeps_for_each)

lemma begin_op_keep [keep]: "image s = v \<Longrightarrow> keeps image v (begin_op s)"
  unfolding begin_op_def begin_op_loop_def by (auto intro!: keep)

lemma end_op_keep [keep]: "image s = v \<Longrightarrow> keeps image v (end_op s)"
  unfolding end_op_def by (auto intro!: keep)

lemma log_write_keep [keep]: "image s = v \<Longrightarrow> keeps image v (log_write b s)"
  unfolding log_write_def by (auto intro!: keep simp: Let_def)

lemma update_block_keep [keep]: "image s = v \<Longrightarrow> keeps image v (update_block d b f s)"
  unfolding update_block_def by (auto intro!: keep)

section \<open>Inodes\<close>

lemma with_inode_keep [keep]:
  "image s = v \<Longrightarrow> (\<And>r. keeps image v (f r s)) \<Longrightarrow> keeps image v (with_inode i f s)"
  by (simp add: with_inode_def)

lemma upd_inode_keep [keep]: "image s = v \<Longrightarrow> keeps image v (upd_inode i f s)"
  by (simp add: upd_inode_def)

lemma balloc_keep [keep]: "image s = v \<Longrightarrow> keeps image v (balloc d s)"
proof -
  have "image s = v \<Longrightarrow> keeps image v (balloc_scan d bs s)" for bs and s :: "'a fs_scheme"
    by (induction bs arbitrary: s) (auto intro!: keep simp: bzero_def split: option.splits)
  then show "image s = v \<Longrightarrow> keeps image v (balloc d s)" by (simp add: balloc_def)
qed

lemma bfree_keep [keep]: "image s = v \<Longrightarrow> keeps image v (bfree d b s)"
  unfolding bfree_def readsb_def by (auto intro!: keep simp: Let_def)

lemma iget_keep [keep]: "image s = v \<Longrightarrow> keeps image v (iget d i s)"
  unfolding iget_def by (auto intro!: keep split: option.splits)

lemma ialloc_keep [keep]: "image s = v \<Longrightarrow> keeps image v (ialloc d t s)"
proof -
  have "image s = v \<Longrightarrow> keeps image v (ialloc_scan d t is s)" for "is" and s :: "'a fs_scheme"
    by (induction "is" arbitrary: s) (auto intro!: keep simp: Let_def)
  then show "image s = v \<Longrightarrow> keeps image v (ialloc d t s)" by (simp add: ialloc_def)
qed

lemma iupdate_keep [keep]: "image s = v \<Longrightarrow> keeps image v (iupdate i s)"
  unfolding iupdate_def by (auto intro!: keep)

lemma idup_keep [keep]: "image s = v \<Longrightarrow> keeps image v (idup i s)"
  unfolding idup_def by (auto intro!: keep)

lemma ilock_keep [keep]: "image s = v \<Longrightarrow> keeps image v (ilock i s)"
  unfolding ilock_def ilock_wait_def ilock_load_def by (auto intro!: keep)

lemma iunlock_keep [keep]: "image s = v \<Longrightarrow> keeps image v (iunlock i s)"
  unfolding iunlock_def by (auto intro!: keep)

lemma bmap_keep [keep]: "image s = v \<Longrightarrow> keeps image v (bmap i b s)"
  unfolding bmap_def by (auto intro!: keep simp: Let_def)

lemma itrunc_keep [keep]: "image s = v \<Longrightarrow> keeps image v (itrunc i s)"
  unfolding itrunc_def by (auto intro!: keep keeps_for_each)

lemma iput_keep [keep]: "image s = v \<Longrightarrow> keeps image v (iput i s)"
  unfolding iput_def by (auto intro!: keep)

lemma iunlockput_keep [keep]: "image s = v \<Longrightarrow> keeps image v (iunlockput i s)"
  unfolding iunlockput_def by (auto intro!: keep)

section \<open>Files and directories\<close>

lemma consoleread_keep [keep]: "image s = v \<Longrightarrow> keeps image v (consoleread i n s)"
proof -
  have "image s = v \<Longrightarrow> keeps image v (consoleread_loop i t k acc s)" for t k acc and s :: "'a fs_scheme"
    by (induction k arbitrary: acc s) (auto intro!: keep simp: consoleread_end_def Let_def)
  then show "image s = v \<Longrightarrow> keeps image v (consoleread i n s)" unfolding consoleread_def by (auto intro!: keep)
qed

lemma consolewrite_keep [keep]: "image s = v \<Longrightarrow> keeps image v (consolewrite i bs n s)"
  unfolding consolewrite_def by (auto intro!: keep keeps_for_each)

lemma readi_loop_keep [keep]: "image s = v \<Longrightarrow> keeps image v (readi_loop ip n tot off dst s)"
proof (induction ip n tot off dst arbitrary: s rule: readi_loop.induct)
  case (1 ip n tot off dst)
  then show ?case by (subst readi_loop.simps) (auto intro!: keep simp: Let_def)
qed

lemma readi_keep [keep]: "image s = v \<Longrightarrow> keeps image v (readi ip off n s)"
  unfolding readi_def by (auto intro!: keep simp: Let_def)

lemma writei_loop_keep [keep]: "image s = v \<Longrightarrow> keeps image v (writei_loop ip n tot off src s)"
proof (induction ip n tot off src arbitrary: s rule: writei_loop.induct)
  case (1 ip n tot off src)
  then show ?case by (subst writei_loop.simps) (auto intro!: keep simp: Let_def)
qed

lemma writei_keep [keep]: "image s = v \<Longrightarrow> keeps image v (writei ip src off n s)"
  unfolding writei_def by (auto intro!: keep)

lemma dirlookup_keep [keep]: "image s = v \<Longrightarrow> keeps image v (dirlookup dp name s)"
proof -
  have "image s = v \<Longrightarrow> keeps image v (dirlookup_loop dp name off n s)" for off n and s :: "'a fs_scheme"
  proof (induction dp name off n arbitrary: s rule: dirlookup_loop.induct)
    case (1 dp name off n)
    then show ?case by (subst dirlookup_loop.simps) (auto intro!: keep split: option.splits)
  qed
  then show "image s = v \<Longrightarrow> keeps image v (dirlookup dp name s)" unfolding dirlookup_def by (auto intro!: keep)
qed

lemma dirlink_free_keep [keep]: "image s = v \<Longrightarrow> keeps image v (dirlink_free dp off n s)"
proof (induction dp off n arbitrary: s rule: dirlink_free.induct)
  case (1 dp off n)
  then show ?case by (subst dirlink_free.simps) (auto intro!: keep)
qed

lemma dirlink_keep [keep]: "image s = v \<Longrightarrow> keeps image v (dirlink dp name i s)"
  unfolding dirlink_def by (auto intro!: keep split: option.splits)

lemma namex_loop_keep [keep]: "image s = v \<Longrightarrow> keeps image v (namex_loop par ip path name s)"
proof (induction par ip path name arbitrary: s rule: namex_loop.induct)
  case (1 par ip path name)
  then show ?case by (subst namex_loop.simps) (auto intro!: keep split: option.splits)
qed

lemma namex_keep [keep]: "image s = v \<Longrightarrow> keeps image v (namex path par name s)"
  unfolding namex_def by (auto intro!: keep split: option.splits)

lemma namei_keep [keep]: "image s = v \<Longrightarrow> keeps image v (namei path s)"
  unfolding namei_def by (auto intro!: keep)

lemma nameiparent_keep [keep]: "image s = v \<Longrightarrow> keeps image v (nameiparent path name s)"
  unfolding nameiparent_def by (auto intro!: keep)

section \<open>Loading a program\<close>

lemma loaduvm_keep [keep]: "image s = v \<Longrightarrow> keeps image v (loaduvm pgd a ip off n s)"
proof -
  have "image s = v \<Longrightarrow> keeps image v (loaduvm_loop k pgd a ip off n i s)" for k i and s :: "'a kern_scheme"
    by (induction k arbitrary: i s) (auto intro!: keep simp: Let_def)
  then show "image s = v \<Longrightarrow> keeps image v (loaduvm pgd a ip off n s)" unfolding loaduvm_def by (auto intro!: keep)
qed

lemma load_segs_keep [keep]: "image s = v \<Longrightarrow> keeps image v (load_segs k pgd ip off usz s)"
  by (induction k arbitrary: off usz s) (auto intro!: keep simp: Let_def)

lemma push_args_keep [keep]: "image s = v \<Longrightarrow> keeps image v (push_args pgd sp as acc s)"
  by (induction as arbitrary: sp acc s) (auto intro!: keep simp: Let_def)

lemma exec_bad_keep [keep]: "image s = v \<Longrightarrow> keeps image v (exec_bad pgd ip s)"
  unfolding exec_bad_def by (auto intro!: keep split: option.splits)

text \<open>\<open>keeps_err g v r\<close>: if \<open>r\<close> is the return of a negative number, the state has \<open>v\<close>.\<close>

definition keeps_err :: "('s \<Rightarrow> 'v) \<Rightarrow> 'v \<Rightarrow> (int, 's) outcome \<Rightarrow> bool" where
  "keeps_err g v r \<longleftrightarrow> (case r of Done a s \<Rightarrow> a < 0 \<longrightarrow> g s = v | _ \<Rightarrow> True)"

lemma keeps_err_Done: "keeps_err g v (Done a s) = (a < 0 \<longrightarrow> g s = v)"
  by (simp add: keeps_err_def)

lemma keeps_err_keeps: "keeps g v r \<Longrightarrow> keeps_err g v r"
  by (cases r) (simp_all add: keeps_err_def)

lemma keeps_err_andthen:
  "keeps g v (f s) \<Longrightarrow> (\<And>a t. g t = v \<Longrightarrow> keeps_err g v (k a t)) \<Longrightarrow> keeps_err g v (andthen f k s)"
  by (cases "f s") (simp_all add: andthen_def keeps_err_def)

lemma keeps_err_with_proc: "(\<And>p. keeps_err g v (f p s)) \<Longrightarrow> keeps_err g v (with_proc f s)"
  by (simp add: with_proc_def keeps_err_def split: option.split)

text \<open>After the commit, \<open>exec\<close> does not fail any more.\<close>

lemma keeps_err_commit: "keeps_err g v (andthen f (\<lambda>_. andthen h (\<lambda>_. andthen k (\<lambda>_. ret 0))) s)"
  by (auto simp: keeps_err_def andthen_def split: outcome.splits)

lemma exec_finish_keep: "image s = v \<Longrightarrow> keeps_err image v (exec_finish path argv pgd e usz s)"
  unfolding exec_finish_def Let_def
  by (auto intro!: keeps_err_commit keeps_err_with_proc keeps_err_andthen[of image] keep keeps_err_keeps[OF exec_bad_keep]
      split: option.splits)

section \<open>Pipes and open files\<close>

lemma with_pipe_keep [keep]:
  "image s = v \<Longrightarrow> (\<And>q. keeps image v (f q s)) \<Longrightarrow> keeps image v (with_pipe p f s)"
  by (simp add: with_pipe_def split: option.split)

lemma upd_pipe_keep [keep]: "image s = v \<Longrightarrow> keeps image v (upd_pipe p f s)"
  unfolding upd_pipe_def by (auto intro!: keep)

lemma pipeclose_keep [keep]: "image s = v \<Longrightarrow> keeps image v (pipeclose p w s)"
  unfolding pipeclose_def by (auto intro!: keep)

lemma pipewrite_keep [keep]: "image s = v \<Longrightarrow> keeps image v (pipewrite p a n s)"
proof -
  have "image s = v \<Longrightarrow> keeps image v (pipewrite_loop p n cs s)" for cs and s :: "'a kern_scheme"
    by (induction cs arbitrary: s) (auto intro!: keep)
  then show "image s = v \<Longrightarrow> keeps image v (pipewrite p a n s)" unfolding pipewrite_def by (auto intro!: keep)
qed

lemma piperead_copy_keep [keep]: "image s = v \<Longrightarrow> keeps image v (piperead_copy p k acc s)"
  by (induction k arbitrary: acc s) (auto intro!: keep)

lemma piperead_keep [keep]: "image s = v \<Longrightarrow> keeps image v (piperead p n s)"
  unfolding piperead_def piperead_wait_def by (auto intro!: keep)

lemma with_file_keep [keep]:
  "image s = v \<Longrightarrow> (\<And>r. keeps image v (k r s)) \<Longrightarrow> keeps image v (with_file f k s)"
  by (simp add: with_file_def)

lemma upd_file_keep [keep]: "image s = v \<Longrightarrow> keeps image v (upd_file f g s)"
  by (simp add: upd_file_def)

lemma filealloc_keep [keep]: "image s = v \<Longrightarrow> keeps image v (filealloc s)"
  unfolding filealloc_def by (auto intro!: keep split: option.splits)

lemma filedup_keep [keep]: "image s = v \<Longrightarrow> keeps image v (filedup f s)"
  unfolding filedup_def by (auto intro!: keep)

lemma fileclose_keep [keep]: "image s = v \<Longrightarrow> keeps image v (fileclose f s)"
  unfolding fileclose_def by (auto intro!: keep split: file_type.splits)

lemma filestat_keep [keep]: "image s = v \<Longrightarrow> keeps image v (filestat f s)"
  unfolding filestat_def stati_def by (auto intro!: keep)

lemma fileread_keep [keep]: "image s = v \<Longrightarrow> keeps image v (fileread f n s)"
  unfolding fileread_def by (auto intro!: keep split: file_type.splits)

lemma filewrite_loop_keep [keep]: "image s = v \<Longrightarrow> keeps image v (filewrite_loop f a n i s)"
proof (induction f a n i arbitrary: s rule: filewrite_loop.induct)
  case (1 f a n i)
  then show ?case by (subst filewrite_loop.simps) (auto intro!: keep simp: Let_def)
qed

lemma filewrite_keep [keep]: "image s = v \<Longrightarrow> keeps image v (filewrite f a n s)"
  unfolding filewrite_def by (auto intro!: keep split: file_type.splits)

lemma pipealloc_bad_keep [keep]: "image s = v \<Longrightarrow> keeps image v (pipealloc_bad f g s)"
  unfolding pipealloc_bad_def by (auto intro!: keep split: option.splits)

lemma pipealloc_keep [keep]: "image s = v \<Longrightarrow> keeps image v (pipealloc s)"
  unfolding pipealloc_def by (auto intro!: keep split: option.splits)

section \<open>System calls\<close>

lemma store_user_keep [keep]: "image s = v \<Longrightarrow> keeps image v (store_user a bs s)"
  by (induction bs arbitrary: a s) (auto intro!: keep split: option.splits)

lemma fetchint_keep [keep]: "image s = v \<Longrightarrow> keeps image v (fetchint a s)"
  unfolding fetchint_def by (auto intro!: keep simp: Let_def)

lemma fetchstr_keep [keep]: "image s = v \<Longrightarrow> keeps image v (fetchstr a s)"
proof -
  have "image s = v \<Longrightarrow> keeps image v (fetchstr_loop a n acc s)" for a n acc and s :: "'a kern_scheme"
    by (induction n arbitrary: a acc) (auto split: option.splits)
  then show "image s = v \<Longrightarrow> keeps image v (fetchstr a s)" unfolding fetchstr_def by (auto intro!: keep)
qed

lemma arg_keep [keep]:
  "image s = v \<Longrightarrow> keeps image v (argint n s)" "image s = v \<Longrightarrow> keeps image v (argptr n len s)"
  "image s = v \<Longrightarrow> keeps image v (argstr n s)" "image s = v \<Longrightarrow> keeps image v (argfd n s)"
  unfolding argstr_def argptr_def argfd_def argint_def by (auto intro!: keep simp: Let_def split: option.splits)

lemma fdalloc_keep [keep]: "image s = v \<Longrightarrow> keeps image v (fdalloc f s)"
  unfolding fdalloc_def by (auto intro!: keep split: option.splits)

lemma fdclear_keep [keep]: "image s = v \<Longrightarrow> keeps image v (fdclear d s)"
  unfolding fdclear_def by (auto intro!: keep)

lemma rw_args_keep [keep]: "image s = v \<Longrightarrow> keeps image v (rw_args s)"
  unfolding rw_args_def by (auto intro!: keep split: option.splits)

lemma store_stat_keep [keep]: "image s = v \<Longrightarrow> keeps image v (store_stat p st s)"
  unfolding store_stat_def by (auto intro!: keep)

lemma sys_rw_keep:
  "image s = v \<Longrightarrow> keeps image v (sys_dup s)" "image s = v \<Longrightarrow> keeps image v (sys_read s)"
  "image s = v \<Longrightarrow> keeps image v (sys_write s)" "image s = v \<Longrightarrow> keeps image v (sys_close s)"
  "image s = v \<Longrightarrow> keeps image v (sys_fstat s)" "image s = v \<Longrightarrow> keeps image v (sys_pipe s)"
  unfolding sys_dup_def sys_read_def sys_write_def sys_close_def sys_fstat_def sys_pipe_def
  by (auto intro!: keep split: option.splits)

lemma add_nlink_keep [keep]: "image s = v \<Longrightarrow> keeps image v (add_nlink ip d s)"
  unfolding add_nlink_def by (auto intro!: keep)

lemma sys_link_keep: "image s = v \<Longrightarrow> keeps image v (sys_link s)"
  unfolding sys_link_def sys_link_bad_def by (auto intro!: keep split: option.splits)

lemma isdirempty_keep [keep]: "image s = v \<Longrightarrow> keeps image v (isdirempty dp s)"
proof -
  have "image s = v \<Longrightarrow> keeps image v (isdirempty_loop dp off n s)" for off n and s :: "'a fs_scheme"
  proof (induction dp off n arbitrary: s rule: isdirempty_loop.induct)
    case (1 dp off n)
    then show ?case by (subst isdirempty_loop.simps) (auto intro!: keep)
  qed
  then show "image s = v \<Longrightarrow> keeps image v (isdirempty dp s)" unfolding isdirempty_def by (auto intro!: keep)
qed

lemma sys_unlink_keep: "image s = v \<Longrightarrow> keeps image v (sys_unlink s)"
  unfolding sys_unlink_def by (auto intro!: keep split: option.splits)

lemma create_keep [keep]: "image s = v \<Longrightarrow> keeps image v (create path t a b s)"
  unfolding create_def by (auto intro!: keep split: option.splits)

lemma open_inode_keep [keep]: "image s = v \<Longrightarrow> keeps image v (open_inode path m s)"
  unfolding open_inode_def by (auto intro!: keep split: option.splits)

lemma sys_open_keep: "image s = v \<Longrightarrow> keeps image v (sys_open s)"
  unfolding sys_open_def by (auto intro!: keep split: option.splits)

lemma sys_dir_keep:
  "image s = v \<Longrightarrow> keeps image v (sys_mkdir s)" "image s = v \<Longrightarrow> keeps image v (sys_mknod s)"
  "image s = v \<Longrightarrow> keeps image v (sys_chdir s)"
  unfolding sys_mkdir_def sys_mknod_def sys_chdir_def by (auto intro!: keep split: option.splits)

section \<open>Properties\<close>




end
