(* ===== verification/Kbd.thy ===== *)
theory Kbd
  imports Consoleio
begin

text \<open>
  \<^verbatim>\<open>kbd.c\<close> and \<^verbatim>\<open>kbd.h\<close>: the keyboard.

  \<open>kbdgetc\<close> is a state machine over scan codes; its static variable \<^verbatim>\<open>shift\<close> is an argument and a result.
  The byte it reads from the data port is an argument too, \<open>None\<close> when the status port says that there is
  none.  The tables are lists of 256 numbers; \<open>designated\<close> is a C initialiser that gives some entries by their
  index.

  Shown: the state stays within its seven flags, so that the table of tables is never indexed out of range, and
  letter keys give the letter in the right case, or its control character.
\<close>

unbundle bit_operations_syntax

section \<open>Tables\<close>

definition SHIFT :: uint where "SHIFT = 1"
definition CTL :: uint where "CTL = 2"
definition ALT :: uint where "ALT = 4"
definition CAPSLOCK :: uint where "CAPSLOCK = 8"
definition NUMLOCK :: uint where "NUMLOCK = 16"
definition SCROLLLOCK :: uint where "SCROLLLOCK = 32"
definition E0ESC :: uint where "E0ESC = 64"

definition designated :: "(nat \<times> 'a) list \<Rightarrow> 'a list \<Rightarrow> 'a list" where
  "designated ds t = fold (\<lambda>(i, v) t. t[i := v]) ds t"

definition shiftcode :: "uint list" where
  "shiftcode = designated [(0x1D, CTL), (0x2A, SHIFT), (0x36, SHIFT), (0x38, ALT), (0x9D, CTL), (0xB8, ALT)] (replicate 256 0)"

definition togglecode :: "uint list" where
  "togglecode = designated [(0x3A, CAPSLOCK), (0x45, NUMLOCK), (0x46, SCROLLLOCK)] (replicate 256 0)"

definition normalmap :: "nat list" where
  "normalmap = designated
     [(0x9C, 10), (0xB5, 47), (0xC8, 226), (0xD0, 227), (0xC9, 230), (0xD1, 231), 
      (0xCB, 228), (0xCD, 229), (0x97, 224), (0xCF, 225), (0xD2, 232), (0xD3, 233)]
     ([0, 27, 49, 50, 51, 52, 53, 54,
       55, 56, 57, 48, 45, 61, 8, 9,
       113, 119, 101, 114, 116, 121, 117, 105,
       111, 112, 91, 93, 10, 0, 97, 115,
       100, 102, 103, 104, 106, 107, 108, 59,
       39, 96, 0, 92, 122, 120, 99, 118,
       98, 110, 109, 44, 46, 47, 0, 42,
       0, 32, 0, 0, 0, 0, 0, 0,
       0, 0, 0, 0, 0, 0, 0, 55,
       56, 57, 45, 52, 53, 54, 43, 49,
       50, 51, 48, 46, 0, 0, 0, 0]
      @ replicate 168 0)"

definition shiftmap :: "nat list" where
  "shiftmap = designated
     [(0x9C, 10), (0xB5, 47), (0xC8, 226), (0xD0, 227), (0xC9, 230), (0xD1, 231), 
      (0xCB, 228), (0xCD, 229), (0x97, 224), (0xCF, 225), (0xD2, 232), (0xD3, 233)]
     ([0, 27, 33, 64, 35, 36, 37, 94,
       38, 42, 40, 41, 95, 43, 8, 9,
       81, 87, 69, 82, 84, 89, 85, 73,
       79, 80, 123, 125, 10, 0, 65, 83,
       68, 70, 71, 72, 74, 75, 76, 58,
       34, 126, 0, 124, 90, 88, 67, 86,
       66, 78, 77, 60, 62, 63, 0, 42,
       0, 32, 0, 0, 0, 0, 0, 0,
       0, 0, 0, 0, 0, 0, 0, 55,
       56, 57, 45, 52, 53, 54, 43, 49,
       50, 51, 48, 46, 0, 0, 0, 0]
      @ replicate 168 0)"

definition ctlmap :: "nat list" where
  "ctlmap = designated
     [(0x9C, 13), (0xB5, 239), (0xC8, 226), (0xD0, 227), (0xC9, 230), (0xD1, 231), 
      (0xCB, 228), (0xCD, 229), (0x97, 224), (0xCF, 225), (0xD2, 232), (0xD3, 233)]
     ([0, 0, 0, 0, 0, 0, 0, 0,
       0, 0, 0, 0, 0, 0, 0, 0,
       17, 23, 5, 18, 20, 25, 21, 9,
       15, 16, 0, 0, 13, 0, 1, 19,
       4, 6, 7, 8, 10, 11, 12, 0,
       0, 0, 0, 28, 26, 24, 3, 22,
       2, 14, 13, 0, 0, 239, 0, 0]
      @ replicate 200 0)"

section \<open>The state machine\<close>

definition charcode :: "nat list list" where
  "charcode = [normalmap, shiftmap, ctlmap, ctlmap]"

definition capslock :: "nat \<Rightarrow> nat" where
  "capslock c = (if 97 \<le> c \<and> c \<le> 122 then c - 32 else if 65 \<le> c \<and> c \<le> 90 then c + 32 else c)"

definition kbdgetc :: "uint \<Rightarrow> uchar option \<Rightarrow> int \<times> uint" where
  "kbdgetc shift inp = (case inp of
       None \<Rightarrow> (- 1, shift)
     | Some data \<Rightarrow>
         if data = 0xE0 then (0, shift OR E0ESC)
         else if data AND 0x80 \<noteq> 0
         then let data = (if shift AND E0ESC \<noteq> 0 then data else data AND 0x7F)
           in (0, shift AND NOT (shiftcode ! unat data OR E0ESC))
         else let (data, shift) = (if shift AND E0ESC \<noteq> 0 then (data OR 0x80, shift AND NOT E0ESC) else (data, shift));
             shift = (shift OR shiftcode ! unat data) XOR togglecode ! unat data;
             c = charcode ! unat (shift AND (CTL OR SHIFT)) ! unat data
           in (int (if shift AND CAPSLOCK \<noteq> 0 then capslock c else c), shift))"

text \<open>The characters \<open>kbdgetc\<close> delivers to \<open>consoleintr\<close> while the controller has the bytes \<open>ds\<close>.\<close>

fun kbd_chars :: "uint \<Rightarrow> uchar list \<Rightarrow> int list \<times> uint" where
  "kbd_chars shift [] = ([], shift)"
| "kbd_chars shift (d # ds) =
     (let (c, shift) = kbdgetc shift (Some d); (cs, shift) = kbd_chars shift ds in (c # cs, shift))"

section \<open>Properties\<close>

lemma table_length [simp]:
  "length shiftcode = 256" "length togglecode = 256" "length normalmap = 256" "length shiftmap = 256" "length ctlmap = 256"
  by (simp_all add: shiftcode_def togglecode_def normalmap_def shiftmap_def ctlmap_def designated_def)

lemma designated_all:
  "(\<forall>(i, v) \<in> set ds. P v) \<Longrightarrow> (\<forall>v \<in> set t. P v) \<Longrightarrow> v \<in> set (designated ds t) \<Longrightarrow> P v"
  unfolding designated_def
proof (induction ds arbitrary: t)
  case (Cons d ds)
  have "\<forall>v \<in> set (t[fst d := snd d]). P v" using Cons.prems(1,2) set_update_subset_insert[of t "fst d" "snd d"] by (cases d) auto
  then show ?case using Cons.IH[of "t[fst d := snd d]"] Cons.prems by (simp add: case_prod_unfold)
qed simp

lemma designated_nth:
  "i < length t \<Longrightarrow> designated ds t ! i = (case map_of (rev ds) i of Some v \<Rightarrow> v | None \<Rightarrow> t ! i)"
  unfolding designated_def
proof (induction ds arbitrary: t)
  case (Cons d ds)
  then show ?case by (cases d) (auto simp: map_add_def nth_list_update split: option.split)
qed simp

lemma flag_codes: "v \<in> set shiftcode \<Longrightarrow> take_bit 7 v = v" "v \<in> set togglecode \<Longrightarrow> take_bit 7 v = v"
  unfolding shiftcode_def togglecode_def
  by (rule designated_all[where P = "\<lambda>v. take_bit 7 v = v"];
      auto simp: CTL_def SHIFT_def ALT_def CAPSLOCK_def NUMLOCK_def SCROLLLOCK_def)+

lemma table_nth: "take_bit 7 (shiftcode ! unat (d :: uchar)) = shiftcode ! unat d" "take_bit 7 (togglecode ! unat d) = togglecode ! unat d"
  using unsigned_less[of d] by (intro flag_codes nth_mem; simp)+

lemma low_flags: "take_bit 7 x = x \<longleftrightarrow> (\<forall>n\<ge>7. \<not> bit x n)" for x :: uint
proof
  assume "take_bit 7 x = x"
  then show "\<forall>n\<ge>7. \<not> bit x n" by (metis bit_take_bit_iff not_le)
next
  assume "\<forall>n\<ge>7. \<not> bit x n"
  then show "take_bit 7 x = x" by (intro bit_eqI) (metis bit_take_bit_iff not_le)
qed

lemma map_less: "v \<in> set normalmap \<Longrightarrow> v < 256" "v \<in> set shiftmap \<Longrightarrow> v < 256" "v \<in> set ctlmap \<Longrightarrow> v < 256"
  unfolding normalmap_def shiftmap_def ctlmap_def by (rule designated_all[where P = "\<lambda>v. v < 256"]; simp)+

lemma charcode_index: "unat (x AND (CTL OR SHIFT)) < 4"
proof -
  have "x AND (CTL OR SHIFT) \<le> CTL OR SHIFT" by (rule word_and_le1)
  then show ?thesis by (simp add: word_le_nat_alt CTL_def SHIFT_def)
qed

lemma charcode_less: "i < 4 \<Longrightarrow> charcode ! i ! unat (d :: uchar) < 256"
proof -
  assume "i < 4"
  then have "charcode ! i \<in> {normalmap, shiftmap, ctlmap}" by (auto simp: charcode_def less_Suc_eq numeral_eq_Suc)
  moreover have "unat d < 256" using unsigned_less[of d] by simp
  ultimately show ?thesis using map_less nth_mem[of "unat d"] by (metis insertE singletonD table_length(3-5))
qed

lemma capslock_less: "c < 256 \<Longrightarrow> capslock c < 256"
  by (auto simp: capslock_def)

lemma kbdgetc_bounds:
  assumes "take_bit 7 shift = shift" "kbdgetc shift (Some d) = (c, shift')"
  shows "take_bit 7 shift' = shift' \<and> 0 \<le> c \<and> c < 256"
proof -
  have t: "\<forall>n\<ge>7. \<not> bit (shiftcode ! unat e) n" "\<forall>n\<ge>7. \<not> bit (togglecode ! unat e) n" for e :: uchar
    using table_nth[of e] by (simp_all only: low_flags)
  have e: "\<forall>n\<ge>7. \<not> bit E0ESC n"
    using low_flags[of E0ESC] by (simp add: E0ESC_def)
  have s: "\<forall>n\<ge>7. \<not> bit shift n" using assms(1) by (simp only: low_flags)
  have "\<forall>n\<ge>7. \<not> bit shift' n"
    using assms(2) s t e unfolding kbdgetc_def Let_def
    by (auto simp: bit_or_iff bit_and_iff bit_xor_iff split: if_splits)
  moreover have "0 \<le> c \<and> c < 256"
    using assms(2) charcode_less[OF charcode_index] capslock_less[OF charcode_less[OF charcode_index]]
    unfolding kbdgetc_def Let_def by (auto split: if_splits)
  ultimately show ?thesis by (simp only: low_flags)
qed



text \<open>The scan codes of the letters.\<close>

definition letter_keys :: "(uchar \<times> nat) list" where
  "letter_keys =
     zip [0x10, 0x11, 0x12, 0x13, 0x14, 0x15, 0x16, 0x17, 0x18, 0x19, 0x1E, 0x1F, 0x20, 0x21, 0x22, 0x23, 0x24, 0x25, 0x26,
          0x2C, 0x2D, 0x2E, 0x2F, 0x30, 0x31, 0x32]
       (map of_char ''qwertyuiopasdfghjklzxcvbnm'')"

lemma letter_codes:
  "list_all (\<lambda>(k, l). shiftcode ! unat k = 0 \<and> togglecode ! unat k = 0 \<and> k \<noteq> 0xE0 \<and> k AND 0x80 = 0 \<and> 97 \<le> l \<and> l \<le> 122 \<and>
     normalmap ! unat k = l \<and> shiftmap ! unat k = l - 32 \<and> ctlmap ! unat k = l - 96) letter_keys"
  by (simp add: letter_keys_def shiftcode_def togglecode_def normalmap_def shiftmap_def ctlmap_def designated_nth nth_append)

text \<open>
  C31: the letter keys.  With no escape pending, pressing the key of a letter leaves the modifiers as they are and
  gives the control character of the letter if control is down, and otherwise the capital letter exactly if one of
  shift and caps lock is on and the other is not.
\<close>

theorem kbd_letters:
  assumes "(k, l) \<in> set letter_keys" "shift AND E0ESC = 0"
  shows "kbdgetc shift (Some k) =
    (if shift AND CTL \<noteq> 0 then int l - 96
     else if (shift AND SHIFT \<noteq> 0) \<noteq> (shift AND CAPSLOCK \<noteq> 0) then int l - 32 else int l, shift)"
proof -
  have f: "shiftcode ! unat k = 0" "togglecode ! unat k = 0" "k \<noteq> 0xE0" "k AND 0x80 = 0" "97 \<le> l" "l \<le> 122"
    "normalmap ! unat k = l" "shiftmap ! unat k = l - 32" "ctlmap ! unat k = l - 96"
    using letter_codes assms(1) by (auto simp: list_all_iff)
  have c: "charcode ! unat (shift AND (CTL OR SHIFT)) =
      (if shift AND CTL \<noteq> 0 then ctlmap else if shift AND SHIFT \<noteq> 0 then shiftmap else normalmap)"
  proof -
    define z where "z = shift AND 3"
    have "CTL OR SHIFT = 3" "3 AND CTL = 2" "3 AND SHIFT = 1" by (simp_all add: CTL_def SHIFT_def)
    then have e: "shift AND (CTL OR SHIFT) = z" "shift AND CTL = z AND 2" "shift AND SHIFT = z AND 1"
      by (simp_all add: z_def and.assoc CTL_def SHIFT_def)
    have "unat z < 4" using charcode_index[of shift] e(1) by simp
    then consider "unat z = 0" | "unat z = 1" | "unat z = 2" | "unat z = 3" by linarith
    then have "z = 0 \<or> z = 1 \<or> z = 2 \<or> z = 3" by cases (simp_all add: word_unat_eq_iff)
    then show ?thesis unfolding e by (auto simp: charcode_def)
  qed
  show ?thesis using f assms(2) unfolding kbdgetc_def Let_def by (auto simp: c capslock_def)
qed

theorem kbd_letters_witness:
  "kbdgetc SHIFT (Some 0x1E) = (65, SHIFT) \<and> kbdgetc CTL (Some 0x2E) = (3, CTL)"
  using kbd_letters[of "0x1E" 97 SHIFT] kbd_letters[of "0x2E" 99 CTL]
  by (simp add: letter_keys_def SHIFT_def CTL_def CAPSLOCK_def E0ESC_def)

end
