(* ===== verification/Trap.thy ===== *)
theory Trap
  imports Exec Kbd
begin

text \<open>
  \<^verbatim>\<open>trap.c\<close>, the dispatch of \<^verbatim>\<open>syscall.c\<close> and \<open>sys_uprog_shut\<close> of \<^verbatim>\<open>sysproc.c\<close>, on a last layer of the state:
  the keyboard modifiers, the interrupt descriptor table and the words written to output ports.

  The entry points \<^verbatim>\<open>vectors\<close>, which a script generates, are a parameter of \<open>tvinit\<close>.  A trap is given what the
  processor and the devices supply: the trap frame, the fault address in \<^verbatim>\<open>cr2\<close> and the bytes that the keyboard
  or the serial port has ready.  Acknowledging an interrupt (\<open>lapiceoi\<close>) changes nothing in the state.
\<close>

unbundle bit_operations_syntax

section \<open>Data\<close>

record gatedesc =
  g_off_15_0 :: ushort
  g_cs :: ushort
  g_args :: nat
  g_rsv1 :: nat
  g_type :: nat
  g_s :: nat
  g_dpl :: ushort
  g_p :: nat
  g_off_31_16 :: ushort

record dev = kern +
  kbd_shift :: uint
  idt :: "gatedesc list"
  ports_out :: "(nat \<times> nat) list"

definition STS_IG32 :: nat where "STS_IG32 = 0xE"
definition STS_TG32 :: nat where "STS_TG32 = 0xF"
definition SEG_KCODE :: ushort where "SEG_KCODE = 1"

definition SETGATE :: "bool \<Rightarrow> ushort \<Rightarrow> uint \<Rightarrow> ushort \<Rightarrow> gatedesc" where
  "SETGATE istrap sel off d = \<lparr>g_off_15_0 = ucast (off AND 0xffff), g_cs = sel, g_args = 0, g_rsv1 = 0,
     g_type = (if istrap then STS_TG32 else STS_IG32), g_s = 0, g_dpl = d, g_p = 1, g_off_31_16 = ucast (drop_bit 16 off)\<rparr>"

definition T_SYSCALL :: nat where "T_SYSCALL = 64"
definition T_IRQ0 :: nat where "T_IRQ0 = 32"
definition IRQ_TIMER :: nat where "IRQ_TIMER = 0"
definition IRQ_KBD :: nat where "IRQ_KBD = 1"
definition IRQ_COM1 :: nat where "IRQ_COM1 = 4"
definition IRQ_IDE :: nat where "IRQ_IDE = 14"
definition IRQ_SPURIOUS :: nat where "IRQ_SPURIOUS = 31"

definition tvinit :: "(nat \<Rightarrow> uint) \<Rightarrow> (unit, 'a dev_scheme) kop" where
  "tvinit vectors =
     andthen (for_each [0..<256] (\<lambda>i. modify (\<lambda>s. s\<lparr>idt := (idt s)[i := SETGATE False (push_bit 3 SEG_KCODE) (vectors i) 0]\<rparr>))) (\<lambda>_.
     andthen (modify (\<lambda>s. s\<lparr>idt := (idt s)[T_SYSCALL := SETGATE True (push_bit 3 SEG_KCODE) (vectors T_SYSCALL) DPL_USER]\<rparr>)) (\<lambda>_.
     initlock TicksLk))"

section \<open>System calls\<close>

definition outw :: "nat \<Rightarrow> nat \<Rightarrow> (unit, 'a dev_scheme) kop" where
  "outw port data = modify (\<lambda>s. s\<lparr>ports_out := ports_out s @ [(port, data)]\<rparr>)"

definition sys_uprog_shut :: "(int, 'a dev_scheme) kop" where
  "sys_uprog_shut =
     andthen (outw 0xB004 0x2000) (\<lambda>_.
     andthen (outw 0x604 0x2000) (\<lambda>_.
     ret 0))"

text \<open>The table \<^verbatim>\<open>syscalls\<close>; \<open>junk\<close> is the old content of the stack for \<open>exec\<close>.\<close>

definition syscalls :: "bytes \<Rightarrow> (int, 'a dev_scheme) kop option list" where
  "syscalls junk = None # map Some
     [sys_fork, sys_exit, sys_wait, sys_pipe, sys_read, sys_kill, sys_exec junk, sys_fstat, sys_chdir, sys_dup,
      sys_getpid, sys_sbrk, sys_sleep, sys_uptime, sys_open, sys_write, sys_mknod, sys_unlink, sys_link, sys_mkdir,
      sys_close, sys_enable_sched_trace, sys_uprog_shut]"

definition set_eax :: "int \<Rightarrow> (unit, 'a ptab_scheme) kop" where
  "set_eax v = with_proc (\<lambda>p. upd_proc p (\<lambda>r. r\<lparr>tf := (tf r)\<lparr>tf_eax := of_int v\<rparr>\<rparr>))"

definition syscall :: "bytes \<Rightarrow> (unit, 'a dev_scheme) kop" where
  "syscall junk = with_proc (\<lambda>p s.
     let num = sint (tf_eax (tf (procs s ! p)))
     in case (if 0 < num \<and> num < int (length (syscalls junk :: (int, 'a dev_scheme) kop option list)) then syscalls junk ! nat num else None) of
       Some call \<Rightarrow> andthen call set_eax s
     | None \<Rightarrow>
         andthen (cprintf (''%d %s: unknown sys call %d'' @ newline)
           [IntArg (of_int (pid (procs s ! p))), StrArg (Some (pname (procs s ! p))), IntArg (of_int num)]) (\<lambda>_.
         set_eax (- 1)) s)"

section \<open>Interrupts\<close>

definition kbdintr :: "uchar list \<Rightarrow> (unit, 'a dev_scheme) kop" where
  "kbdintr inp = (\<lambda>s.
     let (cs, shift) = kbd_chars (kbd_shift s) inp
     in andthen (consoleintr cs) (\<lambda>_. modify (\<lambda>s. s\<lparr>kbd_shift := shift\<rparr>)) s)"

definition uartintr :: "uchar list \<Rightarrow> (unit, 'a dev_scheme) kop" where
  "uartintr inp = (\<lambda>s. consoleintr (if uart s then map (\<lambda>c. Word.uint c) inp else []) s)"

text \<open>\<open>ideintr\<close> of \<^verbatim>\<open>memide.c\<close> is empty.\<close>

definition ideintr :: "(unit, 'a dev_scheme) kop" where
  "ideintr = ret ()"

definition timer_tick :: "(unit, 'a dev_scheme) kop" where
  "timer_tick = (\<lambda>s.
     if cpu_id (cpu s) = 0
     then andthen (acquire TicksLk) (\<lambda>_.
          andthen (modify (\<lambda>s. s\<lparr>ticks := ticks s + 1\<rparr>)) (\<lambda>_.
          andthen (wakeup TicksChan) (\<lambda>_.
          release TicksLk))) s
     else Done () s)"

text \<open>The default case: a panic for a fault in the kernel, the end of the process for one in user space.\<close>

definition bad_trap :: "uint \<Rightarrow> trapframe \<Rightarrow> (unit, 'a dev_scheme) kop" where
  "bad_trap cr2 t = (\<lambda>s.
     if curproc (cpu s) = None \<or> tf_cs t AND 3 = 0
     then andthen (cprintf (''unexpected trap %d from cpu %d eip %x (cr2=0x%x)'' @ newline)
            [IntArg (tf_trapno t), IntArg (of_nat (cpu_id (cpu s))), IntArg (tf_eip t), IntArg cr2]) (\<lambda>_.
          panic ''trap'') s
     else with_proc (\<lambda>p s.
       andthen (cprintf (''pid %d %s: trap %d err %d on cpu %d eip 0x%x addr 0x%x--kill proc'' @ newline)
         [IntArg (of_int (pid (procs s ! p))), StrArg (Some (pname (procs s ! p))), IntArg (tf_trapno t), IntArg (tf_err t),
          IntArg (of_nat (cpu_id (cpu s))), IntArg (tf_eip t), IntArg cr2]) (\<lambda>_.
       upd_proc p (\<lambda>r. r\<lparr>killed := True\<rparr>)) s) s)"

definition exit_if_killed :: "trapframe \<Rightarrow> (unit, 'a kern_scheme) kop" where
  "exit_if_killed t = (\<lambda>s. case curproc (cpu s) of
       None \<Rightarrow> Done () s
     | Some p \<Rightarrow> if killed (procs s ! p) \<and> tf_cs t AND 3 = DPL_USER then exit s else Done () s)"

text \<open>\<open>trap_resume\<close> is the rest of \<open>trap\<close> when the process runs again after the \<open>yield\<close>.\<close>

definition trap :: "bytes \<Rightarrow> uint \<Rightarrow> uchar list \<Rightarrow> trapframe \<Rightarrow> (unit, 'a dev_scheme) kop" where
  "trap junk cr2 inp t = (let n = unat (tf_trapno t) in
     if n = T_SYSCALL
     then with_proc (\<lambda>p s.
       andthen (if killed (procs s ! p) then exit else ret ()) (\<lambda>_.
       andthen (upd_proc p (\<lambda>r. r\<lparr>tf := t\<rparr>)) (\<lambda>_.
       andthen (syscall junk) (\<lambda>_.
       with_proc (\<lambda>p s. if killed (procs s ! p) then exit s else Done () s)))) s)
     else
       andthen (if n = T_IRQ0 + IRQ_TIMER then timer_tick
                else if n = T_IRQ0 + IRQ_IDE then ideintr
                else if n = T_IRQ0 + IRQ_IDE + 1 then ret ()
                else if n = T_IRQ0 + IRQ_KBD then kbdintr inp
                else if n = T_IRQ0 + IRQ_COM1 then uartintr inp
                else if n = T_IRQ0 + 7 \<or> n = T_IRQ0 + IRQ_SPURIOUS
                then (\<lambda>s. cprintf (''cpu%d: spurious interrupt at %x:%x'' @ newline)
                       [IntArg (of_nat (cpu_id (cpu s))), IntArg (ucast (tf_cs t)), IntArg (tf_eip t)] s)
                else bad_trap cr2 t) (\<lambda>_.
       andthen (exit_if_killed t) (\<lambda>_.
       andthen (\<lambda>s. case curproc (cpu s) of
            None \<Rightarrow> Done () s
          | Some p \<Rightarrow> if pstate (procs s ! p) = RUNNING \<and> n = T_IRQ0 + IRQ_TIMER then yield s else Done () s) (\<lambda>_.
       exit_if_killed t))))"

definition trap_resume :: "bool \<Rightarrow> trapframe \<Rightarrow> (unit, 'a kern_scheme) kop" where
  "trap_resume ena t = andthen (yield_resume ena) (\<lambda>_. exit_if_killed t)"

section \<open>Properties\<close>

lemma hold_dev [simp]:
  "kbd_shift (hold ls s) = kbd_shift s" "idt (hold ls s) = idt s" "ports_out (hold ls s) = ports_out s"
  by (simp_all add: hold_def)

lemma gate_offset: "push_bit 16 (ucast (g_off_31_16 (SETGATE b sel off d))) OR ucast (g_off_15_0 (SETGATE b sel off d)) = off"
proof -
  have m: "(0xffff :: uint) = mask 16" by (simp add: mask_eq_exp_minus_1)
  show ?thesis unfolding SETGATE_def m
    by (auto simp: bit_eq_iff bit_or_iff bit_and_iff bit_push_bit_iff bit_drop_bit_eq bit_ucast_iff bit_mask_iff not_le)
qed

lemma idt_loop:
  "for_each [0..<n] (\<lambda>i. modify (\<lambda>s. s\<lparr>idt := (idt s)[i := g i]\<rparr>)) s =
     Done () (s\<lparr>idt := map g [0..<min n (length (idt s))] @ drop n (idt s)\<rparr>)" for s :: "'a dev_scheme"
proof (induction n)
  case (Suc n)
  have "(map g [0..<min n (length (idt s))] @ drop n (idt s))[n := g n] =
      map g [0..<min (Suc n) (length (idt s))] @ drop (Suc n) (idt s)"
    by (cases "n < length (idt s)") (auto simp: list_update_append min_def Cons_nth_drop_Suc[symmetric] list_update_beyond)
  then show ?case using Suc by (simp add: for_each_append)
qed simp

text \<open>
  C30: the interrupt descriptor table.  After \<open>tvinit\<close> every one of the 256 gates is present, leads to its own entry
  point in the kernel code segment, and only the gate of system calls can be used by programs and leaves
  interrupts on.
\<close>

theorem tvinit_gates:
  assumes "length (idt s) = 256"
  shows "\<exists>s'. tvinit vectors s = Done () s' \<and> length (idt s') = 256 \<and>
    (\<forall>i<256. let g = idt s' ! i in
       g_p g = 1 \<and> g_cs g = push_bit 3 SEG_KCODE \<and> push_bit 16 (ucast (g_off_31_16 g)) OR ucast (g_off_15_0 g) = vectors i \<and>
       g_dpl g = (if i = T_SYSCALL then DPL_USER else 0) \<and> g_type g = (if i = T_SYSCALL then STS_TG32 else STS_IG32))"
proof -
  let ?t = "map (\<lambda>i. SETGATE False (push_bit 3 SEG_KCODE) (vectors i) 0) [0..<256]"
  let ?u = "?t[T_SYSCALL := SETGATE True (push_bit 3 SEG_KCODE) (vectors T_SYSCALL) DPL_USER]"
  have "\<exists>s'. tvinit vectors s = Done () s' \<and> idt s' = ?u"
    using assms by (simp add: tvinit_def idt_loop initlock_def)
  moreover have "?u ! i = (if i = T_SYSCALL then SETGATE True (push_bit 3 SEG_KCODE) (vectors T_SYSCALL) DPL_USER
      else SETGATE False (push_bit 3 SEG_KCODE) (vectors i) 0)" if "i < 256" for i
    using that by (auto simp: nth_list_update T_SYSCALL_def)
  moreover have "g_p (SETGATE b c o' d) = 1" "g_cs (SETGATE b c o' d) = c" "g_dpl (SETGATE b c o' d) = d"
    "g_type (SETGATE b c o' d) = (if b then STS_TG32 else STS_IG32)" for b c o' d by (simp_all add: SETGATE_def)
  ultimately show ?thesis by (fastforce simp: gate_offset Let_def)
qed

text \<open>The kernel state of the examples with this last layer.\<close>

definition dev_demo :: "kern \<Rightarrow> dev" where
  "dev_demo s = kern.extend s (dev.fields 0 (replicate 256 (SETGATE False 0 0 0)) [])"

lemma dev_demo_sel [simp]:
  "idt (dev_demo s) = replicate 256 (SETGATE False 0 0 0)" "cpu (dev_demo s) = cpu s" "procs (dev_demo s) = procs s"
  "quiet (dev_demo s) = quiet s" "cga_ok (dev_demo s) = cga_ok s" "panicked (dev_demo s) = panicked s"
  "sched_trace_enabled (dev_demo s) = sched_trace_enabled s" "ticks (dev_demo s) = ticks s"
  by (simp_all add: dev_demo_def kern.defs dev.defs quiet_def cga_ok_def)

theorem tvinit_gates_witness:
  "\<exists>s'. tvinit (\<lambda>i. of_nat (0x100000 + 10 * i)) (dev_demo kern_demo) = Done () s' \<and> g_dpl (idt s' ! 64) = DPL_USER \<and> g_dpl (idt s' ! 14) = 0"
proof -
  obtain s' where s': "tvinit (\<lambda>i. of_nat (0x100000 + 10 * i)) (dev_demo kern_demo) = Done () s'"
    "\<forall>i<256. let g = idt s' ! i in
       g_p g = 1 \<and> g_cs g = push_bit 3 SEG_KCODE \<and>
       push_bit 16 (ucast (g_off_31_16 g)) OR ucast (g_off_15_0 g) = (of_nat (0x100000 + 10 * i) :: uint) \<and>
       g_dpl g = (if i = T_SYSCALL then DPL_USER else 0) \<and> g_type g = (if i = T_SYSCALL then STS_TG32 else STS_IG32)"
    using tvinit_gates[of "dev_demo kern_demo" "\<lambda>i. of_nat (0x100000 + 10 * i)"] by auto
  have "g_dpl (idt s' ! 64) = DPL_USER" "g_dpl (idt s' ! 14) = 0"
    using s'(2)[rule_format, of 64] s'(2)[rule_format, of 14] by (simp_all add: Let_def T_SYSCALL_def)
  then show ?thesis using s'(1) by blast
qed


definition trap_demo :: dev where
  "trap_demo = (dev_demo exit_demo)\<lparr>panicked := False, crt := replicate (25 * 80) 0, crt_pos := 0, sched_trace_enabled := False\<rparr>"

lemma exit_demo_cpu: "cpu_id (cpu exit_demo) = 0" "ticks exit_demo = 0"
  using bio_booted_ok(7)
  by (simp_all add: exit_demo_def kern_demo_def fs_demo_def fs.defs kern.defs log.defs log_fresh_def bio.defs ptab_demo_def)

lemma trap_demo_sel [simp]:
  "procs trap_demo = procs exit_demo" "cpu trap_demo = cpu exit_demo" "locks trap_demo = locks (dev_demo exit_demo)"
  "cga_ok trap_demo" "\<not> panicked trap_demo" "\<not> sched_trace_enabled trap_demo" "ticks trap_demo = 0"
  by (simp_all add: trap_demo_def cga_ok_def exit_demo_cpu)

lemma trap_demo_quiet [simp]: "quiet trap_demo"
  using exit_demo_sel(8) dev_demo_sel(4)[of exit_demo] by (simp add: quiet_def)




end
