(* ===== verification/Ulib.thy ===== *)
theory Ulib
  imports Kstring Console
begin

text \<open>
  \<^verbatim>\<open>ulib.c\<close> and \<^verbatim>\<open>printf.c\<close>, the library the user programs are linked with.

  A \<open>char*\<close> that is only read is the list of the bytes from it to the end of its array; a string that
  is written is an array with offsets into it.  A result \<open>None\<close> is an access past the end of an array.
  The functions that also exist in the kernel have the prefix \<open>u\<close>.  System calls are arguments of the
  functions that make them, or the list of the results they return.
\<close>

section \<open>ulib.c\<close>

fun strcpy :: "bytes \<Rightarrow> bytes \<Rightarrow> bytes option" where
  "strcpy (x # s) (c # t) = map_option ((#) c) (if c \<noteq> 0 then strcpy s t else Some s)"
| "strcpy s t = None"

fun strcmp :: "bytes \<Rightarrow> bytes \<Rightarrow> int option" where
  "strcmp (a # p) (b # q) = (if a \<noteq> 0 \<and> a = b then strcmp p q else Some (Word.uint a - Word.uint b))"
| "strcmp p q = None"

fun ustrlen :: "bytes \<Rightarrow> nat option" where
  "ustrlen [] = None"
| "ustrlen (c # s) = (if c = 0 then Some 0 else map_option Suc (ustrlen s))"

definition umemset :: "memory \<Rightarrow> uint \<Rightarrow> uint \<Rightarrow> uint \<Rightarrow> memory" where
  "umemset m dst c n = stosb m dst (ucast c) (unat n)"

text \<open>\<open>Some (Some i)\<close>: the character is at offset \<open>i\<close>; \<open>Some None\<close>: a null pointer.\<close>

fun strchr :: "bytes \<Rightarrow> uchar \<Rightarrow> nat option option" where
  "strchr [] c = None"
| "strchr (a # s) c = (if a = 0 then Some None else if a = c then Some (Some 0)
     else map_option (map_option Suc) (strchr s c))"

text \<open>
  \<open>ugets\<close>: \<open>inp\<close> holds the bytes that the one-byte reads of descriptor 0 return before one of them
  returns less than 1.  The result is the buffer and the bytes that have not been read.
\<close>

definition put :: "bytes \<Rightarrow> nat \<Rightarrow> uchar \<Rightarrow> bytes option" where
  "put b i c = (if i < length b then Some (b[i := c]) else None)"

function gets_loop :: "bytes \<Rightarrow> bytes \<Rightarrow> nat \<Rightarrow> int \<Rightarrow> (bytes \<times> nat \<times> bytes) option" where
  "gets_loop inp b i mx =
     (if int i + 1 < mx
      then case inp of
        [] \<Rightarrow> Some (b, i, [])
      | c # inp' \<Rightarrow>
          (case put b i c of None \<Rightarrow> None
           | Some b' \<Rightarrow> if c = 10 \<or> c = 13 then Some (b', i + 1, inp') else gets_loop inp' b' (i + 1) mx)
      else Some (b, i, inp))"
  by pat_completeness auto
termination by (relation "measure (\<lambda>(inp, _). length inp)") auto

definition ugets :: "bytes \<Rightarrow> bytes \<Rightarrow> int \<Rightarrow> (bytes \<times> bytes) option" where
  "ugets inp b mx = (case gets_loop inp b 0 mx of None \<Rightarrow> None
     | Some (b', i, inp') \<Rightarrow> map_option (\<lambda>b''. (b'', inp')) (put b' i 0))"

text \<open>\<open>stat\<close>, over the system calls \<open>open\<close>, \<open>fstat\<close> and \<open>close\<close>.\<close>

definition ustat :: "(bytes \<Rightarrow> int \<Rightarrow> (int, 's) kop) \<Rightarrow> (int \<Rightarrow> 'p \<Rightarrow> (int, 's) kop) \<Rightarrow> (int \<Rightarrow> (int, 's) kop) \<Rightarrow>
    bytes \<Rightarrow> 'p \<Rightarrow> (int, 's) kop" where
  "ustat open_call fstat_call close_call n st =
     andthen (open_call n 0) (\<lambda>fd.
     if fd < 0 then ret (- 1)
     else andthen (fstat_call fd st) (\<lambda>r.
       andthen (close_call fd) (\<lambda>_. ret r)))"

text \<open>\<open>char\<close> is signed, so the bytes from 128 on fail the first comparison.\<close>

fun atoi_loop :: "bytes \<Rightarrow> uint \<Rightarrow> uint option" where
  "atoi_loop [] n = None"
| "atoi_loop (c # s) n = (if 48 \<le> sint c \<and> sint c \<le> 57 then atoi_loop s (n * 10 + scast c - 48) else Some n)"

definition atoi :: "bytes \<Rightarrow> int option" where
  "atoi s = map_option sint (atoi_loop s 0)"

text \<open>Unlike the kernel's, this \<open>memmove\<close> always copies upwards.\<close>

definition umemmove :: "bytes \<Rightarrow> nat \<Rightarrow> nat \<Rightarrow> int \<Rightarrow> bytes option" where
  "umemmove b vdst vsrc n = move_up b vdst vsrc (nat n)"

section \<open>printf.c\<close>

text \<open>The writes to the descriptor are one byte each; the result is the string of the bytes written.\<close>

definition udigits :: string where "udigits = ''0123456789ABCDEF''"

definition uprintint :: "uint \<Rightarrow> nat \<Rightarrow> bool \<Rightarrow> string" where
  "uprintint xx base sg =
     (let neg = (sg \<and> sint xx < 0);
          x = (if neg then - xx else xx)
      in rev (print_digits udigits base (unat x) @ (if neg then ''-'' else [])))"

datatype ufmt_state = Plain | Percent

fun uprintf_loop :: "ufmt_state \<Rightarrow> string \<Rightarrow> parg list \<Rightarrow> string option" where
  "uprintf_loop st [] ap = Some []"
| "uprintf_loop Plain (c # fmt) ap =
     (if c = CHR ''%'' then uprintf_loop Percent fmt ap else map_option ((#) c) (uprintf_loop Plain fmt ap))"
| "uprintf_loop Percent (c # fmt) ap =
     (if c = CHR ''d'' then
        (case ap of IntArg x # ap' \<Rightarrow> map_option ((@) (uprintint x 10 True)) (uprintf_loop Plain fmt ap') | _ \<Rightarrow> None)
      else if c = CHR ''x'' \<or> c = CHR ''p'' then
        (case ap of IntArg x # ap' \<Rightarrow> map_option ((@) (uprintint x 16 False)) (uprintf_loop Plain fmt ap') | _ \<Rightarrow> None)
      else if c = CHR ''s'' then
        (case ap of StrArg p # ap' \<Rightarrow>
           map_option ((@) (case p of None \<Rightarrow> ''(null)'' | Some str \<Rightarrow> str)) (uprintf_loop Plain fmt ap') | _ \<Rightarrow> None)
      else if c = CHR ''c'' then
        (case ap of IntArg x # ap' \<Rightarrow> map_option ((#) (char_of (unat x))) (uprintf_loop Plain fmt ap') | _ \<Rightarrow> None)
      else if c = CHR ''%'' then map_option ((#) c) (uprintf_loop Plain fmt ap)
      else map_option (\<lambda>r. CHR ''%'' # c # r) (uprintf_loop Plain fmt ap))"

definition uprintf :: "string \<Rightarrow> parg list \<Rightarrow> string option" where
  "uprintf fmt ap = uprintf_loop Plain fmt ap"

text \<open>The \<open>write\<close> calls of a program: descriptor and bytes.\<close>

type_synonym writes = "(int \<times> bytes) list"

definition printf_to :: "int \<Rightarrow> string \<Rightarrow> parg list \<Rightarrow> writes option" where
  "printf_to fd fmt ap = map_option (map (\<lambda>c. (fd, [of_char c]))) (uprintf fmt ap)"

text \<open>A C string as an argument of \<open>%s\<close>, and a string literal.\<close>

definition str_arg :: "bytes \<Rightarrow> parg" where
  "str_arg s = StrArg (Some (map (\<lambda>c. char_of (unat c)) (cstr s)))"

definition lit :: "string \<Rightarrow> bytes" where
  "lit str = map of_char str @ [0]"

section \<open>Facts\<close>

lemma cstr_split: "0 \<in> set s \<Longrightarrow> \<exists>r. s = cstr s @ 0 # r"
  by (induction s) auto

lemma cstr_nonzero [simp]: "0 \<notin> set (cstr s)"
  by (induction s) auto

lemma cstr_append: "0 \<notin> set u \<Longrightarrow> cstr (u @ 0 # r) = u"
  by (induction u) auto

lemma ustrlen_append: "0 \<notin> set u \<Longrightarrow> ustrlen (u @ 0 # r) = Some (length u)"
  by (induction u) auto

lemma strcpy_append:
  assumes "0 \<notin> set u" "length u < length s"
  shows "strcpy s (u @ 0 # r) = Some (u @ 0 # drop (Suc (length u)) s)"
  using assms
proof (induction u arbitrary: s)
  case Nil
  then show ?case by (cases s) auto
next
  case (Cons c u)
  then show ?case by (cases s) auto
qed

lemma strcmp_append:
  "0 \<notin> set u \<Longrightarrow> 0 \<notin> set v \<Longrightarrow> \<exists>d. strcmp (u @ 0 # r) (v @ 0 # q) = Some d \<and> (d = 0 \<longleftrightarrow> u = v)"
proof (induction u arbitrary: v)
  case Nil
  then show ?case by (cases v) (auto simp: uint_0_iff)
next
  case (Cons c u)
  then show ?case by (cases v) (auto simp: uint_0_iff dest: unsigned_word_eqI)
qed

lemma strchr_append:
  assumes "0 \<notin> set u" "c \<noteq> 0"
  shows "strchr (u @ 0 # r) c = Some (if c \<in> set u then Some (length (takeWhile (\<lambda>a. a \<noteq> c) u)) else None)"
  using assms by (induction u) auto

text \<open>With a limit that is at most the size of the buffer, \<open>ugets\<close> stays inside it.\<close>

lemma gets_loop_safe:
  assumes "int i + 1 \<le> mx" "mx \<le> int (length b)"
  shows "\<exists>b' j inp'. gets_loop inp b i mx = Some (b', j, inp') \<and> length b' = length b \<and> j < length b"
  using assms
proof (induction inp arbitrary: b i)
  case (Cons c inp)
  have "\<exists>b' j inp'. gets_loop inp (b[i := c]) (i + 1) mx = Some (b', j, inp') \<and> length b' = length b \<and> j < length b"
    if "int i + 1 < mx" using Cons(1)[of "i + 1" "b[i := c]"] that Cons.prems by simp
  with Cons.prems show ?case by (subst gets_loop.simps) (auto simp: put_def)
qed (subst gets_loop.simps, auto)

lemma ugets_safe:
  assumes "1 \<le> mx" "mx \<le> int (length b)"
  shows "\<exists>b' inp'. ugets inp b mx = Some (b', inp') \<and> length b' = length b \<and> 0 \<in> set b'"
  using gets_loop_safe[of 0 mx b inp] assms by (auto simp: ugets_def put_def set_update_memI)

end
