(* ===== verification/Grep.thy ===== *)
theory Grep
  imports Ulib
begin

text \<open>
  \<^verbatim>\<open>grep.c\<close>: the matcher for \<open>^ . * $\<close> patterns and the loop over the lines of the input.

  The matcher reads strings from the front only: \<open>re\<close> and \<open>tx\<close> (\<^verbatim>\<open>text\<close>) are the characters before the zero
  byte, and the empty list is a pointer to that zero byte.  The loop reads its input in pieces: the
  list argument holds what the successive \<open>read\<close> calls return.
\<close>

section \<open>The matcher\<close>

function matchhere :: "bytes \<Rightarrow> bytes \<Rightarrow> bool" and matchstar :: "uchar \<Rightarrow> bytes \<Rightarrow> bytes \<Rightarrow> bool" where
  "matchhere [] tx = True"
| "matchhere (c # re) tx =
     (if re \<noteq> [] \<and> hd re = 42 then matchstar c (tl re) tx
      else if c = 36 \<and> re = [] then tx = []
      else if tx \<noteq> [] \<and> (c = 46 \<or> c = hd tx) then matchhere re (tl tx)
      else False)"
| "matchstar c re tx =
     (if matchhere re tx then True
      else if tx \<noteq> [] \<and> (hd tx = c \<or> c = 46) then matchstar c re (tl tx)
      else False)"
  by pat_completeness auto
termination
  by (relation "measures [\<lambda>x. case x of Inl (re, _) \<Rightarrow> length re | Inr (_, re, _) \<Rightarrow> length re,
        \<lambda>x. case x of Inl (_, t) \<Rightarrow> length t | Inr (_, _, t) \<Rightarrow> length t,
        \<lambda>x. case x of Inl _ \<Rightarrow> 0 | Inr _ \<Rightarrow> 1]") auto

fun match_loop :: "bytes \<Rightarrow> bytes \<Rightarrow> bool" where
  "match_loop re tx = (if matchhere re tx then True else case tx of [] \<Rightarrow> False | _ # tx' \<Rightarrow> match_loop re tx')"

definition match :: "bytes \<Rightarrow> bytes \<Rightarrow> bool" where
  "match re tx = (if re \<noteq> [] \<and> hd re = 94 then matchhere (tl re) tx else match_loop re tx)"

section \<open>The loop over the lines\<close>

lemma strchr_bound: "strchr (p @ [0]) c = Some (Some q) \<Longrightarrow> q < length p"
  by (induction p arbitrary: q) (auto split: if_splits)

text \<open>The inner loop, from \<open>p\<close> on: the lines written, and where \<open>p\<close> stops.\<close>

function grep_lines :: "bytes \<Rightarrow> bytes \<Rightarrow> bytes list \<times> bytes" where
  "grep_lines pat p =
     (case strchr (p @ [0]) 10 of
        Some (Some q) \<Rightarrow>
          let (out, rest) = grep_lines pat (drop (q + 1) p)
          in (if match pat (take q p) then take (q + 1) p # out else out, rest)
      | _ \<Rightarrow> ([], p))"
  by pat_completeness auto
termination by (relation "measure (\<lambda>(_, p). length p)") (auto dest: strchr_bound)

text \<open>What stays in the buffer for the next read: \<open>memmove(buf, p, m)\<close>, or nothing if no line ended.\<close>

definition grep_keep :: "bytes \<Rightarrow> bytes \<Rightarrow> bytes option" where
  "grep_keep b p =
     (if length p = length b then Some []
      else map_option (take (length p)) (umemmove b 0 (length b - length p) (int (length p))))"

definition GREP_BUF :: nat where "GREP_BUF = 1024"

text \<open>\<open>None\<close>: the list is not one that \<open>read\<close> can return for the space left in the buffer.\<close>

fun grep_loop :: "bytes \<Rightarrow> bytes \<Rightarrow> bytes list \<Rightarrow> bytes list option" where
  "grep_loop pat m [] = Some []"
| "grep_loop pat m (n # ns) =
     (if n = [] \<or> GREP_BUF - length m - 1 < length n then None
      else let b = m @ n; (out, p) = grep_lines pat b
        in case grep_keep b p of None \<Rightarrow> None
         | Some m' \<Rightarrow> map_option ((@) out) (grep_loop pat m' ns))"

definition grep :: "bytes \<Rightarrow> bytes list \<Rightarrow> writes option" where
  "grep pat ns = map_option (map (\<lambda>l. (1, l))) (grep_loop (cstr pat) [] ns)"

text \<open>
  \<open>main\<close>: \<open>opens\<close> gives for a file name what reading it returns, or \<open>None\<close> when it cannot be opened;
  \<open>stdin\<close> is what reading descriptor 0 returns.  The result is the list of the writes before \<open>exit\<close>.
\<close>

fun grep_files :: "bytes \<Rightarrow> (bytes \<Rightarrow> bytes list option) \<Rightarrow> bytes list \<Rightarrow> writes option" where
  "grep_files pat opens [] = Some []"
| "grep_files pat opens (f # fs) =
     (case opens f of
        None \<Rightarrow> printf_to 1 (''grep: cannot open %s'' @ [CHR 0x0A]) [str_arg f]
      | Some ns \<Rightarrow> (case grep pat ns of None \<Rightarrow> None | Some w \<Rightarrow> map_option ((@) w) (grep_files pat opens fs)))"

definition grep_main :: "(bytes \<Rightarrow> bytes list option) \<Rightarrow> bytes list \<Rightarrow> bytes list \<Rightarrow> writes option" where
  "grep_main opens stdin argv =
     (if length argv \<le> 1 then printf_to 2 (''usage: grep pattern [file ...]'' @ [CHR 0x0A]) []
      else if length argv \<le> 2 then grep (argv ! 1) stdin
      else grep_files (argv ! 1) opens (drop 2 argv))"

declare match_loop.simps [simp del] grep_lines.simps [simp del]

section \<open>What the matcher decides\<close>

text \<open>
  A reference semantics of patterns: a list of items, and when a text starts with a match of them.
  A dollar sign is an item of its own only at the end, a star only after another character.
\<close>

datatype item = One uchar | Many uchar | End

fun items :: "bytes \<Rightarrow> item list" where
  "items [] = []"
| "items [c] = (if c = 36 then [End] else [One c])"
| "items (c # d # re) = (if d = 42 then Many c # items re else One c # items (d # re))"

definition accepts :: "uchar \<Rightarrow> uchar \<Rightarrow> bool" where
  "accepts c a \<longleftrightarrow> c = 46 \<or> a = c"

inductive starts_with :: "item list \<Rightarrow> bytes \<Rightarrow> bool" where
  nothing: "starts_with [] t"
| at_end: "starts_with [End] []"
| one: "accepts c a \<Longrightarrow> starts_with is t \<Longrightarrow> starts_with (One c # is) (a # t)"
| many: "list_all (accepts c) u \<Longrightarrow> starts_with is v \<Longrightarrow> starts_with (Many c # is) (u @ v)"

inductive_simps starts_with_simps [simp]:
  "starts_with [] t" "starts_with [End] t" "starts_with (One c # is) t"

inductive_cases starts_with_ManyE: "starts_with (Many c # is) t"

lemma starts_with_Many:
  "starts_with (Many c # is) t \<longleftrightarrow> starts_with is t \<or> (\<exists>a t'. t = a # t' \<and> accepts c a \<and> starts_with (Many c # is) t')"
proof
  assume "starts_with (Many c # is) t"
  then obtain u v where "t = u @ v" "list_all (accepts c) u" "starts_with is v" by (rule starts_with_ManyE)
  then show "starts_with is t \<or> (\<exists>a t'. t = a # t' \<and> accepts c a \<and> starts_with (Many c # is) t')"
    by (cases u) (auto intro: many)
next
  assume r: "starts_with is t \<or> (\<exists>a t'. t = a # t' \<and> accepts c a \<and> starts_with (Many c # is) t')"
  show "starts_with (Many c # is) t"
  proof (cases "starts_with is t")
    case True
    then show ?thesis using many[of c "[]" "is" t] by simp
  next
    case False
    then obtain a u v where "t = a # u @ v" "accepts c a" "list_all (accepts c) u" "starts_with is v"
      using r by (auto elim!: starts_with_ManyE)
    then show ?thesis using many[of c "a # u" "is" v] by simp
  qed
qed

lemma matchhere_eq:
  "matchhere re tx \<longleftrightarrow> starts_with (items re) tx"
  "matchstar c re' tx' \<longleftrightarrow> starts_with (Many c # items re') tx'"
proof (induction re tx and c re' tx' rule: matchhere_matchstar.induct)
  case (2 c re tx)
  then show ?case by (cases re; cases tx) (auto simp: accepts_def)
next
  case (3 c re tx)
  then show ?case by (subst starts_with_Many; cases tx) (auto simp: accepts_def)
qed simp

lemma match_loop_eq: "match_loop re tx \<longleftrightarrow> (\<exists>u v. tx = u @ v \<and> starts_with (items re) v)"
proof (induction tx)
  case Nil
  then show ?case by (simp add: matchhere_eq match_loop.simps)
next
  case (Cons a tx)
  then show ?case
    by (subst match_loop.simps) (auto simp: matchhere_eq Cons_eq_append_conv)
qed

text \<open>
  C35: the matcher decides the pattern language: with a leading \<open>^\<close> a text matches when it starts
  with a match of the items of the rest of the pattern, otherwise when one of its suffixes, the empty
  one included, starts with a match of the items of the pattern.
\<close>

theorem match_correct:
  "match re tx \<longleftrightarrow>
     (case re of
        c # re' \<Rightarrow> if c = 94 then starts_with (items re') tx else (\<exists>u v. tx = u @ v \<and> starts_with (items re) v)
      | [] \<Rightarrow> True)"
proof (cases re)
  case Nil
  then show ?thesis by (auto simp: match_def match_loop_eq)
next
  case (Cons c re')
  then show ?thesis by (auto simp: match_def match_loop_eq matchhere_eq)
qed

section \<open>What grep prints\<close>

text \<open>The complete lines of the input with their newlines, and what follows the last newline.\<close>

fun split_lines :: "bytes \<Rightarrow> bytes list \<times> bytes" where
  "split_lines [] = ([], [])"
| "split_lines (c # s) =
     (case split_lines s of (ls, r) \<Rightarrow>
        if c = 10 then ([c] # ls, r)
        else case ls of [] \<Rightarrow> ([], c # r) | l # ls' \<Rightarrow> ((c # l) # ls', r))"

lemma split_lines_none: "10 \<notin> set s \<Longrightarrow> split_lines s = ([], s)"
  by (induction s) auto

lemma split_lines_line: "10 \<notin> set l \<Longrightarrow>
   split_lines (l @ 10 # s) = ((l @ [10]) # fst (split_lines s), snd (split_lines s))"
  by (induction l) (auto split: prod.splits)

lemma split_lines_append:
  "split_lines (s @ t) = (let (ls, r) = split_lines s; (ls', r') = split_lines (r @ t) in (ls @ ls', r'))"
proof (induction s)
  case (Cons c s)
  obtain ls r where s: "split_lines s = (ls, r)" by fastforce
  obtain ls' r' where t: "split_lines (r @ t) = (ls', r')" by fastforce
  show ?case using Cons s t by (auto split: list.splits prod.splits)
qed simp

lemma grep_lines_eq:
  assumes "0 \<notin> set p"
  shows "grep_lines pat p = (filter (\<lambda>l. match pat (butlast l)) (fst (split_lines p)), snd (split_lines p))"
  using assms
proof (induction pat p rule: grep_lines.induct)
  case (1 pat p)
  have s: "strchr (p @ [0]) 10 = Some (if 10 \<in> set p then Some (length (takeWhile (\<lambda>a. a \<noteq> 10) p)) else None)"
    using 1(2) strchr_append[of p 10 "[]"] by simp
  show ?case
  proof (cases "10 \<in> set p")
    case False
    then show ?thesis using s by (subst grep_lines.simps) (simp add: split_lines_none)
  next
    case True
    then obtain l q where p: "p = l @ 10 # q" "10 \<notin> set l" by (meson split_list_first)
    have "takeWhile (\<lambda>a. a \<noteq> 10) l = l" using p(2) by (auto simp: takeWhile_eq_all_conv)
    then have n: "strchr (p @ [0]) 10 = Some (Some (length l))" using s p by (simp add: takeWhile_tail)
    have "grep_lines pat q = (filter (\<lambda>l. match pat (butlast l)) (fst (split_lines q)), snd (split_lines q))"
      using 1(1)[OF n] 1(2) p n by simp
    then show ?thesis using n p by (subst grep_lines.simps) (simp add: split_lines_line)
  qed
qed

text \<open>The reads \<open>grep\<close> can be given: each fits in the free part of the buffer and ends a line.\<close>

fun reads_ok :: "bytes \<Rightarrow> bytes list \<Rightarrow> bool" where
  "reads_ok m [] \<longleftrightarrow> True"
| "reads_ok m (n # ns) \<longleftrightarrow> length m + length n < GREP_BUF \<and> 10 \<in> set n \<and> 0 \<notin> set n \<and>
     reads_ok (snd (split_lines n)) ns"

lemma split_lines_last: "10 \<notin> set q \<Longrightarrow> fst (split_lines (a @ 10 # q)) \<noteq> [] \<and> snd (split_lines (a @ 10 # q)) = q"
  by (induction a) (auto simp: split_lines_none split: prod.splits list.splits)

lemma split_lines_snd: "10 \<in> set n \<Longrightarrow> snd (split_lines (m @ n)) = snd (split_lines n)"
  using split_lines_last[of _ "m @ _"] split_lines_last by (metis append.assoc split_list_last)

lemma umemmove_front:
  assumes "n \<le> length b"
  shows "map_option (take n) (umemmove b 0 (length b - n) (int n)) = Some (drop (length b - n) b)"
proof -
  obtain b' where b': "move_up b 0 (length b - n) n = Some b'" "length b' = length b"
    "\<forall>i<length b. b' ! i = (if i < n then b ! (length b - n + i) else b ! i)"
    using move_up_nth[of 0 "length b - n" n b] assms by auto
  then have "take n b' = drop (length b - n) b" using assms by (auto intro!: nth_equalityI)
  then show ?thesis using b' by (simp add: umemmove_def)
qed

lemma split_lines_suffix: "10 \<in> set s \<Longrightarrow> \<exists>a. s = a @ 10 # snd (split_lines s) \<and> 10 \<notin> set (snd (split_lines s))"
  using split_lines_last split_list_last by metis

lemma grep_keep_eq:
  assumes "10 \<in> set b"
  shows "grep_keep b (snd (split_lines b)) = Some (snd (split_lines b))"
proof -
  obtain a where a: "b = a @ 10 # snd (split_lines b)" using split_lines_suffix[OF assms] by blast
  let ?r = "snd (split_lines b)"
  have l: "length b = Suc (length a) + length ?r" by (subst a) simp
  have "drop (length b - length ?r) b = ?r" using l by (subst (2) a) simp
  then show ?thesis using umemmove_front[of "length ?r" b] l by (simp add: grep_keep_def)
qed

lemma grep_loop_eq:
  assumes "reads_ok m ns" "0 \<notin> set m" "10 \<notin> set m"
  shows "grep_loop pat m ns = Some (filter (\<lambda>l. match pat (butlast l)) (fst (split_lines (m @ concat ns))))"
  using assms
proof (induction ns arbitrary: m)
  case (Cons n ns)
  let ?r = "snd (split_lines n)" and ?P = "\<lambda>l. match pat (butlast l)"
  have n: "10 \<in> set n" "0 \<notin> set n" "n \<noteq> []" "\<not> GREP_BUF - length m - 1 < length n" using Cons.prems by auto
  have r: "snd (split_lines (m @ n)) = ?r" using n(1) by (rule split_lines_snd)
  obtain a where a: "n = a @ 10 # ?r" "10 \<notin> set ?r" using split_lines_suffix[OF n(1)] by blast
  have "0 \<notin> set ?r" using n(2) by (subst (asm) a(1)) simp
  then have IH: "grep_loop pat ?r ns = Some (filter ?P (fst (split_lines (?r @ concat ns))))"
    using Cons a(2) by auto
  have l: "grep_lines pat (m @ n) = (filter ?P (fst (split_lines (m @ n))), ?r)"
    using grep_lines_eq[of "m @ n" pat] Cons.prems r by auto
  have k: "grep_keep (m @ n) ?r = Some ?r" using grep_keep_eq[of "m @ n"] n(1) r by simp
  have "fst (split_lines ((m @ n) @ concat ns)) = fst (split_lines (m @ n)) @ fst (split_lines (?r @ concat ns))"
    using split_lines_append[of "m @ n" "concat ns"] r by (simp add: split_beta)
  then show ?case using n l k IH by simp
qed (simp add: split_lines_none)

text \<open>
  C36: when every read ends at least one line and contains no zero byte, \<open>grep\<close> writes exactly the
  complete lines of its input that match, in order and each with its newline, however the input is
  cut into reads.
\<close>

theorem grep_correct:
  assumes "reads_ok [] ns"
  shows "grep pat ns = Some (map (\<lambda>l. (1, l)) (filter (\<lambda>l. match (cstr pat) (butlast l)) (fst (split_lines (concat ns)))))"
  using grep_loop_eq[of "[]" ns] assms by (simp add: grep_def)

theorem grep_correct_witness:
  "reads_ok [] [[97, 98, 10, 97], [97, 98, 10, 99, 10]] \<and>
   grep [98, 36, 0] [[97, 98, 10, 97], [97, 98, 10, 99, 10]] = Some [(1, [97, 98, 10]), (1, [97, 97, 98, 10])]"
proof -
  have ok: "reads_ok [] [[97, 98, 10, 97], [97, 98, 10, 99, 10]]" by (simp add: GREP_BUF_def)
  show ?thesis
    using ok grep_correct[OF ok, of "[98, 36, 0]"] by (simp add: match_def match_loop.simps)
qed

text \<open>
  The hypothesis cannot be dropped: what is buffered when a read ends no line is thrown away, so the
  line \<open>ab\<close> is printed as \<open>b\<close> when the reads are \<open>a\<close> and \<open>b\<close> with the newline.
\<close>

lemma grep_drops_partial_line:
  "grep [98, 0] [[97], [98, 10]] = Some [(1, [98, 10])]"
  by code_simp

end
