(* ===== verification/Xvsh.thy ===== *)
theory Xvsh
  imports Ulib
begin

text \<open>
  \<^verbatim>\<open>xvsh.c\<close>, the shell: the tokenizer \<open>strtok\<close>, the parsing of a command line, the execution of
  one command and the main loop.

  Pointers into the line buffer are offsets into its bytes, a null pointer is \<open>None\<close>.  The outer
  \<open>None\<close> of a result is an access outside an array or through a null pointer.  The system calls a
  process makes are recorded in a list; what they return is an argument.
\<close>

section \<open>strtok\<close>

text \<open>The characters of \<open>delim\<close> before its zero byte are the delimiters.\<close>

function skip_delims :: "bytes \<Rightarrow> bytes \<Rightarrow> nat \<Rightarrow> nat option" where
  "skip_delims b delim p =
     (if p < length b then if b ! p \<in> set (cstr delim) then skip_delims b delim (p + 1) else Some p else None)"
  by pat_completeness auto
termination by (relation "measure (\<lambda>(b, _, p). length b - p)") auto

function scan_token :: "bytes \<Rightarrow> bytes \<Rightarrow> nat \<Rightarrow> nat option" where
  "scan_token b delim p =
     (if p < length b then if b ! p \<in> insert 0 (set (cstr delim)) then Some p else scan_token b delim (p + 1) else None)"
  by pat_completeness auto
termination by (relation "measure (\<lambda>(b, _, p). length b - p)") auto

declare skip_delims.simps [simp del] scan_token.simps [simp del]

text \<open>The result is the token, the buffer and the static variable \<open>last\<close>.\<close>

definition strtok :: "bytes \<Rightarrow> bytes \<Rightarrow> nat option \<Rightarrow> nat option \<Rightarrow> (nat option \<times> bytes \<times> nat option) option" where
  "strtok b delim s lst =
     (case (if s = None then lst else s) of
        None \<Rightarrow> Some (None, b, lst)
      | Some p \<Rightarrow>
          (case skip_delims b delim p of
             None \<Rightarrow> None
           | Some t \<Rightarrow>
               if b ! t = 0 then Some (None, b, None)
               else (case scan_token b delim (t + 1) of
                   None \<Rightarrow> None
                 | Some e \<Rightarrow>
                     if b ! e = 0 then Some (Some t, b, None)
                     else Some (Some t, b[e := 0], Some (e + 1)))))"

section \<open>Parsing a command line\<close>

fun count_spaces :: "bytes \<Rightarrow> nat \<Rightarrow> nat" where
  "count_spaces b 0 = 0"
| "count_spaces b (Suc i) = (if b ! Suc i = 32 then 1 else 0) + count_spaces b i"

text \<open>On an empty string the loop starts at index -1 and runs downwards from there.\<close>

definition num_tok :: "bytes \<Rightarrow> nat option" where
  "num_tok b = (case ustrlen b of Some (Suc i) \<Rightarrow> Some (1 + count_spaces b i) | _ \<Rightarrow> None)"

function tok_loop :: "bytes \<Rightarrow> nat option \<Rightarrow> nat option list \<Rightarrow> nat \<Rightarrow> nat \<Rightarrow> (bytes \<times> nat option list \<times> nat) option" where
  "tok_loop b lst tok i bg =
     (if i < length tok
      then (case strtok b (lit '' '') None lst of
          None \<Rightarrow> None
        | Some (None, b', last') \<Rightarrow> Some (b', tok[i := None], bg)
        | Some (Some p, b', last') \<Rightarrow>
            if b' ! p = 38 then tok_loop b' last' (tok[i := None]) (i + 1) i
            else tok_loop b' last' (tok[i := Some p]) (i + 1) bg)
      else None)"
  by pat_completeness auto
termination by (relation "measure (\<lambda>(_, _, tok, i, _). length tok - i)") auto

declare tok_loop.simps [simp del]

text \<open>\<open>arr\<close>: what the words of the array that \<open>malloc\<close> returns hold at first; \<open>lst\<close>: \<open>last\<close>, left by earlier calls.\<close>

definition tokenize :: "(nat \<Rightarrow> nat option) \<Rightarrow> nat option \<Rightarrow> bytes \<Rightarrow> (bytes \<times> nat option list \<times> nat) option" where
  "tokenize arr lst b =
     (case num_tok b of
        None \<Rightarrow> None
      | Some n \<Rightarrow>
          (case strtok b (lit '' '') (Some 0) lst of
             None \<Rightarrow> None
           | Some (t, b', last') \<Rightarrow> tok_loop b' last' ((map arr [0..<n + 1])[0 := t]) 1 0))"

section \<open>Running a command\<close>

datatype xcall = XPrint string | XFork | XWait | XExec bytes "bytes list" | XExit

text \<open>How a function ends: it returns, the process has exited, or \<open>exec\<close> has replaced the program.\<close>

datatype ending = Returned | Exited | Replaced

definition at :: "bytes \<Rightarrow> nat \<Rightarrow> bytes" where
  "at b p = cstr (drop p b)"

text \<open>\<open>exit_check\<close> dereferences \<open>tok[0]\<close>.\<close>

definition exit_check :: "bytes \<Rightarrow> nat option list \<Rightarrow> bool option" where
  "exit_check b tok =
     (case tok of Some p # _ \<Rightarrow> map_option (\<lambda>d. d = 0) (strcmp (drop p b) (lit ''exit'')) | _ \<Rightarrow> None)"

text \<open>The strings \<open>exec\<close> finds in \<open>tok\<close>: those before the first null pointer.\<close>

definition exec_argv :: "bytes \<Rightarrow> nat option list \<Rightarrow> bytes list" where
  "exec_argv b tok = map (\<lambda>t. at b (the t)) (takeWhile (\<lambda>t. t \<noteq> None) tok)"

text \<open>\<open>x\<close>: the result of \<open>fork\<close>; \<open>exec_ok\<close>: whether \<open>exec\<close> succeeds.\<close>

definition process_normal :: "int \<Rightarrow> bool \<Rightarrow> bytes \<Rightarrow> nat option list \<Rightarrow> nat \<Rightarrow> (xcall list \<times> ending) option" where
  "process_normal x exec_ok b tok bg =
     (if 0 < x \<and> bg < 1 then Some ([XFork, XWait], Returned)
      else if x = 0 then
        (case tok of
           Some p # _ \<Rightarrow>
             if exec_ok then Some ([XFork, XExec (at b p) (exec_argv b tok)], Replaced)
             else map_option (\<lambda>m. ([XFork, XExec (at b p) (exec_argv b tok), XPrint m], Returned))
               (uprintf (''Cannot run this command %s '' @ [CHR 0x0A]) [str_arg (drop p b)])
         | _ \<Rightarrow> None)
      else if 1 < bg then
        map_option (\<lambda>m. ([XFork, XPrint m], Returned))
          (uprintf (''[pid %d] runs as a background process '' @ [CHR 0x0A]) [IntArg (of_int x)])
      else Some ([XFork], Returned))"

text \<open>What the system gives one command: \<open>malloc\<close>'s array or its failure, and the results of \<open>fork\<close> and \<open>exec\<close>.\<close>

record xenv =
  x_malloc :: "(nat \<Rightarrow> nat option) option"
  x_fork :: int
  x_exec :: bool

definition process_one_cmd :: "xenv \<Rightarrow> nat option \<Rightarrow> bytes \<Rightarrow> (xcall list \<times> ending) option" where
  "process_one_cmd e lst b =
     (case num_tok b of
        None \<Rightarrow> None
      | Some _ \<Rightarrow>
          (case x_malloc e of
             None \<Rightarrow> Some ([XPrint (''malloc failed'' @ [CHR 0x0A]), XExit], Exited)
           | Some arr \<Rightarrow>
               (case tokenize arr lst b of
                  None \<Rightarrow> None
                | Some (b', tok, bg) \<Rightarrow>
                    (case exit_check b' tok of
                       None \<Rightarrow> None
                     | Some True \<Rightarrow> Some ([XWait, XExit], Exited)
                     | Some False \<Rightarrow> process_normal (x_fork e) (x_exec e) b' tok bg))))"

section \<open>The main loop\<close>

definition SH_PROMPT :: string where "SH_PROMPT = ''xvsh> ''"
definition MAXLINE :: nat where "MAXLINE = 256"

text \<open>
  One round of the loop: \<open>n\<close> is the result of \<open>read\<close> and \<open>inp\<close> the bytes it has stored.  After a
  round that returns the buffer is what \<open>memset\<close> leaves.
\<close>

definition xvsh_round :: "xenv \<Rightarrow> nat option \<Rightarrow> bytes \<Rightarrow> int \<Rightarrow> bytes \<Rightarrow> (xcall list \<times> ending \<times> bytes) option" where
  "xvsh_round e lst b n inp =
     (let b = blit b 0 inp
      in if n = 1 then Some ([XPrint SH_PROMPT], Returned, b)
      else (case ustrlen b of
          Some (Suc i) \<Rightarrow>
            (case process_one_cmd e lst (b[i := 0]) of
               None \<Rightarrow> None
             | Some (cs, Returned) \<Rightarrow> Some (cs @ [XPrint SH_PROMPT], Returned, replicate MAXLINE 0)
             | Some (cs, r) \<Rightarrow> Some (cs, r, b))
        | _ \<Rightarrow> None))"

text \<open>
  The loop, over the reads that do not return 0; the next one does.  A command that returns has called
  \<open>strtok\<close> until it returned a null pointer, which leaves \<open>last\<close> null (\<open>strtok_null\<close> below).
\<close>

fun xvsh_loop :: "nat option \<Rightarrow> bytes \<Rightarrow> (xenv \<times> int \<times> bytes) list \<Rightarrow> (xcall list \<times> ending) option" where
  "xvsh_loop lst b [] = Some ([XExit], Exited)"
| "xvsh_loop lst b ((e, n, inp) # rs) =
     (case xvsh_round e lst b n inp of
        None \<Rightarrow> None
      | Some (cs, Returned, b') \<Rightarrow> map_option (\<lambda>(cs', r). (cs @ cs', r)) (xvsh_loop None b' rs)
      | Some (cs, r, b') \<Rightarrow> Some (cs, r))"

definition xvsh_main :: "bytes \<Rightarrow> (xenv \<times> int \<times> bytes) list \<Rightarrow> (xcall list \<times> ending) option" where
  "xvsh_main b rs = map_option (\<lambda>(cs, r). (XPrint SH_PROMPT # cs, r)) (xvsh_loop None b rs)"

section \<open>Facts\<close>

lemma strtok_null: "strtok b delim s lst = Some (None, b', last') \<Longrightarrow> last' = None"
  by (auto simp: strtok_def split: option.splits if_splits)

section \<open>The words of a line\<close>

text \<open>The reference: the maximal runs of characters that are not spaces.\<close>

function words :: "bytes \<Rightarrow> bytes list" where
  "words [] = []"
| "words (c # s) = (if c = 32 then words s
     else (c # takeWhile (\<lambda>a. a \<noteq> 32) s) # words (dropWhile (\<lambda>a. a \<noteq> 32) s))"
  by pat_completeness auto
termination by (relation "measure length") (auto simp: length_dropWhile_le less_Suc_eq_le)

lemma delims [simp]: "set (cstr (lit '' '')) = {32}"
  by (simp add: lit_def)

lemma nth_suffix: "drop p b = c # u \<Longrightarrow> p < length b \<and> b ! p = c \<and> drop (Suc p) b = u"
  by (metis Cons_nth_drop_Suc drop_all list.inject list.distinct(1) not_le)

lemma skip_spaces:
  "drop p b = u @ 0 # r \<Longrightarrow> skip_delims b (lit '' '') p = Some (p + length (takeWhile (\<lambda>a. a = 32) u))"
proof (induction u arbitrary: p)
  case Nil
  then show ?case using nth_suffix[of p b 0 r] by (subst skip_delims.simps) simp
next
  case (Cons a u)
  then show ?case using nth_suffix[of p b a "u @ 0 # r"] by (subst skip_delims.simps) simp
qed

lemma scan_word:
  "drop p b = u @ 0 # r \<Longrightarrow> 0 \<notin> set u \<Longrightarrow>
    scan_token b (lit '' '') p = Some (p + length (takeWhile (\<lambda>a. a \<noteq> 32) u))"
proof (induction u arbitrary: p)
  case Nil
  then show ?case using nth_suffix[of p b 0 r] by (subst scan_token.simps) simp
next
  case (Cons a u)
  then show ?case using nth_suffix[of p b a "u @ 0 # r"] by (subst scan_token.simps) auto
qed

text \<open>What remains to be read: \<open>lst\<close> points at a string with the words \<open>ws\<close>.\<close>

definition pending :: "bytes \<Rightarrow> nat option \<Rightarrow> bytes list \<Rightarrow> bool" where
  "pending b lst ws \<longleftrightarrow> (case lst of None \<Rightarrow> ws = []
     | Some p \<Rightarrow> \<exists>u r. drop p b = u @ 0 # r \<and> 0 \<notin> set u \<and> words u = ws)"

definition bound :: "bytes \<Rightarrow> nat option \<Rightarrow> nat" where
  "bound b lst = (case lst of None \<Rightarrow> length b | Some p \<Rightarrow> p)"

lemma words_none: "words u = [] \<Longrightarrow> set u \<subseteq> {32}"
  by (induction u rule: words.induct) (auto split: if_splits)

lemma words_first:
  "words u = w # ws \<Longrightarrow> \<exists>sp v. u = sp @ w @ v \<and> set sp \<subseteq> {32} \<and> w \<noteq> [] \<and> 32 \<notin> set w \<and>
     (v = [] \<and> ws = [] \<or> (\<exists>y. v = 32 # y \<and> words y = ws))"
proof (induction u)
  case (Cons c u)
  show ?case
  proof (cases "c = 32")
    case True
    then obtain sp v where "u = sp @ w @ v" "set sp \<subseteq> {32}" "w \<noteq> []" "32 \<notin> set w"
      "v = [] \<and> ws = [] \<or> (\<exists>y. v = 32 # y \<and> words y = ws)"
      using Cons by auto
    then show ?thesis using True by (intro exI[of _ "c # sp"] exI[of _ v]) auto
  next
    case False
    define v where "v = dropWhile (\<lambda>a. a \<noteq> 32) u"
    have "c # u = w @ v" "32 \<notin> set w" "w \<noteq> []" "ws = words v"
      using Cons.prems False by (auto simp: v_def dest: set_takeWhileD)
    moreover have "v = [] \<or> (\<exists>y. v = 32 # y)"
      unfolding v_def by (induction u) auto
    ultimately show ?thesis by (intro exI[of _ "[]"] exI[of _ v]) auto
  qed
qed simp

lemma takeWhile_spaces: "set sp \<subseteq> {32} \<Longrightarrow> x = [] \<or> hd x \<noteq> 32 \<Longrightarrow> takeWhile (\<lambda>a. a = 32) (sp @ x) = sp"
  by (induction sp) (cases x; auto)+

lemma takeWhile_word: "32 \<notin> set w \<Longrightarrow> v = [] \<or> hd v = 32 \<Longrightarrow> takeWhile (\<lambda>a. a \<noteq> 32) (w @ v) = w"
  by (induction w) (cases v; auto)+

text \<open>One call of \<open>strtok\<close> on a string: nothing is left, or it returns the next word.\<close>

lemma strtok_blank:
  assumes b: "b = pre @ u @ 0 # r" and u: "words u = []"
    and s: "s = Some (length pre) \<or> s = None \<and> lst = Some (length pre)"
  shows "strtok b (lit '' '') s lst = Some (None, b, None)"
proof -
  have tw: "takeWhile (\<lambda>a. a = 32) u = u" using takeWhile_spaces[of u "[]"] words_none[OF u] by simp
  have "skip_delims b (lit '' '') (length pre) = Some (length pre + length u)"
    using skip_spaces[of "length pre" b u r, unfolded tw] b by simp
  moreover have "b ! (length pre + length u) = 0" using b by (simp add: nth_append)
  ultimately show ?thesis using s by (auto simp: strtok_def)
qed

lemma strtok_word:
  assumes b: "b = pre @ sp @ w @ v @ 0 # r" and sp: "set sp \<subseteq> {32}" and w: "w \<noteq> []" "32 \<notin> set w" "0 \<notin> set (w @ v)"
    and v: "v = [] \<or> hd v = 32"
    and s: "s = Some (length pre) \<or> s = None \<and> lst = Some (length pre)"
  shows "strtok b (lit '' '') s lst =
    (let t = length pre + length sp; e = t + length w in
     if v = [] then Some (Some t, b, None) else Some (Some t, pre @ sp @ w @ 0 # tl v @ 0 # r, Some (e + 1)))"
proof -
  obtain c w' where c: "w = c # w'" "c \<noteq> 32" "c \<noteq> 0" "32 \<notin> set w'" using w by (cases w) auto
  let ?t = "length pre + length sp"
  have sk: "skip_delims b (lit '' '') (length pre) = Some ?t"
    using skip_spaces[of "length pre" b "sp @ w @ v" r] takeWhile_spaces[OF sp, of "w @ v"] b c by simp
  have sc: "scan_token b (lit '' '') (?t + 1) = Some (?t + length w)"
    using scan_word[of "?t + 1" b "w' @ v" r] takeWhile_word[of w' v] b c v w by simp
  have bt: "b ! ?t = c" "b ! (?t + length w) = (if v = [] then 0 else 32)"
    "v \<noteq> [] \<Longrightarrow> b[?t + length w := 0] = pre @ sp @ w @ 0 # tl v @ 0 # r"
    using b c v by (cases v; simp add: nth_append list_update_append)+
  then show ?thesis using s sk sc c by (auto simp: strtok_def Let_def)
qed

lemma strtok_pending:
  assumes "pending b lst ws" "bound b lst \<le> length b"
  shows "case ws of
      [] \<Rightarrow> strtok b (lit '' '') None lst = Some (None, b, None)
    | w # ws' \<Rightarrow> \<exists>t b' lst'. strtok b (lit '' '') None lst = Some (Some t, b', lst') \<and> length b' = length b \<and>
        take (bound b lst) b' = take (bound b lst) b \<and> at b' t = w \<and> w \<noteq> [] \<and> b' ! t = hd w \<and>
        bound b lst \<le> t \<and> t + length w < bound b' lst' \<and> b' ! (t + length w) = 0 \<and>
        bound b' lst' \<le> length b \<and> pending b' lst' ws'"
proof (cases lst)
  case None
  then show ?thesis using assms by (simp add: pending_def strtok_def)
next
  case (Some p)
  then obtain u r where u: "drop p b = u @ 0 # r" "0 \<notin> set u" "words u = ws"
    using assms(1) by (auto simp: pending_def)
  define pre where "pre = take p b"
  have b: "b = pre @ u @ 0 # r" "p = length pre"
    using u(1) assms(2) Some by (auto simp: pre_def bound_def) (metis append_take_drop_id)
  show ?thesis
  proof (cases ws)
    case Nil
    then show ?thesis using strtok_blank[OF b(1), of None lst] u(3) Some b(2) by simp
  next
    case (Cons w ws')
    obtain sp v where v: "u = sp @ w @ v" "set sp \<subseteq> {32}" "w \<noteq> []" "32 \<notin> set w"
      "v = [] \<and> ws' = [] \<or> (\<exists>y. v = 32 # y \<and> words y = ws')"
      using words_first[of u w ws'] u(3) Cons by blast
    have bb: "b = pre @ sp @ w @ v @ 0 # r" using b(1) v(1) by simp
    have st: "strtok b (lit '' '') None lst =
        (if v = [] then Some (Some (p + length sp), b, None)
         else Some (Some (p + length sp), pre @ sp @ w @ 0 # tl v @ 0 # r, Some (p + length sp + length w + 1)))"
      using strtok_word[OF bb v(2,3,4), of None lst] v u(2) Some b(2) by (auto simp: Let_def)
    have at: "at (pre @ sp @ w @ 0 # x) (p + length sp) = w" for x
      using b(2) u(2) v(1) by (simp add: at_def cstr_append)
    show ?thesis
      using v(5) st bb Cons Some b(2) u(2) v(1,3) at
      by (auto simp: bound_def pending_def nth_append hd_conv_nth)
  qed
qed

section \<open>The token array\<close>

text \<open>What the code leaves in \<open>tok\<close> for a word after the first, and the value of \<open>bg\<close>.\<close>

definition mark :: "bytes \<Rightarrow> bytes option" where
  "mark w = (if hd w = 38 then None else Some w)"

fun last_amp :: "nat \<Rightarrow> nat \<Rightarrow> bytes list \<Rightarrow> nat" where
  "last_amp i bg [] = bg"
| "last_amp i bg (w # ws) = last_amp (i + 1) (if hd w = 38 then i else bg) ws"

lemma at_prefix:
  assumes "take n b' = take n b" "t \<le> k" "k < n" "n \<le> length b" "b ! k = 0" "length b' = length b"
  shows "at b' t = at b t"
proof -
  have "take n b ! k = 0" "k < length (take n b)" using assms by simp_all
  then have "drop t (take n b) ! (k - t) = 0" "k - t < length (drop t (take n b))"
    using assms(2-4) by (simp, simp add: min_def diff_less_mono)
  then have z: "0 \<in> set (drop t (take n b))" by (metis nth_mem)
  have l: "drop t x = drop t (take n x) @ drop n x" if "n \<le> length x" for x :: bytes
    using that assms(2,3) drop_append[of t "take n x" "drop n x"] by simp
  show ?thesis
    using z l[of b] l[of b'] assms takeWhile_append1[of 0 "drop t (take n b)" "\<lambda>c. c \<noteq> 0"]
    by (simp add: at_def cstr_def)
qed

lemma take_shorter: "take n x = take n y \<Longrightarrow> m \<le> n \<Longrightarrow> take m x = take m y"
  by (metis min.absorb1 take_take)

lemma tok_loop_words:
  assumes "pending b lst ws" "bound b lst \<le> length b" "i + length ws < length tok"
  shows "\<exists>b' tok'. tok_loop b lst tok i bg = Some (b', tok', last_amp i bg ws) \<and> length b' = length b \<and>
     length tok' = length tok \<and> take (bound b lst) b' = take (bound b lst) b \<and> take i tok' = take i tok \<and>
     map (map_option (at b')) (take (Suc (length ws)) (drop i tok')) = map mark ws @ [None]"
  using assms
proof (induction ws arbitrary: b lst tok i bg)
  case Nil
  then show ?case using strtok_pending[OF Nil(1,2)]
    by (subst tok_loop.simps) (auto simp: Cons_nth_drop_Suc[symmetric])
next
  case (Cons w ws)
  obtain t b1 lst1 where st: "strtok b (lit '' '') None lst = Some (Some t, b1, lst1)" and
    b1: "length b1 = length b" "take (bound b lst) b1 = take (bound b lst) b" "at b1 t = w" "b1 ! t = hd w"
      "bound b lst \<le> t" "t + length w < bound b1 lst1" "b1 ! (t + length w) = 0" "bound b1 lst1 \<le> length b" "pending b1 lst1 ws"
    using strtok_pending[OF Cons.prems(1,2)] by auto
  define tok1 bg1 where "tok1 = tok[i := if hd w = 38 then None else Some t]" and "bg1 = (if hd w = 38 then i else bg)"
  have lp: "tok_loop b lst tok i bg = tok_loop b1 lst1 tok1 (i + 1) bg1"
    using st b1(4) Cons.prems(3) by (subst tok_loop.simps) (simp add: tok1_def bg1_def)
  obtain b' tok' where b': "tok_loop b1 lst1 tok1 (i + 1) bg1 = Some (b', tok', last_amp (i + 1) bg1 ws)"
      "length b' = length b1" "length tok' = length tok1" "take (bound b1 lst1) b' = take (bound b1 lst1) b1"
      "take (i + 1) tok' = take (i + 1) tok1"
      "map (map_option (at b')) (take (Suc (length ws)) (drop (i + 1) tok')) = map mark ws @ [None]"
    using Cons.IH[OF b1(9), of "i + 1" tok1 bg1] b1(1,8) Cons.prems(3) by (auto simp: tok1_def)
  have at: "at b' t = w" using at_prefix[OF b'(4) _ b1(6) _ b1(7) b'(2), of t] b1(1,3,8) by simp
  have i: "tok' ! i = tok1 ! i" by (metis b'(5) less_add_one nth_take)
  have i': "i < length tok'" "take i tok' = take i tok"
    using b'(3) Cons.prems(3) take_shorter[OF b'(5), of i] by (simp_all add: tok1_def)
  have "drop i tok' = tok' ! i # drop (i + 1) tok'" using i'(1) by (simp add: Cons_nth_drop_Suc)
  then have "map (map_option (at b')) (take (Suc (length (w # ws))) (drop i tok')) = map mark (w # ws) @ [None]"
    using b'(6) i at Cons.prems(3) by (simp add: tok1_def mark_def)
  moreover have "take (bound b lst) b' = take (bound b lst) b"
    using take_shorter[OF b'(4), of "bound b lst"] b1(2,5,6) by simp
  ultimately show ?case using lp b'(1-3) b1(1) i'(2) by (simp add: tok1_def bg1_def)
qed

lemma count_spaces_eq: "i < length b \<Longrightarrow> count_spaces b i = length (filter (\<lambda>c. c = 32) (take i (tl b)))"
  by (induction i) (auto simp: take_Suc_conv_app_nth nth_tl)

lemma words_bound: "u \<noteq> [] \<Longrightarrow> length (words u) \<le> Suc (length (filter (\<lambda>c. c = 32) (tl u)))"
proof (induction u rule: words.induct)
  case (2 c s)
  show ?case
  proof (cases "c = 32")
    case True
    with 2(1) show ?thesis by (cases s) (auto split: if_splits)
  next
    case False
    define v where "v = dropWhile (\<lambda>a. a \<noteq> 32) s"
    have v: "v = [] \<or> (\<exists>y. v = 32 # y)" unfolding v_def by (induction s) auto
    have f: "length (filter (\<lambda>c. c = 32) s) = length (filter (\<lambda>c. c = 32) v)" unfolding v_def by (induction s) auto
    have "v \<noteq> [] \<Longrightarrow> length (words v) \<le> Suc (length (filter (\<lambda>c. c = 32) (tl v)))" using 2(2)[OF False] by (simp add: v_def)
    then have "length (words v) \<le> length (filter (\<lambda>c. c = 32) v)" using v by auto
    then show ?thesis using f False by (simp add: v_def[symmetric])
  qed
qed simp

lemma tokenize_words:
  assumes "0 \<notin> set u" "words u = w # ws"
  shows "\<exists>b p tok. tokenize arr lst (u @ 0 # r) = Some (b, Some p # tok, last_amp 1 0 ws) \<and> at b p = w \<and> 0 \<in> set (drop p b) \<and>
     map (map_option (at b)) (take (length ws + 1) tok) = map mark ws @ [None]"
proof -
  let ?b = "u @ 0 # r"
  obtain n where n: "num_tok ?b = Some n" "length (w # ws) \<le> n"
  proof
    obtain k where k: "length u = Suc k" using assms(2) by (cases u) auto
    have "count_spaces ?b k = length (filter (\<lambda>c. c = 32) (tl u))"
      using count_spaces_eq[of k ?b] k by (cases u) auto
    then show "num_tok ?b = Some (Suc (length (filter (\<lambda>c. c = 32) (tl u))))"
      using ustrlen_append[OF assms(1), of r] k by (simp add: num_tok_def)
    show "length (w # ws) \<le> Suc (length (filter (\<lambda>c. c = 32) (tl u)))"
      using words_bound[of u] assms(2) by (cases u) auto
  qed
  have e: "strtok ?b (lit '' '') (Some 0) lst = strtok ?b (lit '' '') None (Some 0)" by (simp add: strtok_def)
  have "pending ?b (Some 0) (w # ws)" using assms by (auto simp: pending_def)
  from strtok_pending[OF this] obtain t b1 lst1 where st: "strtok ?b (lit '' '') (Some 0) lst = Some (Some t, b1, lst1)" and
    b1: "length b1 = length ?b" "at b1 t = w" "t + length w < bound b1 lst1" "b1 ! (t + length w) = 0"
      "bound b1 lst1 \<le> length ?b" "pending b1 lst1 ws"
    unfolding e by (auto simp: bound_def)
  let ?tok = "(map arr [0..<n + 1])[0 := Some t]"
  obtain b tok where b: "tok_loop b1 lst1 ?tok 1 0 = Some (b, tok, last_amp 1 0 ws)" "length b = length b1"
     "take (bound b1 lst1) b = take (bound b1 lst1) b1" "take 1 tok = take 1 ?tok"
     "map (map_option (at b)) (take (Suc (length ws)) (drop 1 tok)) = map mark ws @ [None]"
    using tok_loop_words[OF b1(6), of 1 ?tok 0] b1(1,5) n(2) by auto
  have "at b t = w" using at_prefix[OF b(3) _ b1(3) _ b1(4) b(2), of t] b1(1,2,5) by simp
  moreover have "b ! (t + length w) = 0" using b(3) b1(3,4) by (metis nth_take)
  then have "drop t b ! length w = 0" "length w < length (drop t b)" using b(2) b1(1,3,5) by simp_all
  then have "0 \<in> set (drop t b)" by (metis nth_mem)
  moreover have "take 1 tok = [Some t]" using b(4) by (simp add: upt_conv_Cons del: upt_Suc)
  then obtain rest where "tok = Some t # rest" by (cases tok) auto
  ultimately show ?thesis using n(1) st b(1,5) by (simp add: tokenize_def)
qed

text \<open>
  C33: the tokenizer of the shell: on a non-empty line, whatever the array that \<open>malloc\<close> returned and
  the static variable \<open>last\<close> hold, the token array is never overrun, and it holds the words of the line
  in order, then a null pointer, with a null pointer in place of each later word that starts with
  \<open>&\<close>; \<open>bg\<close> is the index of the last of those words, or 0.
\<close>

theorem tokenize_correct:
  assumes "0 \<notin> set u" "words u = w # ws"
  shows "\<exists>b tok. tokenize arr lst (u @ 0 # r) = Some (b, tok, last_amp 1 0 ws) \<and>
     map (map_option (at b)) (take (length ws + 2) tok) = Some w # map mark ws @ [None]"
proof -
  obtain b p tok where "tokenize arr lst (u @ 0 # r) = Some (b, Some p # tok, last_amp 1 0 ws)" "at b p = w"
    "map (map_option (at b)) (take (length ws + 1) tok) = map mark ws @ [None]"
    using tokenize_words[OF assms] by blast
  then show ?thesis by (intro exI[of _ b] exI[of _ "Some p # tok"]) simp
qed

theorem tokenize_correct_witness:
  "0 \<notin> set (map of_char ''ls  -l &'' :: bytes) \<and>
   (\<exists>b tok. tokenize (\<lambda>_. None) None (lit ''ls  -l &'') = Some (b, tok, 2) \<and>
     map (map_option (at b)) (take 4 tok) = [Some (map of_char ''ls''), Some (map of_char ''-l''), None, None])"
proof -
  have w: "0 \<notin> set (map of_char ''ls  -l &'' :: bytes)"
    "words (map of_char ''ls  -l &'') = map of_char ''ls'' # [map of_char ''-l'', map of_char ''&'']" by simp_all
  have four: "4 = Suc (Suc (Suc (Suc (0::nat))))" by simp
  show ?thesis unfolding four
    using tokenize_correct[OF w, of "\<lambda>_. None" None "[]"] w(1) by (auto simp: lit_def mark_def)
qed

section \<open>What a command does\<close>

lemma last_amp_0: "0 < i \<Longrightarrow> last_amp i bg ws = 0 \<longleftrightarrow> bg = 0 \<and> (\<forall>v\<in>set ws. hd v \<noteq> 38)"
  by (induction ws arbitrary: i bg) auto

lemma takeWhile_marks:
  "map (map_option f) (take k tok) = map mark ws @ [None] \<Longrightarrow>
   map (\<lambda>t. f (the t)) (takeWhile (\<lambda>t. t \<noteq> None) tok) = takeWhile (\<lambda>v. hd v \<noteq> 38) ws"
proof (induction ws arbitrary: k tok)
  case Nil
  then show ?case by (cases k; cases tok) auto
next
  case (Cons w ws)
  then obtain x tok' k' where "tok = x # tok'" "k = Suc k'" by (cases k; cases tok) auto
  then show ?case using Cons.prems Cons.IH[of k' tok'] by (auto simp: mark_def split: if_splits)
qed



text \<open>A line of spaces only: the code compares a null pointer with \<open>exit\<close>.\<close>

lemma blank_line_null:
  assumes "0 \<notin> set u" "u \<noteq> []" "words u = []" "x_malloc e = Some arr"
  shows "process_one_cmd e lst (u @ 0 # r) = None"
proof -
  have st: "strtok (u @ 0 # r) (lit '' '') (Some 0) lst = Some (None, u @ 0 # r, None)"
    using strtok_blank[of "u @ 0 # r" "[]" u r "Some 0" lst] assms(3) by simp
  obtain n where n: "num_tok (u @ 0 # r) = Some n"
    using ustrlen_append[OF assms(1), of r] assms(2) by (cases u) (auto simp: num_tok_def)
  have "exit_check b (None # ts) = None" for b ts by (simp add: exit_check_def)
  moreover have "\<exists>ts. ((map arr [0..<n + 1])[0 := None])[1 := None] = None # ts"
    by (simp add: upt_conv_Cons del: upt_Suc)
  ultimately show ?thesis
    using st n assms(4) tok_loop.simps[of "u @ 0 # r" None "(map arr [0..<n + 1])[0 := None]" 1 0]
    by (auto simp: process_one_cmd_def tokenize_def strtok_def[of _ _ None None] split: option.splits prod.splits)
qed

end
