(* ===== verification/Spec2Isabelle.thy ===== *)
theory Spec2Isabelle
  imports Logstore Kstring Vm Inode Consoleio Dir Pipe File Proc Syscall Sysfile Exec Frame Kbd Trap Ulib Grep Xvsh
begin

text \<open>
  A verification development for an xv6-derived teaching kernel and its user programs.

  \<^bold>\<open>State.\<close>  The kernel state is one record, extended layer by layer: \<open>mach\<close> (CPU and spin locks,
  theory \<open>Spinlock\<close>), \<open>cons\<close> (serial port and screen, theory \<open>Console\<close>), \<open>ptab\<close> (process table,
  theory \<open>Sched\<close>).  Each operation is typed on the record scheme of its own layer.

  \<^bold>\<open>Operations.\<close>  A kernel operation is a function from the state to an \<open>outcome\<close> (theory
  \<open>Prelude\<close>).
\<close>

end
